(* ===== verification/Btree_Map.thy ===== *)
theory Btree_Map
  imports Prelude "HOL-Library.List_Lexorder" "HOL-Library.Char_ord"
begin

text \<open>
  \<open>std::collections::BTreeMap\<close> as the sources use it: an association list sorted by key, because
  several components depend on the iteration order (the first minimum, the first entry to evict, the order
  in which routes are emitted). Strings are ordered by their bytes, as \<open>String\<close> is in Rust.

  The locale \<open>ordered_map\<close> is the interface the components rely on; it is interpreted on the
  sorted association lists.
\<close>

type_synonym ('k, 'v) btree = "('k \<times> 'v) list"

definition bt_empty :: "('k, 'v) btree" where
  "bt_empty = []"

definition bt_get :: "('k, 'v) btree \<Rightarrow> 'k \<Rightarrow> 'v option" where
  "bt_get m k = map_of m k"

fun bt_insert :: "'k::linorder \<Rightarrow> 'v \<Rightarrow> ('k, 'v) btree \<Rightarrow> ('k, 'v) btree" where
  "bt_insert k v [] = [(k, v)]"
| "bt_insert k v ((a, b) # m) =
     (if k < a then (k, v) # (a, b) # m
      else if k = a then (k, v) # m
      else (a, b) # bt_insert k v m)"

definition bt_remove :: "'k \<Rightarrow> ('k, 'v) btree \<Rightarrow> ('k, 'v) btree" where
  "bt_remove k m = filter (\<lambda>e. fst e \<noteq> k) m"

definition bt_retain :: "('k \<Rightarrow> 'v \<Rightarrow> bool) \<Rightarrow> ('k, 'v) btree \<Rightarrow> ('k, 'v) btree" where
  "bt_retain P m = filter (\<lambda>(k, v). P k v) m"

definition bt_len :: "('k, 'v) btree \<Rightarrow> nat" where
  "bt_len m = length m"

definition bt_contains_key :: "'k \<Rightarrow> ('k, 'v) btree \<Rightarrow> bool" where
  "bt_contains_key k m \<longleftrightarrow> bt_get m k \<noteq> None"

definition bt_wf :: "('k::linorder, 'v) btree \<Rightarrow> bool" where
  "bt_wf m \<longleftrightarrow> sorted_wrt (<) (map fst m)"

text \<open>\<open>iter().min_by_key(f)\<close>: the first of the minimal entries.\<close>

fun min_by_key :: "('a \<Rightarrow> 'b::linorder) \<Rightarrow> 'a list \<Rightarrow> 'a option" where
  "min_by_key f [] = None"
| "min_by_key f (x # xs) =
     (case min_by_key f xs of None \<Rightarrow> Some x | Some y \<Rightarrow> if f x \<le> f y then Some x else Some y)"

lemma min_by_key_None_iff [simp]: "min_by_key f xs = None \<longleftrightarrow> xs = []"
  by (cases xs) (auto split: option.splits)

lemma min_by_key_Some:
  "min_by_key f xs = Some x \<Longrightarrow> x \<in> set xs \<and> (\<forall>y\<in>set xs. f x \<le> f y)"
proof (induction xs arbitrary: x)
  case (Cons a xs)
  show ?case
  proof (cases "min_by_key f xs")
    case None
    with Cons.prems show ?thesis by simp
  next
    case (Some y)
    with Cons.IH [of y] Cons.prems show ?thesis by (auto split: if_splits)
  qed
qed simp

section \<open>Laws\<close>

lemma bt_wf_Nil [simp]: "bt_wf []"
  by (simp add: bt_wf_def)

lemma bt_wf_Cons [simp]: "bt_wf ((k, v) # m) \<longleftrightarrow> (\<forall>x\<in>set m. k < fst x) \<and> bt_wf m"
  by (auto simp: bt_wf_def)

lemma keys_bt_insert: "fst ` set (bt_insert k v m) = insert k (fst ` set m)"
  by (induction k v m rule: bt_insert.induct) auto

lemma bt_wf_insert: "bt_wf m \<Longrightarrow> bt_wf (bt_insert k v m)"
proof (induction k v m rule: bt_insert.induct)
  case (2 k v a b m)
  show ?case
  proof (cases "k \<le> a")
    case True
    with 2 show ?thesis by (force simp: le_less)
  next
    case False
    then have "\<forall>x\<in>set (bt_insert k v m). a < fst x"
      using 2(2) keys_bt_insert [of k v m] by (metis (no_types, lifting) bt_wf_Cons imageE imageI
          insertE not_le)
    with 2 False show ?thesis by auto
  qed
qed simp

lemma bt_get_None_less: "bt_wf ((a, b) # m) \<Longrightarrow> k < a \<Longrightarrow> map_of m k = None"
  by (force simp: map_of_eq_None_iff)

lemma bt_get_insert: "bt_get (bt_insert k v m) = (bt_get m)(k \<mapsto> v)"
  unfolding bt_get_def
  by (induction k v m rule: bt_insert.induct) (auto simp: fun_eq_iff)

lemma bt_get_remove: "bt_get (bt_remove k m) = (bt_get m)(k := None)"
  unfolding bt_get_def bt_remove_def by (induction m) (auto simp: fun_eq_iff)

lemma bt_wf_filter: "bt_wf m \<Longrightarrow> bt_wf (filter P m)"
  by (induction m) (auto simp: bt_wf_def)

lemma bt_wf_remove: "bt_wf m \<Longrightarrow> bt_wf (bt_remove k m)"
  unfolding bt_remove_def by (rule bt_wf_filter)

lemma bt_wf_retain: "bt_wf m \<Longrightarrow> bt_wf (bt_retain P m)"
  unfolding bt_retain_def by (rule bt_wf_filter)

lemma bt_get_in_set: "bt_wf m \<Longrightarrow> bt_get m k = Some v \<longleftrightarrow> (k, v) \<in> set m"
  unfolding bt_get_def bt_wf_def
  by (metis map_of_SomeD map_of_is_SomeI strict_sorted_iff)

lemma bt_get_retain:
  "bt_wf m \<Longrightarrow> bt_get (bt_retain P m) k =
     (case bt_get m k of None \<Rightarrow> None | Some v \<Rightarrow> if P k v then Some v else None)"
proof (induction m)
  case (Cons x m)
  obtain a b where x: "x = (a, b)" by (cases x)
  with Cons.prems have none: "bt_get m a = None"
    unfolding bt_get_def by (force simp: map_of_eq_None_iff)
  with Cons x show ?case by (auto simp: bt_get_def bt_retain_def split: option.splits)
qed (simp add: bt_get_def bt_retain_def)

lemma bt_len_insert_le: "bt_len (bt_insert k v m) \<le> Suc (bt_len m)"
  unfolding bt_len_def by (induction k v m rule: bt_insert.induct) auto

lemma bt_len_insert_old: "bt_wf m \<Longrightarrow> bt_get m k \<noteq> None \<Longrightarrow> bt_len (bt_insert k v m) = bt_len m"
proof (induction k v m rule: bt_insert.induct)
  case (2 k v a b m)
  then show ?case
    using bt_get_None_less [of a b m k] by (auto simp: bt_get_def bt_len_def split: if_splits)
qed (simp add: bt_get_def)

lemma bt_len_remove_le: "bt_len (bt_remove k m) \<le> bt_len m"
  by (simp add: bt_len_def bt_remove_def)

lemma bt_len_remove_less: "bt_get m k \<noteq> None \<Longrightarrow> bt_len (bt_remove k m) < bt_len m"
proof -
  assume "bt_get m k \<noteq> None"
  then obtain v where "(k, v) \<in> set m" unfolding bt_get_def by (auto dest: map_of_SomeD)
  then show ?thesis
    unfolding bt_len_def bt_remove_def by (intro length_filter_less [of "(k, v)"]) auto
qed

lemma bt_len_retain_le: "bt_len (bt_retain P m) \<le> bt_len m"
  by (simp add: bt_len_def bt_retain_def)

lemmas bt_laws = bt_get_insert bt_get_remove bt_wf_insert bt_wf_remove bt_wf_retain bt_get_retain

section \<open>The interface\<close>

locale ordered_map =
  fixes empty_map :: 'm
    and get_at :: "'m \<Rightarrow> 'k \<Rightarrow> 'v option"
    and put :: "'k \<Rightarrow> 'v \<Rightarrow> 'm \<Rightarrow> 'm"
    and remove :: "'k \<Rightarrow> 'm \<Rightarrow> 'm"
    and len :: "'m \<Rightarrow> nat"
    and wf_map :: "'m \<Rightarrow> bool"
  assumes wf_empty: "wf_map empty_map"
    and wf_put: "wf_map m \<Longrightarrow> wf_map (put k v m)"
    and wf_remove: "wf_map m \<Longrightarrow> wf_map (remove k m)"
    and get_empty: "get_at empty_map k = None"
    and get_put: "wf_map m \<Longrightarrow> get_at (put k v m) = (get_at m)(k \<mapsto> v)"
    and get_remove: "wf_map m \<Longrightarrow> get_at (remove k m) = (get_at m)(k := None)"
    and len_empty: "len empty_map = 0"
    and len_put: "wf_map m \<Longrightarrow> len (put k v m) \<le> Suc (len m)"
    and len_put_old: "wf_map m \<Longrightarrow> get_at m k \<noteq> None \<Longrightarrow> len (put k v m) = len m"
    and len_remove: "wf_map m \<Longrightarrow> len (remove k m) \<le> len m"
begin

text \<open>A store that makes room before a new key never grows past its bound.\<close>

lemma put_bounded:
  assumes "wf_map m" "len m \<le> n" "get_at m k = None \<Longrightarrow> len m < n"
  shows "len (put k v m) \<le> n"
proof (cases "get_at m k")
  case None
  then show ?thesis using len_put [OF assms(1), of k v] assms(3) by simp
next
  case (Some w)
  then show ?thesis using len_put_old [OF assms(1), of k v] assms(2) by simp
qed

lemma get_put_same: "wf_map m \<Longrightarrow> get_at (put k v m) k = Some v"
  by (simp add: get_put)

lemma get_put_other: "wf_map m \<Longrightarrow> k' \<noteq> k \<Longrightarrow> get_at (put k v m) k' = get_at m k'"
  by (simp add: get_put)

end

interpretation bt: ordered_map bt_empty bt_get bt_insert bt_remove bt_len bt_wf
  by unfold_locales
    (simp_all add: bt_laws bt_len_insert_old bt_len_insert_le bt_len_remove_le,
     simp_all add: bt_empty_def bt_get_def bt_len_def)

end
