(* ===== verification/Client_Ip.thy ===== *)
theory Client_Ip
  imports Prelude "HOL-Library.Word"
begin

unbundle bit_operations_syntax

text \<open>
  Who a request belongs to: \<open>src/crates/ruvyxa_middleware/src/client_ip.rs\<close>. Addresses are machine
  words, prefixes are masks, and the client is the rightmost forwarded hop that is not a trusted proxy.

  \<open>IpAddr::from_str\<close> of the standard library is modelled as its recursive-descent parser. The
  headers of a request are a parameter: \<open>headers name\<close> lists, in order, what \<open>get_all(name)\<close>
  yields, each entry \<open>None\<close> where \<open>to_str\<close> refuses the bytes.

  \<open>mask_address\<close> subtracts the prefix length from the address width in \<open>u32\<close>; where that
  underflows the model answers \<open>None\<close>, the arithmetic panic of a build with overflow checks.
\<close>

section \<open>Addresses\<close>

datatype ip_addr = V4 "32 word" | V6 "128 word"

type_synonym headers = "string \<Rightarrow> string option list"

text \<open>\<open>headers.get(name).and_then(to_str)\<close>: the first value only.\<close>

definition header_str :: "headers \<Rightarrow> string \<Rightarrow> string option" where
  "header_str h name = (case h name of [] \<Rightarrow> None | v # _ \<Rightarrow> v)"

subsection \<open>Parsing\<close>

text \<open>\<open>Parser::read_number\<close>: digits up to \<open>max_digits\<close>, failing on one digit more, on a value
  above the target type, and on a leading zero where the caller forbids it.\<close>

fun read_digits :: "int \<Rightarrow> nat \<Rightarrow> nat \<Rightarrow> int \<Rightarrow> string \<Rightarrow> (int \<times> nat \<times> string) option" where
  "read_digits radix max_digits count acc [] = Some (acc, count, [])"
| "read_digits radix max_digits count acc (c # cs) =
     (case to_digit radix c of
        None \<Rightarrow> Some (acc, count, c # cs)
      | Some d \<Rightarrow>
          (if Suc count > max_digits then None
           else read_digits radix max_digits (Suc count) (acc * radix + d) cs))"

definition read_number :: "int \<Rightarrow> nat \<Rightarrow> int \<Rightarrow> bool \<Rightarrow> string \<Rightarrow> (int \<times> string) option" where
  "read_number radix max_digits limit allow_zero_prefix s =
     (case read_digits radix max_digits 0 0 s of
        None \<Rightarrow> None
      | Some (v, count, rest) \<Rightarrow>
          (if count = 0 \<or> v \<ge> limit \<or>
              (\<not> allow_zero_prefix \<and> starts_with s ''0'' \<and> count > 1) then None
           else Some (v, rest)))"

definition read_char :: "char \<Rightarrow> string \<Rightarrow> string option" where
  "read_char c s = strip_prefix s [c]"

fun read_octets :: "nat \<Rightarrow> string \<Rightarrow> (int list \<times> string) option" where
  "read_octets 0 s = Some ([], s)"
| "read_octets (Suc n) s =
     (case read_number 10 3 256 False s of
        None \<Rightarrow> None
      | Some (v, r) \<Rightarrow>
          (case (if n = 0 then Some r else read_char (CHR ''.'') r) of
             None \<Rightarrow> None
           | Some r' \<Rightarrow> map_option (\<lambda>(vs, r''). (v # vs, r'')) (read_octets n r')))"

definition join_digits :: "int \<Rightarrow> int list \<Rightarrow> int" where
  "join_digits base vs = foldl (\<lambda>acc v. acc * base + v) 0 vs"

definition read_ipv4 :: "string \<Rightarrow> (int list \<times> string) option" where
  "read_ipv4 s = read_octets 4 s"

text \<open>\<open>read_groups\<close>: up to \<open>limit\<close> colon-separated groups; a trailing dotted quad stands for
  two groups and ends the run.\<close>

function read_groups :: "nat \<Rightarrow> nat \<Rightarrow> string \<Rightarrow> int list \<times> bool \<times> string" where
  "read_groups limit i s =
     (if i \<ge> limit then ([], False, s)
      else
        (let body = (if i > 0 then read_char (CHR '':'') s else Some s);
             v4 = (if i < limit - 1 then (case body of None \<Rightarrow> None | Some b \<Rightarrow> read_ipv4 b) else None) in
         case v4 of
           Some (os, r) \<Rightarrow>
             ([join_digits 256 (take 2 os), join_digits 256 (drop 2 os)], True, r)
         | None \<Rightarrow>
             (case (case body of None \<Rightarrow> None | Some b \<Rightarrow> read_number 16 4 65536 True b) of
                None \<Rightarrow> ([], False, s)
              | Some (g, r) \<Rightarrow>
                  (let (gs, e, r') = read_groups limit (Suc i) r in (g # gs, e, r')))))"
  by pat_completeness auto
termination
  by (relation "measure (\<lambda>(limit, i, s). limit - i)") auto

declare read_groups.simps [simp del]

definition read_ipv6 :: "string \<Rightarrow> (int list \<times> string) option" where
  "read_ipv6 s =
     (let (head, head_ipv4, r) = read_groups 8 0 s in
      if length head = 8 then Some (head, r)
      else if head_ipv4 then None
      else
        (case (case read_char (CHR '':'') r of None \<Rightarrow> None | Some r' \<Rightarrow> read_char (CHR '':'') r') of
           None \<Rightarrow> None
         | Some r' \<Rightarrow>
             (let (tail, e, r'') = read_groups (8 - (length head + 1)) 0 r' in
              Some (head @ replicate (8 - length head - length tail) 0 @ tail, r''))))"

definition parse_ip :: "string \<Rightarrow> ip_addr option" where
  "parse_ip s =
     (case read_ipv4 s of
        Some (os, []) \<Rightarrow> Some (V4 (of_int (join_digits 256 os)))
      | Some (os, _) \<Rightarrow> None
      | None \<Rightarrow>
          (case read_ipv6 s of
             Some (gs, []) \<Rightarrow> Some (V6 (of_int (join_digits 65536 gs)))
           | _ \<Rightarrow> None))"

subsection \<open>Prefixes\<close>

definition host_prefix_len :: "ip_addr \<Rightarrow> nat" where
  "host_prefix_len a = (case a of V4 _ \<Rightarrow> 32 | V6 _ \<Rightarrow> 128)"

definition mask_address :: "ip_addr \<Rightarrow> nat \<Rightarrow> ip_addr option" where
  "mask_address a n =
     (case a of
        V4 bits \<Rightarrow>
          (if n = 0 then Some (V4 (bits AND 0))
           else if n > 32 then None
           else Some (V4 (bits AND push_bit (32 - n) (- 1))))
      | V6 bits \<Rightarrow>
          (if n = 0 then Some (V6 (bits AND 0))
           else if n > 128 then None
           else Some (V6 (bits AND push_bit (128 - n) (- 1)))))"

definition to_ipv4_mapped :: "128 word \<Rightarrow> (32 word) option" where
  "to_ipv4_mapped w = (if drop_bit 32 w = 0xFFFF then Some (ucast w) else None)"

definition unmap_v4 :: "ip_addr \<Rightarrow> ip_addr" where
  "unmap_v4 a =
     (case a of
        V6 w \<Rightarrow> (case to_ipv4_mapped w of Some v \<Rightarrow> V4 v | None \<Rightarrow> V6 w)
      | V4 w \<Rightarrow> V4 w)"

text \<open>\<open>Display\<close> of an address: dotted octets; eight hexadecimal groups with the first longest run of
  at least two zero groups written as \<open>::\<close>; an IPv4-mapped address in its mixed form.\<close>

function show_radix :: "int \<Rightarrow> int \<Rightarrow> string" where
  "show_radix r n =
     (if r < 2 \<or> n < r then [char_of (if n < 10 then n + 48 else n + 87)]
      else show_radix r (n div r) @ [char_of (if n mod r < 10 then n mod r + 48 else n mod r + 87)])"
  by pat_completeness auto
termination
proof (relation "measure (\<lambda>(r, n). nat n)")
  fix r n :: int
  assume "\<not> (r < 2 \<or> n < r)"
  then have "n div r < n" "0 < n"
    by (auto intro: int_div_less_self)
  then show "((r, n div r), (r, n)) \<in> measure (\<lambda>(r, n). nat n)" by simp
qed simp

declare show_radix.simps [simp del]

definition show_ipv4 :: "32 word \<Rightarrow> string" where
  "show_ipv4 w =
     join_with ''.'' (map (\<lambda>i. show_radix 10 (uint (drop_bit i w) mod 256)) [24, 16, 8, 0])"

fun zero_span :: "nat \<Rightarrow> (nat \<times> nat) \<Rightarrow> (nat \<times> nat) \<Rightarrow> int list \<Rightarrow> nat \<times> nat" where
  "zero_span i longest current [] = longest"
| "zero_span i longest current (g # gs) =
     (if g = 0 then
        (let start = (if snd current = 0 then i else fst current);
             len = snd current + 1;
             longest' = (if len > snd longest then (start, len) else longest) in
         zero_span (Suc i) longest' (start, len) gs)
      else zero_span (Suc i) longest (0, 0) gs)"

definition show_ipv6 :: "128 word \<Rightarrow> string" where
  "show_ipv6 w =
     (case to_ipv4_mapped w of
        Some v \<Rightarrow> ''::ffff:'' @ show_ipv4 v
      | None \<Rightarrow>
          (let groups = map (\<lambda>i. uint (drop_bit i w) mod 65536) [112, 96, 80, 64, 48, 32, 16, 0];
               (start, len) = zero_span 0 (0, 0) (0, 0) groups;
               hex = (\<lambda>gs. join_with '':'' (map (show_radix 16) gs)) in
           if len > 1 then hex (take start groups) @ ''::'' @ hex (drop (start + len) groups)
           else hex groups))"

definition show_ip :: "ip_addr \<Rightarrow> string" where
  "show_ip a = (case a of V4 w \<Rightarrow> show_ipv4 w | V6 w \<Rightarrow> show_ipv6 w)"

definition is_loopback :: "ip_addr \<Rightarrow> bool" where
  "is_loopback a = (case a of V4 w \<Rightarrow> drop_bit 24 w = 127 | V6 w \<Rightarrow> w = 1)"

record ip_prefix =
  network :: ip_addr
  prefix_len :: nat

definition parse_prefix :: "string \<Rightarrow> ip_prefix option" where
  "parse_prefix v =
     (let value = trim v in
      case (case split_once (CHR ''/'') value of
              Some (a, l) \<Rightarrow>
                (case parse_ip (trim a) of
                   None \<Rightarrow> None
                 | Some addr \<Rightarrow>
                     (case parse_unsigned 256 (trim l) of None \<Rightarrow> None | Some n \<Rightarrow> Some (addr, nat n)))
            | None \<Rightarrow> (case parse_ip value of None \<Rightarrow> None | Some addr \<Rightarrow> Some (addr, host_prefix_len addr)))
      of None \<Rightarrow> None
       | Some (addr, n) \<Rightarrow>
           (if n > host_prefix_len addr then None
            else map_option (\<lambda>net. \<lparr>network = net, prefix_len = n\<rparr>) (mask_address addr n)))"

definition prefix_contains :: "ip_prefix \<Rightarrow> ip_addr \<Rightarrow> bool option" where
  "prefix_contains p candidate =
     (let c = unmap_v4 candidate; net = unmap_v4 (network p) in
      case (net, c) of
        (V4 _, V4 _) \<Rightarrow> map_option (\<lambda>m. m = net) (mask_address c (prefix_len p))
      | (V6 _, V6 _) \<Rightarrow> map_option (\<lambda>m. m = net) (mask_address c (prefix_len p))
      | _ \<Rightarrow> Some False)"

type_synonym trusted_proxies = "ip_prefix list"

fun parse_all :: "string list \<Rightarrow> string + trusted_proxies" where
  "parse_all [] = Inr []"
| "parse_all (v # vs) =
     (case parse_prefix v of
        None \<Rightarrow> Inl (''invalid IP or CIDR range `'' @ v @ ''`'')
      | Some p \<Rightarrow> rbind (parse_all vs) (\<lambda>ps. Inr (p # ps)))"

text \<open>\<open>prefixes.iter().any(\<dots>)\<close> stops at the first hit.\<close>

fun proxies_contain :: "trusted_proxies \<Rightarrow> ip_addr \<Rightarrow> bool option" where
  "proxies_contain [] ip = Some False"
| "proxies_contain (p # ps) ip =
     (case prefix_contains p ip of
        None \<Rightarrow> None
      | Some True \<Rightarrow> Some True
      | Some False \<Rightarrow> proxies_contain ps ip)"

definition is_trusted_proxy_ip :: "trusted_proxies \<Rightarrow> ip_addr \<Rightarrow> bool option" where
  "is_trusted_proxy_ip trusted ip =
     (let ip = unmap_v4 ip in if is_loopback ip then Some True else proxies_contain trusted ip)"

section \<open>The client of a request\<close>

definition forwarded_hops :: "string option list \<Rightarrow> ip_addr list" where
  "forwarded_hops values =
     List.map_filter (\<lambda>s. parse_ip (trim s))
       (concat (map (\<lambda>v. rev (split_on (CHR '','') v)) (List.map_filter (\<lambda>v. v) (rev values))))"

text \<open>\<open>find\<close> over the hops, rightmost first; the outer option is a panic.\<close>

fun first_untrusted :: "trusted_proxies \<Rightarrow> ip_addr list \<Rightarrow> ip_addr option option" where
  "first_untrusted trusted [] = Some None"
| "first_untrusted trusted (a # as) =
     (case is_trusted_proxy_ip trusted a of
        None \<Rightarrow> None
      | Some True \<Rightarrow> first_untrusted trusted as
      | Some False \<Rightarrow> Some (Some a))"

definition forwarded_client_ip :: "trusted_proxies \<Rightarrow> headers \<Rightarrow> ip_addr option option" where
  "forwarded_client_ip trusted h =
     (let forwarded = h ''x-forwarded-for'';
          values = (if forwarded \<noteq> [] then forwarded else h ''x-real-ip'') in
      first_untrusted trusted (forwarded_hops values))"

definition client_ip :: "ip_addr \<Rightarrow> headers \<Rightarrow> trusted_proxies \<Rightarrow> ip_addr option" where
  "client_ip peer h trusted =
     (case is_trusted_proxy_ip trusted peer of
        None \<Rightarrow> None
      | Some True \<Rightarrow>
          map_option (\<lambda>f. case f of Some ip \<Rightarrow> ip | None \<Rightarrow> peer) (forwarded_client_ip trusted h)
      | Some False \<Rightarrow> Some peer)"

section \<open>Prefix matching\<close>

text \<open>Masking compares the leading bits.\<close>

lemma and_mask_eq_iff:
  fixes a b :: "'w::len word"
  shows "a AND push_bit k (- 1) = b AND push_bit k (- 1) \<longleftrightarrow> drop_bit k a = drop_bit k b"
proof
  assume eq: "a AND push_bit k (- 1) = b AND push_bit k (- 1)"
  show "drop_bit k a = drop_bit k b"
  proof (rule bit_word_eqI)
    fix n assume "n < LENGTH('w)"
    have "bit (a AND push_bit k (- 1)) (k + n) = bit (b AND push_bit k (- 1)) (k + n)"
      using eq by simp
    then show "bit (drop_bit k a) n = bit (drop_bit k b) n"
      by (auto simp: bit_simps dest: bit_imp_le_length)
  qed
next
  assume eq: "drop_bit k a = drop_bit k b"
  show "a AND push_bit k (- 1) = b AND push_bit k (- 1)"
  proof (rule bit_word_eqI)
    fix n assume "n < LENGTH('w)"
    have "bit (drop_bit k a) (n - k) = bit (drop_bit k b) (n - k)" using eq by simp
    then show "bit (a AND push_bit k (- 1)) n = bit (b AND push_bit k (- 1)) n"
      by (auto simp: bit_simps)
  qed
qed

lemma mask_address_V4:
  "n \<le> 32 \<Longrightarrow> mask_address (V4 w) n = Some (V4 (w AND push_bit (32 - n) (- 1)))"
  by (auto simp: mask_address_def bit_simps intro!: bit_word_eqI)

lemma mask_address_V6:
  "n \<le> 128 \<Longrightarrow> mask_address (V6 w) n = Some (V6 (w AND push_bit (128 - n) (- 1)))"
  by (auto simp: mask_address_def bit_simps intro!: bit_word_eqI)

text \<open>A prefix as \<open>IpPrefix::parse\<close> stores it: host bits cleared, length within the family.\<close>

definition wf_prefix :: "ip_prefix \<Rightarrow> bool" where
  "wf_prefix p \<longleftrightarrow>
     prefix_len p \<le> host_prefix_len (network p) \<and>
     mask_address (network p) (prefix_len p) = Some (network p)"

text \<open>The leading bits two addresses of one family share.\<close>

fun shares_prefix :: "nat \<Rightarrow> ip_addr \<Rightarrow> ip_addr \<Rightarrow> bool" where
  "shares_prefix n (V4 a) (V4 b) \<longleftrightarrow> drop_bit (32 - n) a = drop_bit (32 - n) b"
| "shares_prefix n (V6 a) (V6 b) \<longleftrightarrow> drop_bit (128 - n) a = drop_bit (128 - n) b"
| "shares_prefix n _ _ \<longleftrightarrow> False"

lemma mask_idem:
  fixes w :: "'w::len word"
  shows "w AND push_bit k (- 1) AND push_bit k (- 1) = w AND push_bit k (- 1)"
  by (simp add: and.assoc)

lemma parse_prefix_wf: "parse_prefix s = Some p \<Longrightarrow> wf_prefix p"
  unfolding parse_prefix_def wf_prefix_def Let_def
  by (auto split: option.splits if_splits ip_addr.splits
      simp: host_prefix_len_def mask_address_V4 mask_address_V6 mask_idem)

text \<open>A configured range trusts exactly the addresses of its family that agree with it on the leading
  bits, whatever host bits were written, and for an IPv4-mapped peer too.\<close>

theorem prefix_contains_iff:
  assumes "parse_prefix s = Some p" and "unmap_v4 (network p) = network p"
  shows "prefix_contains p ip = Some (shares_prefix (prefix_len p) (network p) (unmap_v4 ip))"
proof -
  note wf = parse_prefix_wf [OF assms(1), unfolded wf_prefix_def]
  show ?thesis
  proof (cases "network p"; cases "unmap_v4 ip")
    fix a b
    assume n: "network p = V4 a" and c: "unmap_v4 ip = V4 b"
    let ?k = "32 - prefix_len p"
    have le: "prefix_len p \<le> 32" using wf n by (simp add: host_prefix_len_def)
    have "a = a AND push_bit ?k (- 1)" using wf n le by (simp add: mask_address_V4)
    then have "b AND push_bit ?k (- 1) = a \<longleftrightarrow> drop_bit ?k a = drop_bit ?k b"
      by (metis and_mask_eq_iff)
    then show ?thesis
      using assms(2) n c le by (simp add: prefix_contains_def mask_address_V4 Let_def)
  next
    fix a b
    assume n: "network p = V6 a" and c: "unmap_v4 ip = V6 b"
    let ?k = "128 - prefix_len p"
    have le: "prefix_len p \<le> 128" using wf n by (simp add: host_prefix_len_def)
    have "a = a AND push_bit ?k (- 1)" using wf n le by (simp add: mask_address_V6)
    then have "b AND push_bit ?k (- 1) = a \<longleftrightarrow> drop_bit ?k a = drop_bit ?k b"
      by (metis and_mask_eq_iff)
    then show ?thesis
      using assms(2) n c le by (simp add: prefix_contains_def mask_address_V6 Let_def)
  qed (use assms(2) in \<open>simp_all add: prefix_contains_def Let_def\<close>)
qed

theorem prefix_contains_iff_witness:
  "\<exists>p. parse_prefix ''10.1.2.3/8'' = Some p \<and> prefix_contains p (V4 167772169) = Some True"
proof -
  have p: "parse_prefix ''10.1.2.3/8'' = Some \<lparr>network = V4 167772160, prefix_len = 8\<rparr>" by code_simp
  have "unmap_v4 (network \<lparr>network = V4 167772160, prefix_len = 8\<rparr>) = V4 167772160"
    by (simp add: unmap_v4_def)
  with prefix_contains_iff [OF p, of "V4 167772169"] p show ?thesis
    by (simp add: unmap_v4_def)
qed

text \<open>A bare IPv4-mapped address in the trusted list makes the comparison with an IPv4 peer underflow
  the \<open>u32\<close> shift: the network is unmapped to 32 bits while its prefix length stays 128.\<close>

theorem mapped_prefix_panics:
  "\<exists>p. parse_prefix ''::ffff:10.0.0.9'' = Some p \<and> prefix_contains p (V4 167772169) = None"
proof -
  have "parse_prefix ''::ffff:10.0.0.9'' = Some \<lparr>network = V6 281470849515529, prefix_len = 128\<rparr>"
    by code_simp
  moreover have "prefix_contains \<lparr>network = V6 281470849515529, prefix_len = 128\<rparr> (V4 167772169) = None"
    by code_simp
  ultimately show ?thesis by blast
qed

section \<open>Attribution\<close>

lemma first_untrusted_append:
  "first_untrusted t (as @ bs) =
     (case first_untrusted t as of None \<Rightarrow> None | Some (Some a) \<Rightarrow> Some (Some a)
      | Some None \<Rightarrow> first_untrusted t bs)"
  by (induction as) (auto split: option.splits bool.splits)

lemma forwarded_hops_snoc:
  "forwarded_hops (vs @ [v]) = forwarded_hops [v] @ forwarded_hops vs"
  by (cases v) (simp_all add: forwarded_hops_def map_filter_simps map_filter_def)

lemma forwarded_hops_comma:
  "forwarded_hops [Some (l @ '','' @ r)] = forwarded_hops [Some r] @ forwarded_hops [Some l]"
  by (simp add: forwarded_hops_def map_filter_def split_on_append_sep)

lemma first_untrusted_Some:
  "first_untrusted t as = Some (Some a) \<Longrightarrow> a \<in> set as \<and> is_trusted_proxy_ip t a = Some False"
  by (induction as) (auto split: option.splits bool.splits)


definition example_headers :: headers where
  "example_headers name =
     (if name = ''x-forwarded-for'' then [Some ''8.8.8.8'', Some ''6.6.6.6, 203.0.113.7, 127.0.0.1''] else [])"


text \<open>Headers of an untrusted peer are never believed, and the address returned is the peer's own or a
  forwarded address that is not a trusted proxy.\<close>

theorem client_ip_attribution:
  assumes "client_ip peer h trusted = Some a"
  shows "a = peer \<or> (is_trusted_proxy_ip trusted peer = Some True \<and> is_trusted_proxy_ip trusted a = Some False)"
  using assms
  by (auto simp: client_ip_def forwarded_client_ip_def Let_def split: option.splits bool.splits if_splits
      dest: first_untrusted_Some)

theorem client_ip_attribution_witness:
  "V4 3405803783 = V4 2130706433 \<or> (is_trusted_proxy_ip [] (V4 2130706433) = Some True \<and>
     is_trusted_proxy_ip [] (V4 3405803783) = Some False)"
proof (rule client_ip_attribution)
  show "client_ip (V4 2130706433) example_headers [] = Some (V4 3405803783)" by code_simp
qed

end
