(* ===== verification/Rate_Limit.thy ===== *)
theory Rate_Limit
  imports Btree_Map Client_Ip
begin

text \<open>
  The fixed-window limiter of \<open>src/crates/ruvyxa_middleware/src/builtin.rs\<close>: one bucket per client
  key, a bounded number of keys, eviction of the least recently refilled bucket under pressure.

  Instants and durations are nanoseconds (\<open>nat\<close>); \<open>duration_since\<close> and
  \<open>saturating_sub\<close> stop at zero, as subtraction on \<open>nat\<close> does. Each operation takes the
  instant it reads from the clock. The key hash (\<open>blake3\<close>) is a parameter. A poisoned mutex is a flag of
  the state.
\<close>

section \<open>State and operations\<close>

definition MAX_TRACKED_RATE_LIMIT_KEYS :: nat where
  "MAX_TRACKED_RATE_LIMIT_KEYS = 10000"

definition nanos_per_sec :: nat where
  "nanos_per_sec = 1000000000"

record rate_bucket =
  tokens :: nat
  last_refill :: nat

record rate_limiter =
  max_requests :: nat
  window :: nat
  poisoned :: bool
  buckets :: "(string, rate_bucket) btree"

definition from_config :: "nat \<Rightarrow> nat \<Rightarrow> rate_limiter" where
  "from_config config_max config_window_secs =
     \<lparr>max_requests = max config_max 1, window = max config_window_secs 1 * nanos_per_sec,
      poisoned = False, buckets = bt_empty\<rparr>"

definition bounded_key :: "(string \<Rightarrow> string) \<Rightarrow> string \<Rightarrow> string" where
  "bounded_key blake3_hex identity = blake3_hex identity"

text \<open>\<open>extract_key\<close>: the configured header, else the client address, else a shared key when the
  transport peer is unknown. The outer option is the panic of \<open>client_ip\<close>.\<close>

definition extract_key ::
  "(string \<Rightarrow> string) \<Rightarrow> headers \<Rightarrow> ip_addr option \<Rightarrow> string \<Rightarrow> trusted_proxies
     \<Rightarrow> string option" where
  "extract_key blake3_hex h peer key_by trusted =
     (case (case strip_prefix key_by ''header:'' of
              None \<Rightarrow> None
            | Some name \<Rightarrow> (case header_str h name of Some v \<Rightarrow> if v \<noteq> [] then Some v else None | None \<Rightarrow> None))
      of Some v \<Rightarrow> Some (bounded_key blake3_hex v)
       | None \<Rightarrow>
           (case peer of
              None \<Rightarrow> Some (bounded_key blake3_hex ''unknown'')
            | Some ip \<Rightarrow> map_option (\<lambda>c. bounded_key blake3_hex (show_ip c)) (client_ip ip h trusted)))"

text \<open>The eviction loop.\<close>

function evict_oldest :: "(string, rate_bucket) btree \<Rightarrow> (string, rate_bucket) btree" where
  "evict_oldest m =
     (if MAX_TRACKED_RATE_LIMIT_KEYS \<le> bt_len m then
        (case min_by_key (\<lambda>e. last_refill (snd e)) m of
           None \<Rightarrow> m
         | Some oldest \<Rightarrow> evict_oldest (bt_remove (fst oldest) m))
      else m)"
  by pat_completeness auto

termination
proof (relation "measure bt_len")
  fix m oldest
  assume "min_by_key (\<lambda>e. last_refill (snd e)) m = Some oldest"
  then have "oldest \<in> set m" by (auto dest: min_by_key_Some)
  then show "(bt_remove (fst oldest) m, m) \<in> measure bt_len"
    using length_filter_less [of oldest m "\<lambda>e. fst e \<noteq> fst oldest"]
    by (simp add: bt_len_def bt_remove_def)
qed simp

declare evict_oldest.simps [simp del]

definition make_room :: "nat \<Rightarrow> string \<Rightarrow> nat \<Rightarrow> (string, rate_bucket) btree \<Rightarrow> (string, rate_bucket) btree" where
  "make_room w key now m =
     (if \<not> bt_contains_key key m \<and> MAX_TRACKED_RATE_LIMIT_KEYS \<le> bt_len m then
        evict_oldest (bt_retain (\<lambda>_ b. now - last_refill b < w) m)
      else m)"

definition refill :: "nat \<Rightarrow> nat \<Rightarrow> nat \<Rightarrow> rate_bucket \<Rightarrow> rate_bucket" where
  "refill mx w now b =
     (if w \<le> now - last_refill b then \<lparr>tokens = mx, last_refill = now\<rparr> else b)"

definition spend :: "rate_bucket \<Rightarrow> bool \<times> rate_bucket" where
  "spend b = (if 0 < tokens b then (True, b\<lparr>tokens := tokens b - 1\<rparr>) else (False, b))"

definition bucket_step :: "nat \<Rightarrow> nat \<Rightarrow> rate_bucket option \<Rightarrow> nat \<Rightarrow> bool \<times> rate_bucket" where
  "bucket_step mx w b now =
     spend (refill mx w now (case b of Some b \<Rightarrow> b | None \<Rightarrow> \<lparr>tokens = mx, last_refill = now\<rparr>))"

definition allow :: "rate_limiter \<Rightarrow> string \<Rightarrow> nat \<Rightarrow> bool \<times> rate_limiter" where
  "allow rl key now =
     (if poisoned rl then (False, rl)
      else
        (let m = make_room (window rl) key now (buckets rl);
             (ok, b) = bucket_step (max_requests rl) (window rl) (bt_get m key) now in
         (ok, rl\<lparr>buckets := bt_insert key b m\<rparr>)))"

definition retry_after_seconds :: "rate_limiter \<Rightarrow> string \<Rightarrow> nat \<Rightarrow> nat" where
  "retry_after_seconds rl key now =
     (if poisoned rl then 1
      else
        (case bt_get (buckets rl) key of
           None \<Rightarrow> 1
         | Some b \<Rightarrow>
             (let remaining = window rl - (now - last_refill b);
                  seconds = remaining div nanos_per_sec + (if 0 < remaining mod nanos_per_sec then 1 else 0) in
              max seconds 1)))"

section \<open>Bounded memory\<close>

definition limiter_inv :: "rate_limiter \<Rightarrow> bool" where
  "limiter_inv rl \<longleftrightarrow>
     bt_wf (buckets rl) \<and> bt_len (buckets rl) \<le> MAX_TRACKED_RATE_LIMIT_KEYS \<and>
     (\<forall>e\<in>set (buckets rl). tokens (snd e) \<le> max_requests rl)"

lemma evict_oldest_wf: "bt_wf m \<Longrightarrow> bt_wf (evict_oldest m)"
  by (induction m rule: evict_oldest.induct)
    (subst evict_oldest.simps, auto simp: bt_wf_remove split: option.splits)

lemma evict_oldest_room: "bt_len (evict_oldest m) < MAX_TRACKED_RATE_LIMIT_KEYS"
proof (induction m rule: evict_oldest.induct)
  case (1 m)
  show ?case
  proof (cases "MAX_TRACKED_RATE_LIMIT_KEYS \<le> bt_len m")
    case True
    then have "min_by_key (\<lambda>e. last_refill (snd e)) m \<noteq> None"
      by (auto simp: MAX_TRACKED_RATE_LIMIT_KEYS_def bt_len_def)
    with 1 True show ?thesis by (subst evict_oldest.simps) (auto split: option.splits)
  qed (subst evict_oldest.simps, simp)
qed

lemma evict_oldest_subset: "set (evict_oldest m) \<subseteq> set m"
proof (induction m rule: evict_oldest.induct)
  case (1 m)
  then show ?case
    by (subst evict_oldest.simps) (auto simp: bt_remove_def split: option.splits)
qed

lemma make_room_subset: "set (make_room w k now m) \<subseteq> set m"
  using evict_oldest_subset [of "bt_retain (\<lambda>_ b. now - last_refill b < w) m"]
  by (auto simp: make_room_def bt_retain_def)

lemma make_room_wf: "bt_wf m \<Longrightarrow> bt_wf (make_room w k now m)"
  by (simp add: make_room_def evict_oldest_wf bt_wf_retain)

lemma make_room_len:
  assumes "bt_len m \<le> MAX_TRACKED_RATE_LIMIT_KEYS"
  shows "bt_len (make_room w k now m) \<le> MAX_TRACKED_RATE_LIMIT_KEYS"
    "bt_get (make_room w k now m) k = None \<Longrightarrow> bt_len (make_room w k now m) < MAX_TRACKED_RATE_LIMIT_KEYS"
  using assms evict_oldest_room less_imp_le
  by (fastforce simp: make_room_def bt_contains_key_def)+

lemma bucket_step_tokens:
  "(\<And>b'. b = Some b' \<Longrightarrow> tokens b' \<le> mx) \<Longrightarrow> tokens (snd (bucket_step mx w b now)) \<le> mx"
  by (auto simp: bucket_step_def spend_def refill_def split: option.splits if_splits)

lemma set_bt_insert_subset: "set (bt_insert k v m) \<subseteq> insert (k, v) (set m)"
  by (induction k v m rule: bt_insert.induct) auto

lemma allow_inv: "limiter_inv rl \<Longrightarrow> limiter_inv (snd (allow rl k now))"
proof (cases "poisoned rl")
  case False
  assume inv: "limiter_inv rl"
  let ?m = "make_room (window rl) k now (buckets rl)"
  let ?b = "snd (bucket_step (max_requests rl) (window rl) (bt_get ?m k) now)"
  have eq: "snd (allow rl k now) = rl\<lparr>buckets := bt_insert k ?b ?m\<rparr>"
    using False by (simp add: allow_def Let_def split_def)
  have wf: "bt_wf ?m" using inv by (simp add: limiter_inv_def make_room_wf)
  have "bt_len (bt_insert k ?b ?m) \<le> MAX_TRACKED_RATE_LIMIT_KEYS"
    using inv make_room_len [of "buckets rl"] by (intro bt.put_bounded wf) (auto simp: limiter_inv_def)
  moreover have "tokens ?b \<le> max_requests rl"
    using inv make_room_subset [of "window rl" k now "buckets rl"] bt_get_in_set [OF wf, of k]
    by (intro bucket_step_tokens) (fastforce simp: limiter_inv_def)
  moreover have "\<forall>e\<in>set ?m. tokens (snd e) \<le> max_requests rl"
    using inv make_room_subset [of "window rl" k now "buckets rl"] by (auto simp: limiter_inv_def)
  ultimately show ?thesis
    using set_bt_insert_subset [of k ?b ?m] wf by (fastforce simp: eq limiter_inv_def bt_wf_insert)
qed (simp add: allow_def)

definition allow_step :: "rate_limiter \<Rightarrow> string \<times> nat \<Rightarrow> rate_limiter" where
  "allow_step rl e = snd (allow rl (fst e) (snd e))"

interpretation limiter: step_invariant allow_step limiter_inv
  by unfold_locales (simp add: allow_step_def allow_inv)

lemma from_config_inv: "limiter_inv (from_config mx w)"
  by (simp add: limiter_inv_def from_config_def bt_empty_def bt_len_def)

text \<open>The limiter's memory is bounded: whatever requests arrive, under whatever keys and at whatever
  times, it never tracks more than \<open>MAX_TRACKED_RATE_LIMIT_KEYS\<close> clients.\<close>

theorem limiter_bounded_memory:
  "bt_len (buckets (foldl allow_step (from_config mx w) requests)) \<le> MAX_TRACKED_RATE_LIMIT_KEYS"
  using limiter.run_inv [OF from_config_inv, of mx w requests] by (simp add: limiter_inv_def)

section \<open>Retry-After\<close>

lemma allow_tracked:
  assumes "\<not> poisoned rl" "bt_get (buckets rl) k = Some b"
  shows "allow rl k now =
     (let (ok, b') = bucket_step (max_requests rl) (window rl) (Some b) now in
      (ok, rl\<lparr>buckets := bt_insert k b' (buckets rl)\<rparr>))"
  using assms by (simp add: allow_def make_room_def bt_contains_key_def)

lemma ceil_div_covers: "0 < d \<Longrightarrow> r \<le> (r div d + (if 0 < r mod d then 1 else 0)) * (d::nat)"
proof -
  assume "0 < d"
  let ?up = "if 0 < r mod d then 1 else 0"
  have "r mod d \<le> ?up * d" using mod_less_divisor [OF \<open>0 < d\<close>, of r] by (simp add: less_imp_le)
  then have "r div d * d + r mod d \<le> r div d * d + ?up * d" by (rule add_left_mono)
  then show ?thesis by (simp only: div_mult_mod_eq add_mult_distrib)
qed

lemma retry_after_covers:
  assumes "\<not> poisoned rl" "bt_get (buckets rl) k = Some b"
  shows "window rl - (now - last_refill b) \<le> retry_after_seconds rl k now * nanos_per_sec"
proof -
  let ?r = "window rl - (now - last_refill b)"
  have "?r \<le> (?r div nanos_per_sec + (if 0 < ?r mod nanos_per_sec then 1 else 0)) * nanos_per_sec"
    by (rule ceil_div_covers) (simp add: nanos_per_sec_def)
  also have "\<dots> \<le> retry_after_seconds rl k now * nanos_per_sec"
    using assms by (intro mult_right_mono) (simp_all add: retry_after_seconds_def Let_def)
  finally show ?thesis .
qed

text \<open>\<open>Instant::now\<close> is monotonic: no bucket was stamped after the current instant.\<close>

definition stamped_before :: "rate_limiter \<Rightarrow> nat \<Rightarrow> bool" where
  "stamped_before rl now \<longleftrightarrow> list_all (\<lambda>e. last_refill (snd e) \<le> now) (buckets rl)"

lemma bucket_step_stamp:
  "(\<And>b'. b = Some b' \<Longrightarrow> last_refill b' \<le> now) \<Longrightarrow> last_refill (snd (bucket_step mx w b now)) \<le> now"
  by (auto simp: bucket_step_def spend_def refill_def split: option.splits if_splits)

lemma make_room_get_mem:
  assumes "bt_wf m" "bt_get (make_room w k now m) k' = Some b"
  shows "(k', b) \<in> set m"
  using assms make_room_subset [of w k now m] bt_get_in_set [OF make_room_wf [OF assms(1)]] by blast

text \<open>The advertised wait is enough: a client refused at \<open>now\<close> and returning after the
  \<open>Retry-After\<close> it was given is admitted.\<close>

theorem retry_after_admits:
  assumes "limiter_inv rl" "\<not> poisoned rl" "0 < max_requests rl" "stamped_before rl now"
    and "allow rl k now = (False, rl')"
  shows "fst (allow rl' k (now + retry_after_seconds rl' k now * nanos_per_sec))"
proof -
  let ?m = "make_room (window rl) k now (buckets rl)"
  let ?later = "now + retry_after_seconds rl' k now * nanos_per_sec"
  obtain b where b: "bucket_step (max_requests rl) (window rl) (bt_get ?m k) now = (False, b)"
    and rl': "rl' = rl\<lparr>buckets := bt_insert k b ?m\<rparr>"
    using assms(2,5) by (auto simp: allow_def Let_def split: prod.splits)
  have get: "bt_get (buckets rl') k = Some b" by (simp add: rl' bt_get_insert)
  have notp: "\<not> poisoned rl'" using assms(2) by (simp add: rl')
  have "last_refill b \<le> now"
    using bucket_step_stamp [of "bt_get ?m k" now "max_requests rl" "window rl"] b assms(1,4)
      make_room_get_mem [of "buckets rl" "window rl" k now k]
    by (fastforce simp: limiter_inv_def stamped_before_def list_all_iff)
  then have "window rl' \<le> ?later - last_refill b"
    using retry_after_covers [OF notp get, of now] by linarith
  moreover have "0 < max_requests rl'" using assms(3) by (simp add: rl')
  ultimately show ?thesis
    by (simp add: allow_tracked [OF notp get] bucket_step_def refill_def spend_def)
qed

definition drained_limiter :: rate_limiter where
  "drained_limiter =
     \<lparr>max_requests = 1, window = 2 * nanos_per_sec, poisoned = False,
      buckets = [(''a'', \<lparr>tokens = 0, last_refill = 0\<rparr>)]\<rparr>"

lemma drained_refuses:
  "allow drained_limiter ''a'' 1 = (False, drained_limiter)"
  by (simp add: allow_def drained_limiter_def make_room_def bt_contains_key_def bt_get_def
      bucket_step_def refill_def spend_def nanos_per_sec_def)

theorem retry_after_admits_witness:
  "fst (allow drained_limiter ''a'' (1 + retry_after_seconds drained_limiter ''a'' 1 * nanos_per_sec))"
proof (rule retry_after_admits [OF _ _ _ _ drained_refuses])
  show "limiter_inv drained_limiter"
    by (simp add: limiter_inv_def drained_limiter_def bt_len_def MAX_TRACKED_RATE_LIMIT_KEYS_def)
qed (simp_all add: drained_limiter_def stamped_before_def)

section \<open>The burst bound\<close>

text \<open>One key's decisions, from its bucket alone.\<close>

fun bucket_run :: "nat \<Rightarrow> nat \<Rightarrow> rate_bucket option \<Rightarrow> nat list \<Rightarrow> (nat \<times> bool) list" where
  "bucket_run mx w b [] = []"
| "bucket_run mx w b (t # ts) =
     (let (ok, b') = bucket_step mx w b t in (t, ok) # bucket_run mx w (Some b') ts)"

definition admitted_in :: "nat \<Rightarrow> nat \<Rightarrow> (nat \<times> bool) list \<Rightarrow> nat" where
  "admitted_in a len ds = length (filter (\<lambda>(t, ok). ok \<and> a \<le> t \<and> t < a + len) ds)"

lemma admitted_in_simps [simp]:
  "admitted_in a len [] = 0"
  "admitted_in a len ((t, ok) # ds) =
     (if ok \<and> a \<le> t \<and> t < a + len then Suc (admitted_in a len ds) else admitted_in a len ds)"
  by (simp_all add: admitted_in_def)

lemma bucket_run_times: "map fst (bucket_run mx w b ts) = ts"
  by (induction ts arbitrary: b) (simp_all add: split_def Let_def)

lemma admitted_none:
  assumes "\<forall>t\<in>set ts. a + len \<le> t"
  shows "admitted_in a len (bucket_run mx w b ts) = 0"
proof -
  have "set (map fst (bucket_run mx w b ts)) = set ts" by (simp only: bucket_run_times)
  with assms have "\<forall>d\<in>set (bucket_run mx w b ts). a + len \<le> fst d"
    by (metis image_eqI list.set_map)
  then show ?thesis unfolding admitted_in_def by (auto simp: filter_empty_conv)
qed

text \<open>Inside one window the allowance is what is left in the bucket.\<close>

lemma admitted_same_window:
  "sorted (last_refill b # ts) \<Longrightarrow> a \<le> last_refill b \<Longrightarrow>
   admitted_in a w (bucket_run mx w (Some b) ts) \<le> tokens b"
proof (induction ts arbitrary: b)
  case (Cons t ts)
  show ?case
  proof (cases "w \<le> t - last_refill b \<and> 0 < w")
    case True
    with Cons.prems have "\<forall>u\<in>set (t # ts). a + w \<le> u" by auto
    from admitted_none [OF this] show ?thesis by simp
  next
    case False
    then show ?thesis
    proof (cases "w = 0")
      case True
      then show ?thesis by (simp add: admitted_in_def)
    next
      case w: False
      with False have stay: "\<not> w \<le> t - last_refill b" by simp
      with Cons.prems Cons.IH [of "b\<lparr>tokens := tokens b - 1\<rparr>"] Cons.IH [of b] show ?thesis
        by (auto simp: bucket_step_def refill_def spend_def)
    qed
  qed
qed simp

text \<open>From the start of an interval, at most one refill happens before its end.\<close>

lemma admitted_from_start:
  "sorted (last_refill b # ts) \<Longrightarrow> \<forall>t\<in>set ts. a \<le> t \<Longrightarrow>
   admitted_in a w (bucket_run mx w (Some b) ts) \<le> tokens b + mx"
proof (induction ts arbitrary: b)
  case (Cons t ts)
  show ?case
  proof (cases "w \<le> t - last_refill b")
    case True
    let ?b = "snd (bucket_step mx w (Some b) t)"
    have "sorted (last_refill ?b # ts)" "a \<le> last_refill ?b"
      using True Cons.prems by (simp_all add: bucket_step_def refill_def spend_def)
    then have "admitted_in a w (bucket_run mx w (Some ?b) ts) \<le> tokens ?b"
      by (rule admitted_same_window)
    with True show ?thesis
      by (auto simp: bucket_step_def refill_def spend_def split: if_splits)
  next
    case False
    with Cons.prems Cons.IH [of "b\<lparr>tokens := tokens b - 1\<rparr>"] Cons.IH [of b] show ?thesis
      by (auto simp: bucket_step_def refill_def spend_def)
  qed
qed simp

lemma admitted_two_windows:
  "sorted (last_refill b # ts) \<Longrightarrow> tokens b \<le> mx \<Longrightarrow>
   admitted_in a w (bucket_run mx w (Some b) ts) \<le> 2 * mx"
proof (induction ts arbitrary: b)
  case (Cons t ts)
  show ?case
  proof (cases "a \<le> t")
    case True
    with Cons.prems have "admitted_in a w (bucket_run mx w (Some b) (t # ts)) \<le> tokens b + mx"
      by (intro admitted_from_start) auto
    with Cons.prems show ?thesis by simp
  next
    case False
    let ?b = "snd (bucket_step mx w (Some b) t)"
    have "sorted (last_refill ?b # ts)"
      using Cons.prems(1) by (auto simp: bucket_step_def refill_def spend_def)
    then have "admitted_in a w (bucket_run mx w (Some ?b) ts) \<le> 2 * mx"
      using Cons.prems(2) by (intro Cons.IH bucket_step_tokens) auto
    with False show ?thesis by (simp add: split_def Let_def)
  qed
qed simp

lemma admitted_fresh:
  assumes "sorted ts"
  shows "admitted_in a w (bucket_run mx w None ts) \<le> 2 * mx"
proof (cases ts)
  case (Cons t us)
  have "bucket_run mx w None ts = bucket_run mx w (Some \<lparr>tokens = mx, last_refill = t\<rparr>) ts"
    by (simp add: Cons bucket_step_def)
  then show ?thesis
    using assms Cons by (simp only:) (intro admitted_two_windows, auto)
qed simp

text \<open>Decisions of the whole limiter over a sequence of requests.\<close>

fun run_allow :: "rate_limiter \<Rightarrow> (string \<times> nat) list \<Rightarrow> (string \<times> nat \<times> bool) list" where
  "run_allow rl [] = []"
| "run_allow rl ((k, t) # es) =
     (let (ok, rl') = allow rl k t in (k, t, ok) # run_allow rl' es)"

definition decisions_for :: "string \<Rightarrow> (string \<times> nat \<times> bool) list \<Rightarrow> (nat \<times> bool) list" where
  "decisions_for k ds = map snd (filter (\<lambda>d. fst d = k) ds)"

definition tracked_keys :: "rate_limiter \<Rightarrow> string set" where
  "tracked_keys rl = fst ` set (buckets rl)"

lemma bt_len_keys: "bt_wf m \<Longrightarrow> bt_len m = card (fst ` set m)"
  unfolding bt_len_def bt_wf_def
  by (metis distinct_card length_map list.set_map strict_sorted_iff)

lemma no_pressure:
  assumes "bt_wf (buckets rl)" "card (insert k (tracked_keys rl)) \<le> MAX_TRACKED_RATE_LIMIT_KEYS"
  shows "make_room (window rl) k now (buckets rl) = buckets rl"
proof -
  have "bt_len (buckets rl) < MAX_TRACKED_RATE_LIMIT_KEYS" if "\<not> bt_contains_key k (buckets rl)"
  proof -
    have "k \<notin> tracked_keys rl"
      using that by (simp add: bt_contains_key_def bt_get_def tracked_keys_def map_of_eq_None_iff)
    with assms show ?thesis by (simp add: bt_len_keys tracked_keys_def)
  qed
  then show ?thesis by (auto simp: make_room_def)
qed

lemma run_allow_bucket:
  assumes "limiter_inv rl" "\<not> poisoned rl"
    and "card (tracked_keys rl \<union> set (map fst es)) \<le> MAX_TRACKED_RATE_LIMIT_KEYS"
  shows "decisions_for k (run_allow rl es) =
     bucket_run (max_requests rl) (window rl) (bt_get (buckets rl) k)
       (map snd (filter (\<lambda>e. fst e = k) es))"
  using assms
proof (induction es arbitrary: rl)
  case (Cons e es)
  obtain k' t where e: "e = (k', t)" by (cases e)
  let ?st = "bucket_step (max_requests rl) (window rl) (bt_get (buckets rl) k') t"
  let ?rl = "rl\<lparr>buckets := bt_insert k' (snd ?st) (buckets rl)\<rparr>"
  have fin: "finite (tracked_keys rl \<union> set (map fst (e # es)))" by (simp add: tracked_keys_def)
  have "card (insert k' (tracked_keys rl)) \<le> card (tracked_keys rl \<union> set (map fst (e # es)))"
    by (rule card_mono [OF fin]) (auto simp: e)
  then have "allow rl k' t = (fst ?st, ?rl)"
    using no_pressure [of rl k' t] Cons.prems by (simp add: allow_def limiter_inv_def Let_def split_def)
  moreover from this have "limiter_inv ?rl" using allow_inv [OF Cons.prems(1), of k' t] by simp
  moreover have "tracked_keys ?rl \<union> set (map fst es) = tracked_keys rl \<union> set (map fst (e # es))"
    by (auto simp: tracked_keys_def keys_bt_insert e)
  ultimately have "decisions_for k (run_allow ?rl es) =
      bucket_run (max_requests rl) (window rl) (bt_get (buckets ?rl) k) (map snd (filter (\<lambda>e. fst e = k) es))"
    using Cons.IH [of ?rl] Cons.prems by simp
  with \<open>allow rl k' t = (fst ?st, ?rl)\<close> show ?case
    by (auto simp: e decisions_for_def bt_get_insert split_def Let_def)
qed (simp add: decisions_for_def)

text \<open>C33. The sustained-rate promise: over any interval as long as the window, one client is admitted at most
  twice its allowance, while the distinct clients fit the table.\<close>

theorem limiter_burst_bound:
  assumes "sorted (map snd es)"
    and "card (set (map fst es)) \<le> MAX_TRACKED_RATE_LIMIT_KEYS"
  shows "admitted_in a (window (from_config mx secs)) (decisions_for k (run_allow (from_config mx secs) es))
     \<le> 2 * max_requests (from_config mx secs)"
proof -
  let ?rl = "from_config mx secs"
  have "tracked_keys ?rl = {}" by (simp add: tracked_keys_def from_config_def bt_empty_def)
  then have "decisions_for k (run_allow ?rl es) =
      bucket_run (max_requests ?rl) (window ?rl) None (map snd (filter (\<lambda>e. fst e = k) es))"
    using assms(2) run_allow_bucket [OF from_config_inv, of mx secs es k]
    by (simp add: from_config_def bt_empty_def bt_get_def)
  moreover have "sorted (map snd (filter (\<lambda>e. fst e = k) es))"
    using assms(1) by (simp add: sorted_filter)
  ultimately show ?thesis using admitted_fresh by simp
qed

theorem limiter_burst_bound_witness:
  "admitted_in 0 (window (from_config 1 1))
     (decisions_for ''a'' (run_allow (from_config 1 1) [(''a'', 0), (''b'', 5), (''a'', 9)]))
   \<le> 2 * max_requests (from_config 1 1)"
proof (rule limiter_burst_bound)
  have "card (set (map fst [(''a'', 0::nat), (''b'', 5), (''a'', 9)])) \<le> 3"
    by (rule order_trans [OF card_length]) simp
  then show "card (set (map fst [(''a'', 0::nat), (''b'', 5), (''a'', 9)])) \<le> MAX_TRACKED_RATE_LIMIT_KEYS"
    by (simp add: MAX_TRACKED_RATE_LIMIT_KEYS_def)
qed simp

end
