(* ===== verification/Manifest.thy ===== *)
theory Manifest
  imports Prelude
begin

text \<open>
  The route manifest data model of \<open>ruvyxa_graph\<close> (\<open>src/crates/ruvyxa_graph/src/manifest.rs\<close>)
  and the cache policy derived from it (\<open>cache_policy.rs\<close>). Discovery writes it, the router, the
  renderer and the deployment hosts read it.

  Record fields carry an \<open>entry_\<close>, \<open>slot_\<close> or \<open>intercept_\<close> prefix where the
  source's field name is taken by a HOL constant or by an operation of the same name.
  \<open>u64\<close> values are \<open>nat\<close>: the only arithmetic on them is a saturating subtraction.
\<close>

section \<open>Data\<close>

datatype route_kind = Page | Api

datatype runtime_target = Node | Edge | StaticTarget

datatype render_strategy = Ssr | Ssg | Isr | Csr | Ppr

datatype hydration_mode = Load | Idle | Visible | NoHydration

record render_meta =
  strategy :: render_strategy
  revalidate :: "nat option"
  has_static_params :: bool
  static_paths :: "string list"
  has_dynamic_slots :: bool
  hydration :: hydration_mode
  server_components :: bool
  force_dynamic :: bool

definition render_meta_default :: render_meta where
  "render_meta_default =
     \<lparr>strategy = Ssr, revalidate = None, has_static_params = False, static_paths = [],
      has_dynamic_slots = False, hydration = Load, server_components = False,
      force_dynamic = False\<rparr>"

definition ships_client_bundle :: "render_meta \<Rightarrow> bool" where
  "ships_client_bundle m \<longleftrightarrow> hydration m \<noteq> NoHydration"

record route_slot =
  slot_level :: string
  slot_name :: string
  slot_file :: path

record route_intercept =
  intercept_level :: string
  intercept_name :: string
  intercept_target :: string
  intercept_marker :: string
  intercept_file :: path

record route_entry =
  entry_id :: string
  entry_path :: string
  entry_kind :: route_kind
  entry_file :: path
  entry_layout_chain :: "string list"
  entry_template_chain :: "string list"
  entry_slots :: "route_slot list"
  entry_intercepts :: "route_intercept list"
  entry_server_modules :: "path list"
  entry_client_modules :: "path list"
  entry_runtime :: runtime_target
  entry_render :: render_meta

record i18n_routing =
  locales :: "string list"
  default_locale :: string
  locale_param :: string
  detect_locale :: bool
  i18n_cookie :: string

record route_manifest =
  app_dir :: path
  routes :: "route_entry list"
  i18n :: "i18n_routing option"

section \<open>Cache policy\<close>

definition DEFAULT_REVALIDATE_SECONDS :: nat where
  "DEFAULT_REVALIDATE_SECONDS = 60"

definition ISR_EXPIRE_SECONDS :: nat where
  "ISR_EXPIRE_SECONDS = 31536000"

definition isr_window :: "nat option \<Rightarrow> nat" where
  "isr_window r = (case r of Some s \<Rightarrow> s | None \<Rightarrow> DEFAULT_REVALIDATE_SECONDS)"

text \<open>Decimal rendering of a \<open>u64\<close> in \<open>format!\<close>.\<close>

fun show_nat :: "nat \<Rightarrow> string" where
  "show_nat n = (if n < 10 then [char_of (48 + n)] else show_nat (n div 10) @ [char_of (48 + n mod 10)])"

declare show_nat.simps [simp del]

definition DOCUMENT_CACHE_CONTROL :: string where
  "DOCUMENT_CACHE_CONTROL = ''public, max-age=0, must-revalidate''"

text \<open>HOL's truncated subtraction on \<open>nat\<close> is \<open>u64::saturating_sub\<close>.\<close>

definition document_cache_control :: "render_strategy \<Rightarrow> nat option \<Rightarrow> string" where
  "document_cache_control s r =
     (case s of
        Isr \<Rightarrow> (let w = isr_window r in
                ''public, max-age=0, s-maxage='' @ show_nat w @ '', stale-while-revalidate=''
                  @ show_nat (ISR_EXPIRE_SECONDS - w))
      | Ssg \<Rightarrow> DOCUMENT_CACHE_CONTROL
      | Csr \<Rightarrow> DOCUMENT_CACHE_CONTROL
      | Ssr \<Rightarrow> ''no-store''
      | Ppr \<Rightarrow> ''no-store'')"

definition DOCUMENT_VALIDATOR_STRATEGIES :: "render_strategy list" where
  "DOCUMENT_VALIDATOR_STRATEGIES = [Ssg, Csr, Isr]"

definition document_has_validator :: "render_strategy \<Rightarrow> bool" where
  "document_has_validator s \<longleftrightarrow> s \<in> set DOCUMENT_VALIDATOR_STRATEGIES"

text \<open>A document is stored by a shared cache exactly when it carries a validator.\<close>

lemma validator_iff_not_no_store:
  "document_has_validator s \<longleftrightarrow> document_cache_control s r \<noteq> ''no-store''"
  by (cases s)
    (auto simp: document_has_validator_def DOCUMENT_VALIDATOR_STRATEGIES_def
      document_cache_control_def DOCUMENT_CACHE_CONTROL_def Let_def)

text \<open>Both windows of an ISR document fit the one-year expiry the header advertises.\<close>

lemma isr_windows_sum:
  "isr_window r \<le> ISR_EXPIRE_SECONDS \<Longrightarrow>
   isr_window r + (ISR_EXPIRE_SECONDS - isr_window r) = ISR_EXPIRE_SECONDS"
  by simp

end
