(* ===== verification/Route_Segments.thy ===== *)
theory Route_Segments
  imports Manifest
begin

text \<open>
  Folder names and URL segments: \<open>route_path_from_dir\<close>, \<open>route_segment\<close> and
  \<open>validate_dynamic_name\<close> of \<open>src/crates/ruvyxa_graph/src/discovery.rs\<close>, and the URL
  match shape and the conflict check of \<open>conflicts.rs\<close>.

  A directory relative to \<open>app/\<close> is the list of its normal components. An error keeps the
  diagnostic's code and title; its sentences, which quote the folder, are not modelled.
\<close>

section \<open>Definitions\<close>

definition is_optional_catch_all :: "string \<Rightarrow> bool" where
  "is_optional_catch_all s \<longleftrightarrow> starts_with s ''[[...'' \<and> ends_with s '']]''"

definition is_catch_all :: "string \<Rightarrow> bool" where
  "is_catch_all s \<longleftrightarrow> starts_with s ''[...'' \<and> ends_with s '']''"

definition is_dynamic :: "string \<Rightarrow> bool" where
  "is_dynamic s \<longleftrightarrow> starts_with s ''['' \<and> ends_with s '']''"

text \<open>The byte range \<open>&s[from..s.len() - back]\<close>.\<close>

definition slice :: "nat \<Rightarrow> nat \<Rightarrow> string \<Rightarrow> string" where
  "slice from back s = drop from (take (length s - back) s)"

definition is_name_byte :: "char \<Rightarrow> bool" where
  "is_name_byte c \<longleftrightarrow> is_ascii_alphanumeric c \<or> c = CHR ''_''"

definition valid_dynamic_name :: "string \<Rightarrow> bool" where
  "valid_dynamic_name name \<longleftrightarrow> name \<noteq> [] \<and> list_all is_name_byte name"

definition validate_dynamic_name :: "string \<Rightarrow> unit result" where
  "validate_dynamic_name name =
     (if valid_dynamic_name name then Inr ()
      else Inl (Diagnostic ''RUV1002'' ''Invalid dynamic route segment'' None []))"

definition catch_all_must_be_last :: diagnostic where
  "catch_all_must_be_last =
     Diagnostic ''RUV1017'' ''Catch-all route must be the final URL segment'' None []"

definition route_segment :: "string \<Rightarrow> bool \<Rightarrow> string result" where
  "route_segment s is_last =
     (if is_optional_catch_all s then
        rbind (validate_dynamic_name (slice 5 2 s))
          (\<lambda>_. if \<not> is_last then Inl catch_all_must_be_last else Inr s)
      else if is_catch_all s then
        rbind (validate_dynamic_name (slice 4 1 s))
          (\<lambda>_. if \<not> is_last then Inl catch_all_must_be_last else Inr s)
      else if is_dynamic s then
        rbind (validate_dynamic_name (slice 1 1 s)) (\<lambda>_. Inr s)
      else if CHR ''['' \<in> set s \<or> CHR '']'' \<in> set s then
        Inl (Diagnostic ''RUV1002'' ''Invalid dynamic route segment'' None [])
      else Inr s)"

text \<open>Route groups \<open>(name)\<close> and slots \<open>@name\<close> contribute no URL segment.\<close>

definition is_visible_segment :: "string \<Rightarrow> bool" where
  "is_visible_segment s \<longleftrightarrow>
     \<not> ((starts_with s ''('' \<and> ends_with s '')'') \<or> starts_with s ''@'')"

fun route_segments :: "string list \<Rightarrow> string list result" where
  "route_segments [] = Inr []"
| "route_segments (s # ss) =
     rbind (route_segment s (ss = [])) (\<lambda>seg. rbind (route_segments ss) (\<lambda>segs. Inr (seg # segs)))"

definition route_path_from_dir :: "path \<Rightarrow> string result" where
  "route_path_from_dir dir =
     rbind (route_segments (filter is_visible_segment dir))
       (\<lambda>segs. Inr (if segs = [] then ''/'' else ''/'' @ join_with ''/'' segs))"

text \<open>The rename a diagnostic offers: separators go, the letter after one is capitalised.\<close>

fun suggest_loop :: "bool \<Rightarrow> string \<Rightarrow> string \<Rightarrow> string" where
  "suggest_loop capitalize suggestion [] = suggestion"
| "suggest_loop capitalize suggestion (b # bs) =
     (if b = CHR ''_'' \<or> is_ascii_alphanumeric b then
        suggest_loop False (suggestion @ [if capitalize then to_ascii_uppercase b else b]) bs
      else suggest_loop (suggestion \<noteq> []) suggestion bs)"

definition suggested_dynamic_name :: "string \<Rightarrow> string option" where
  "suggested_dynamic_name name =
     (let suggestion = suggest_loop False [] name in
      if suggestion \<noteq> [] \<and> suggestion \<noteq> name then Some suggestion else None)"

definition display_route_folder :: "path \<Rightarrow> string" where
  "display_route_folder dir =
     (let joined = join_with ''/'' (map (map (\<lambda>c. if c = CHR 92 then CHR ''/'' else c)) dir) in
      if joined = [] then ''app'' else ''app/'' @ joined)"

text \<open>\<open>route_match_shape\<close>: parameter names are erased.\<close>

definition shape_segment :: "string \<Rightarrow> string" where
  "shape_segment s =
     (if is_optional_catch_all s then ''*?''
      else if is_catch_all s then ''*''
      else if is_dynamic s then '':''
      else s)"

definition route_match_shape :: "string \<Rightarrow> string" where
  "route_match_shape p = join_with ''/'' (map shape_segment (split_on (CHR ''/'') p))"

text \<open>The conflict check: a map from shapes to the route that claimed each, filled in manifest
  order; the second route on a shape is the error.\<close>

fun detect_conflicts_loop ::
  "(string \<rightharpoonup> route_entry) \<Rightarrow> route_entry list \<Rightarrow> unit result" where
  "detect_conflicts_loop seen [] = Inr ()"
| "detect_conflicts_loop seen (r # rs) =
     (let key = route_match_shape (entry_path r) in
      case seen key of
        Some previous \<Rightarrow>
          Inl (Diagnostic ''RUV1003'' ''Conflicting route paths'' (Some (entry_file r))
                 [entry_id previous, entry_id r])
      | None \<Rightarrow> detect_conflicts_loop (seen(key \<mapsto> r)) rs)"

definition detect_conflicts :: "route_entry list \<Rightarrow> unit result" where
  "detect_conflicts rs = detect_conflicts_loop Map.empty rs"

section \<open>Segments\<close>

lemma slice_middle: "slice (length p) (length q) (p @ n @ q) = n"
  by (simp add: slice_def)

lemma not_name_bytes [simp]:
  "\<not> is_name_byte (CHR ''['')" "\<not> is_name_byte (CHR '']'')"
  "\<not> is_name_byte (CHR ''.'')" "\<not> is_name_byte (CHR ''/'')"
  by (simp_all add: is_name_byte_def ascii_defs)

lemma valid_name_no_bracket:
  assumes "valid_dynamic_name n"
  shows "CHR ''['' \<notin> set n" "CHR '']'' \<notin> set n" "CHR ''.'' \<notin> set n" "CHR ''/'' \<notin> set n"
proof -
  have "c \<in> set n \<Longrightarrow> is_name_byte c" for c
    using assms by (simp add: valid_dynamic_name_def list_all_iff)
  from this [of "CHR ''[''"] this [of "CHR '']''"] this [of "CHR ''.''"] this [of "CHR ''/''"]
  show "CHR ''['' \<notin> set n" "CHR '']'' \<notin> set n" "CHR ''.'' \<notin> set n" "CHR ''/'' \<notin> set n"
    using not_name_bytes by blast+
qed

text \<open>Prefix and suffix of a bracketed segment cannot overlap once the name is known valid.\<close>

lemma bracket_split:
  assumes "starts_with s p" "ends_with s q" "length p + length q \<le> length s"
  shows "s = p @ slice (length p) (length q) s @ q"
proof -
  let ?m = "length s - length q"
  have p: "take (length p) s = p" using assms(1) by (simp add: starts_with_def)
  have q: "drop ?m s = q" using assms(2) by (auto simp: ends_with_iff)
  have "take (length p) s = take (length p) (take ?m s)"
    using assms(3) by (simp add: min_def)
  then have "take (length p) s @ slice (length p) (length q) s = take ?m s"
    by (simp only: slice_def append_take_drop_id)
  then have "take (length p) s @ slice (length p) (length q) s @ drop ?m s = s"
    by (metis append.assoc append_take_drop_id)
  then show ?thesis by (simp add: p q)
qed

lemma valid_slice_bound: "valid_dynamic_name (slice f b s) \<Longrightarrow> f + b < length s"
  by (auto simp: valid_dynamic_name_def slice_def)

lemma bracketed_iff:
  "starts_with s p \<and> ends_with s q \<and> valid_dynamic_name (slice (length p) (length q) s) \<longleftrightarrow>
     (\<exists>n. valid_dynamic_name n \<and> s = p @ n @ q)"
proof
  assume *: "starts_with s p \<and> ends_with s q \<and> valid_dynamic_name (slice (length p) (length q) s)"
  then have "s = p @ slice (length p) (length q) s @ q"
    by (intro bracket_split) (auto dest: valid_slice_bound)
  with * show "\<exists>n. valid_dynamic_name n \<and> s = p @ n @ q" by blast
next
  assume "\<exists>n. valid_dynamic_name n \<and> s = p @ n @ q"
  then obtain n where n: "valid_dynamic_name n" "s = p @ n @ q" by blast
  have "ends_with s q" unfolding ends_with_iff using n(2) by (metis append.assoc)
  with n show "starts_with s p \<and> ends_with s q \<and> valid_dynamic_name (slice (length p) (length q) s)"
    by (simp add: slice_middle)
qed

lemma optional_catch_all_iff:
  "is_optional_catch_all s \<and> valid_dynamic_name (slice 5 2 s) \<longleftrightarrow>
     (\<exists>n. valid_dynamic_name n \<and> s = ''[[...'' @ n @ '']]'')"
  using bracketed_iff [of s "''[[...''" "'']]''"] by (simp add: is_optional_catch_all_def eval_nat_numeral)

lemma catch_all_iff:
  "is_catch_all s \<and> valid_dynamic_name (slice 4 1 s) \<longleftrightarrow>
     (\<exists>n. valid_dynamic_name n \<and> s = ''[...'' @ n @ '']'')"
  using bracketed_iff [of s "''[...''" "'']''"] by (simp add: is_catch_all_def eval_nat_numeral)

lemma dynamic_iff:
  "is_dynamic s \<and> valid_dynamic_name (slice 1 1 s) \<longleftrightarrow>
     (\<exists>n. valid_dynamic_name n \<and> s = ''['' @ n @ '']'')"
  using bracketed_iff [of s "''[''" "'']''"] by (simp add: is_dynamic_def)

lemma optional_not_catch_all: "is_optional_catch_all s \<Longrightarrow> \<not> is_catch_all s"
  by (auto simp: is_optional_catch_all_def is_catch_all_def starts_with_iff)

lemma catch_all_is_dynamic: "is_catch_all s \<Longrightarrow> is_dynamic s"
  by (auto simp: is_catch_all_def is_dynamic_def starts_with_iff)

lemma optional_is_dynamic: "is_optional_catch_all s \<Longrightarrow> is_dynamic s"
  unfolding is_optional_catch_all_def is_dynamic_def starts_with_iff ends_with_iff
  by (metis append_Cons append_Nil append.assoc)

lemma dynamic_has_bracket: "is_dynamic s \<Longrightarrow> CHR ''['' \<in> set s"
  by (auto simp: is_dynamic_def starts_with_iff)

lemma named_dynamic_plain:
  assumes "valid_dynamic_name n" "s = ''['' @ n @ '']''"
  shows "\<not> is_optional_catch_all s" "\<not> is_catch_all s"
proof -
  obtain c cs where n: "n = c # cs" "is_name_byte c"
    using assms(1) by (cases n) (auto simp: valid_dynamic_name_def)
  then have "c \<noteq> CHR ''[''" "c \<noteq> CHR ''.''" by (metis not_name_bytes)+
  with n assms(2) show "\<not> is_optional_catch_all s" "\<not> is_catch_all s"
    by (auto simp: is_optional_catch_all_def is_catch_all_def starts_with_def)
qed

lemma named_catch_all_not_optional:
  "s = ''[...'' @ n @ '']'' \<Longrightarrow> \<not> is_optional_catch_all s"
  by (simp add: is_optional_catch_all_def starts_with_def)

text \<open>The segments \<open>route_segment\<close> accepts, as a grammar.\<close>

definition plain_segment :: "string \<Rightarrow> bool" where
  "plain_segment s \<longleftrightarrow> CHR ''['' \<notin> set s \<and> CHR '']'' \<notin> set s"

definition dynamic_segment :: "string \<Rightarrow> bool" where
  "dynamic_segment s \<longleftrightarrow> (\<exists>n. valid_dynamic_name n \<and> s = ''['' @ n @ '']'')"

definition catch_all_segment :: "string \<Rightarrow> bool" where
  "catch_all_segment s \<longleftrightarrow>
     (\<exists>n. valid_dynamic_name n \<and> (s = ''[...'' @ n @ '']'' \<or> s = ''[[...'' @ n @ '']]''))"

definition accepted_segment :: "bool \<Rightarrow> string \<Rightarrow> bool" where
  "accepted_segment is_last s \<longleftrightarrow>
     plain_segment s \<or> dynamic_segment s \<or> (is_last \<and> catch_all_segment s)"

lemma plain_not_bracketed:
  assumes "plain_segment s"
  shows "\<not> is_dynamic s" "\<not> is_catch_all s" "\<not> is_optional_catch_all s"
  using assms dynamic_has_bracket catch_all_is_dynamic optional_is_dynamic
  unfolding plain_segment_def by blast+

lemma route_segment_Inr_iff:
  "route_segment s l = Inr t \<longleftrightarrow> t = s \<and> accepted_segment l s"
proof (cases "plain_segment s")
  case True
  then show ?thesis
    using plain_not_bracketed [OF True]
    by (auto simp: route_segment_def accepted_segment_def plain_segment_def)
next
  case False
  have "route_segment s l = Inr t \<longleftrightarrow>
      t = s \<and>
      (is_optional_catch_all s \<and> valid_dynamic_name (slice 5 2 s) \<and> l \<or>
       \<not> is_optional_catch_all s \<and> is_catch_all s \<and> valid_dynamic_name (slice 4 1 s) \<and> l \<or>
       \<not> is_optional_catch_all s \<and> \<not> is_catch_all s \<and> is_dynamic s \<and>
         valid_dynamic_name (slice 1 1 s))"
    using False by (auto simp: route_segment_def validate_dynamic_name_def plain_segment_def)
  also have "\<dots> \<longleftrightarrow> t = s \<and> (dynamic_segment s \<or> (l \<and> catch_all_segment s))"
    using optional_catch_all_iff [of s] catch_all_iff [of s] dynamic_iff [of s]
      named_dynamic_plain [of _ s] named_catch_all_not_optional [of s]
    unfolding dynamic_segment_def catch_all_segment_def by blast
  finally show ?thesis using False by (simp add: accepted_segment_def)
qed

text \<open>Refusals carry one of two codes, and \<open>RUV1017\<close> means a well-formed catch-all that is
  not the last segment.\<close>

lemma route_segment_Inl_cases:
  assumes "route_segment s l = Inl d"
  shows "diag_code d = ''RUV1002'' \<and> \<not> catch_all_segment s \<or>
         diag_code d = ''RUV1017'' \<and> catch_all_segment s \<and> \<not> l"
  using assms optional_catch_all_iff [of s] catch_all_iff [of s]
    named_catch_all_not_optional [of s] optional_not_catch_all [of s] dynamic_has_bracket [of s]
  by (auto simp: route_segment_def validate_dynamic_name_def catch_all_must_be_last_def
      catch_all_segment_def split: if_splits)

lemma route_segments_Inr_iff:
  "route_segments ss = Inr ts \<longleftrightarrow>
     ts = ss \<and> (\<forall>i < length ss. accepted_segment (Suc i = length ss) (ss ! i))"
proof (induction ss arbitrary: ts)
  case (Cons s ss)
  have split: "(\<forall>i < length (s # ss). accepted_segment (Suc i = length (s # ss)) ((s # ss) ! i)) \<longleftrightarrow>
      accepted_segment (ss = []) s \<and> (\<forall>i < length ss. accepted_segment (Suc i = length ss) (ss ! i))"
    by (auto simp: less_Suc_eq_0_disj nth_Cons split: nat.splits)
  show ?case unfolding split by (auto simp: result_simps route_segment_Inr_iff Cons.IH)
qed auto

section \<open>Paths\<close>

text \<open>The URL pattern of a route folder is accepted exactly when every visible segment is plain,
  a named parameter, or a named catch-all in last position; the pattern then lists the visible
  segments unchanged, and splitting it gives them back.\<close>

theorem route_path_from_dir_accepts:
  assumes "\<forall>s\<in>set dir. s \<noteq> [] \<and> CHR ''/'' \<notin> set s"
  shows "route_path_from_dir dir = Inr p \<longleftrightarrow>
    (let vs = filter is_visible_segment dir in
     p = ''/'' @ join_with ''/'' vs \<and>
     filter (\<lambda>s. s \<noteq> []) (split_on (CHR ''/'') p) = vs \<and>
     (\<forall>i < length vs. accepted_segment (Suc i = length vs) (vs ! i)))"
proof -
  let ?vs = "filter is_visible_segment dir"
  have "filter (\<lambda>s. s \<noteq> []) (split_on (CHR ''/'') (''/'' @ join_with ''/'' ?vs)) = ?vs"
  proof (cases "?vs = []")
    case False
    then have "split_on (CHR ''/'') (join_with ''/'' ?vs) = ?vs"
      using assms by (intro split_on_join) auto
    moreover have "filter (\<lambda>s. s \<noteq> []) ?vs = ?vs" by (rule filter_True) (use assms in auto)
    ultimately show ?thesis by simp
  qed (simp only: join_with.simps, simp)
  then show ?thesis
    unfolding route_path_from_dir_def Let_def
    by (auto simp: result_simps route_segments_Inr_iff)
qed

theorem route_path_from_dir_accepts_witness:
  "route_path_from_dir [''(shop)'', ''users'', ''[id]'', ''@modal''] = Inr ''/users/[id]''"
proof -
  have "\<forall>s\<in>set [''(shop)'', ''users'', ''[id]'', ''@modal'']. s \<noteq> [] \<and> CHR ''/'' \<notin> set s"
    by simp
  from route_path_from_dir_accepts [OF this, of "''/users/[id]''"] show ?thesis
    by (simp add: is_visible_segment_def str_simps less_Suc_eq_0_disj accepted_segment_def
        plain_segment_def dynamic_segment_def valid_dynamic_name_def is_name_byte_def)
qed

text \<open>The rename a diagnostic suggests is itself a legal parameter name.\<close>

lemma is_name_byte_upper: "is_name_byte b \<Longrightarrow> is_name_byte (to_ascii_uppercase b)"
  by (auto simp: is_name_byte_def str_simps of_char_of)

lemma suggest_loop_valid:
  "list_all is_name_byte acc \<Longrightarrow> list_all is_name_byte (suggest_loop cap acc bs)"
  by (induction cap acc bs rule: suggest_loop.induct)
    (auto simp: is_name_byte_upper is_name_byte_def [symmetric] disj_commute)

lemma suggested_dynamic_name_valid:
  "suggested_dynamic_name n = Some m \<Longrightarrow> valid_dynamic_name m"
  by (auto simp: suggested_dynamic_name_def Let_def valid_dynamic_name_def
      intro: suggest_loop_valid split: if_splits)

section \<open>Conflicts\<close>

lemma detect_conflicts_loop_iff:
  "detect_conflicts_loop seen rs = Inr () \<longleftrightarrow>
     distinct (map (route_match_shape \<circ> entry_path) rs) \<and>
     (\<forall>r\<in>set rs. seen (route_match_shape (entry_path r)) = None)"
proof (induction rs arbitrary: seen)
  case (Cons r rs)
  show ?case
  proof (cases "seen (route_match_shape (entry_path r))")
    case None
    have seen: "(\<forall>q\<in>set rs. (seen(route_match_shape (entry_path r) \<mapsto> r)) (route_match_shape (entry_path q)) = None)
        \<longleftrightarrow> route_match_shape (entry_path r) \<notin> (route_match_shape \<circ> entry_path) ` set rs \<and>
          (\<forall>q\<in>set rs. seen (route_match_shape (entry_path q)) = None)"
      by (auto simp: image_iff split: if_splits)
    have step: "detect_conflicts_loop seen (r # rs) =
        detect_conflicts_loop (seen(route_match_shape (entry_path r) \<mapsto> r)) rs"
      using None by (simp add: Let_def)
    show ?thesis unfolding step Cons.IH seen using None by (auto simp: comp_def)
  next
    case (Some q)
    then show ?thesis by (simp add: Let_def)
  qed
qed simp

text \<open>A manifest passes the conflict check exactly when no two of its routes have the same URL
  match shape.\<close>

theorem detect_conflicts_iff:
  "detect_conflicts rs = Inr () \<longleftrightarrow> distinct (map (\<lambda>r. route_match_shape (entry_path r)) rs)"
  by (simp add: detect_conflicts_def detect_conflicts_loop_iff comp_def)

end
