(* ===== verification/Radix_Router.thy ===== *)
theory Radix_Router
  imports Route_Segments
begin

text \<open>
  The route matcher of \<open>src/crates/ruvyxa_dev_server/src/router.rs\<close>: patterns are compiled into
  a radix trie once, a request path is resolved by a backtracking walk, and parameters are bound from the
  matched route's own pattern afterwards.

  The trie is abstracted to a map from URL shapes to route indices; insertion is a map update and the walk
  is a search through the shapes a request can have, in priority order. The locale \<open>shape_table\<close>
  states that contract, and the correctness of \<open>find\<close> is proved from it.

  The walk's \<open>(parts, index)\<close> pair is the suffix \<open>&parts[index..]\<close>.
\<close>

section \<open>Patterns\<close>

datatype pattern_segment =
    Static string | Param string | Wildcard string | OptionalWildcard string

definition split_path :: "string \<Rightarrow> string list" where
  "split_path p = filter (\<lambda>s. s \<noteq> []) (split_on (CHR ''/'') (trim_matches (CHR ''/'') p))"

definition parse_segment :: "string \<Rightarrow> pattern_segment" where
  "parse_segment s =
     (if is_optional_catch_all s then
        OptionalWildcard (trim_end_matches '']]'' (trim_start_matches ''[[...'' s))
      else if is_catch_all s then
        Wildcard (trim_end_matches '']'' (trim_start_matches ''[...'' s))
      else if is_dynamic s then
        Param (trim_end_matches '']'' (trim_start_matches ''['' s))
      else Static s)"

definition parse_pattern :: "string \<Rightarrow> pattern_segment list" where
  "parse_pattern p = map parse_segment (split_path p)"

section \<open>The trie\<close>

datatype trie_node = TrieNode
  (static_children: "(string \<times> trie_node) list")
  (param_child: "trie_node option")
  (wildcard: "nat option")
  (optional_wildcard: "nat option")
  (route_index: "nat option")

definition new_node :: trie_node where
  "new_node = TrieNode [] None None None None"

text \<open>\<open>find_or_create_static\<close> hands out a mutable reference; its caller's update is \<open>f\<close>.\<close>

fun find_or_create_static ::
  "string \<Rightarrow> (trie_node \<Rightarrow> trie_node) \<Rightarrow> (string \<times> trie_node) list \<Rightarrow> (string \<times> trie_node) list" where
  "find_or_create_static v f [] = [(v, f new_node)]"
| "find_or_create_static v f ((k, c) # cs) =
     (if k = v then (k, f c) # cs else (k, c) # find_or_create_static v f cs)"

fun insert_node :: "pattern_segment list \<Rightarrow> nat \<Rightarrow> trie_node \<Rightarrow> trie_node" where
  "insert_node [] i (TrieNode sc pc w ow r) = TrieNode sc pc w ow (Some i)"
| "insert_node (Static v # ps) i (TrieNode sc pc w ow r) =
     TrieNode (find_or_create_static v (insert_node ps i) sc) pc w ow r"
| "insert_node (Param n # ps) i (TrieNode sc pc w ow r) =
     TrieNode sc (Some (insert_node ps i (case pc of Some c \<Rightarrow> c | None \<Rightarrow> new_node))) w ow r"
| "insert_node (Wildcard n # ps) i (TrieNode sc pc w ow r) = TrieNode sc pc (Some i) ow r"
| "insert_node (OptionalWildcard n # ps) i (TrieNode sc pc w ow r) = TrieNode sc pc w (Some i) r"

function (sequential) lookup :: "trie_node \<Rightarrow> string list \<Rightarrow> nat option"
  and lookup_static :: "(string \<times> trie_node) list \<Rightarrow> string \<Rightarrow> string list \<Rightarrow> nat option" where
  "lookup (TrieNode sc pc w ow r) [] = (case r of Some i \<Rightarrow> Some i | None \<Rightarrow> ow)"
| "lookup (TrieNode sc pc w ow r) (s # ss) =
     (case lookup_static sc s ss of
        Some i \<Rightarrow> Some i
      | None \<Rightarrow>
         (case (case pc of None \<Rightarrow> None | Some c \<Rightarrow> lookup c ss) of
            Some i \<Rightarrow> Some i
          | None \<Rightarrow> option_or w ow))"
| "lookup_static [] s ss = None"
| "lookup_static ((k, c) # cs) s ss = (if k = s then lookup c ss else lookup_static cs s ss)"
  by pat_completeness auto
termination
  by (relation "measures [\<lambda>x. case x of Inl (t, ps) \<Rightarrow> 2 * length ps | Inr (cs, s, ss) \<Rightarrow> 2 * length ss + 1,
        \<lambda>x. case x of Inl _ \<Rightarrow> 0 | Inr (cs, s, ss) \<Rightarrow> length cs]") auto

section \<open>Compilation and matching\<close>

record radix_router =
  root :: trie_node
  patterns :: "pattern_segment list list"

text \<open>The loop of \<open>compile\<close>, with the index of the next route.\<close>

fun compile_loop :: "nat \<Rightarrow> string list \<Rightarrow> radix_router \<Rightarrow> radix_router" where
  "compile_loop i [] rr = rr"
| "compile_loop i (p # ps) rr =
     (let segments = parse_pattern p in
      compile_loop (Suc i) ps
        \<lparr>root = insert_node segments i (root rr), patterns = patterns rr @ [segments]\<rparr>)"

definition compile :: "route_manifest \<Rightarrow> radix_router" where
  "compile m = compile_loop 0 (map entry_path (routes m)) \<lparr>root = new_node, patterns = []\<rparr>"

datatype json_value = JString string | JArray "json_value list"

type_synonym route_params = "string \<rightharpoonup> json_value"

text \<open>\<open>extract_params\<close>: the pattern and the request advance together; \<open>break\<close> returns what
  is bound so far.\<close>

fun extract_loop :: "route_params \<Rightarrow> pattern_segment list \<Rightarrow> string list \<Rightarrow> route_params" where
  "extract_loop params [] parts = params"
| "extract_loop params (Static _ # ps) parts = extract_loop params ps (drop 1 parts)"
| "extract_loop params (Param name # ps) parts =
     (case parts of
        [] \<Rightarrow> params
      | v # rest \<Rightarrow> extract_loop (params(name \<mapsto> JString v)) ps rest)"
| "extract_loop params (Wildcard name # ps) parts =
     (if parts \<noteq> [] then params(name \<mapsto> JArray (map JString parts)) else params)"
| "extract_loop params (OptionalWildcard name # ps) parts =
     (if parts \<noteq> [] then params(name \<mapsto> JArray (map JString parts)) else params)"

definition extract_params :: "pattern_segment list \<Rightarrow> string list \<Rightarrow> route_params" where
  "extract_params pattern parts = extract_loop Map.empty pattern parts"

record route_match =
  matched_route :: route_entry
  matched_params :: route_params

definition get :: "'a list \<Rightarrow> nat \<Rightarrow> 'a option" where
  "get xs i = (if i < length xs then Some (xs ! i) else None)"

definition find :: "radix_router \<Rightarrow> route_manifest \<Rightarrow> string \<Rightarrow> route_match option" where
  "find rr m request_path =
     (let parts = split_path request_path in
      case lookup (root rr) parts of
        None \<Rightarrow> None
      | Some i \<Rightarrow>
         (case get (routes m) i of
            None \<Rightarrow> None
          | Some r \<Rightarrow>
              Some \<lparr>matched_route = r,
                    matched_params = (case get (patterns rr) i of
                        Some pattern \<Rightarrow> extract_params pattern parts
                      | None \<Rightarrow> Map.empty)\<rparr>))"

section \<open>Specification: linear scan by shape and priority\<close>

text \<open>When a pattern matches a request: the meaning the trie walk has to agree with.\<close>

fun matches :: "pattern_segment list \<Rightarrow> string list \<Rightarrow> bool" where
  "matches [] parts \<longleftrightarrow> parts = []"
| "matches (Static v # ps) parts \<longleftrightarrow> (case parts of [] \<Rightarrow> False | s # ss \<Rightarrow> s = v \<and> matches ps ss)"
| "matches (Param n # ps) parts \<longleftrightarrow> (case parts of [] \<Rightarrow> False | s # ss \<Rightarrow> matches ps ss)"
| "matches (Wildcard n # ps) parts \<longleftrightarrow> parts \<noteq> []"
| "matches (OptionalWildcard n # ps) parts \<longleftrightarrow> True"

text \<open>Shapes: patterns without parameter names, cut at a catch-all.\<close>

datatype shape_seg = SStatic string | SParam | SWild | SOpt

fun shape :: "pattern_segment list \<Rightarrow> shape_seg list" where
  "shape [] = []"
| "shape (Static v # ps) = SStatic v # shape ps"
| "shape (Param n # ps) = SParam # shape ps"
| "shape (Wildcard n # ps) = [SWild]"
| "shape (OptionalWildcard n # ps) = [SOpt]"

text \<open>The shapes that match a request, most specific first.\<close>

fun candidates :: "string list \<Rightarrow> shape_seg list list" where
  "candidates [] = [[], [SOpt]]"
| "candidates (s # ss) =
     map ((#) (SStatic s)) (candidates ss) @ map ((#) SParam) (candidates ss) @ [[SWild], [SOpt]]"

lemma matches_iff_candidate: "matches ps parts \<longleftrightarrow> shape ps \<in> set (candidates parts)"
proof (induction ps parts rule: matches.induct)
  case (1 parts)
  then show ?case by (cases parts) auto
next
  case (2 v ps parts)
  then show ?case by (cases parts) auto
next
  case (3 n ps parts)
  then show ?case by (cases parts) auto
next
  case (4 n ps parts)
  then show ?case by (cases parts) auto
next
  case (5 n ps parts)
  then show ?case by (cases parts) auto
qed

text \<open>Priority: a static segment before a parameter, before a required catch-all, before an optional one;
  a route that ends at the request's last segment before an optional catch-all below it.\<close>

fun seg_rank :: "shape_seg \<Rightarrow> nat" where
  "seg_rank (SStatic v) = 0"
| "seg_rank SParam = 1"
| "seg_rank SWild = 2"
| "seg_rank SOpt = 3"

fun more_specific :: "shape_seg list \<Rightarrow> shape_seg list \<Rightarrow> bool" where
  "more_specific [] qs \<longleftrightarrow> qs \<noteq> []"
| "more_specific (p # ps) [] \<longleftrightarrow> False"
| "more_specific (p # ps) (q # qs) \<longleftrightarrow> seg_rank p < seg_rank q \<or> (p = q \<and> more_specific ps qs)"

lemma candidates_sorted: "sorted_wrt more_specific (candidates parts)"
  by (induction parts) (auto simp: sorted_wrt_append sorted_wrt_map)

text \<open>The route a table of patterns holds for a shape: the last one declared with it.\<close>

fun last_with :: "nat \<Rightarrow> pattern_segment list list \<Rightarrow> shape_seg list \<Rightarrow> nat option" where
  "last_with n [] k = None"
| "last_with n (p # ps) k =
     option_or (last_with (Suc n) ps k) (if shape p = k then Some n else None)"

lemma last_with_None_iff: "last_with n ps k = None \<longleftrightarrow> (\<forall>p\<in>set ps. shape p \<noteq> k)"
  by (induction ps arbitrary: n) auto

lemma last_with_Some:
  "last_with n ps k = Some i \<Longrightarrow>
     n \<le> i \<and> i < n + length ps \<and> shape (ps ! (i - n)) = k \<and>
     (\<forall>j < length ps. shape (ps ! j) = k \<longrightarrow> n + j \<le> i)"
proof (induction ps arbitrary: n)
  case (Cons p ps)
  show ?case
  proof (cases "last_with (Suc n) ps k")
    case None
    with Cons.prems show ?thesis
      by (auto simp: last_with_None_iff nth_Cons split: if_splits nat.splits)
  next
    case (Some j)
    with Cons.prems have ij: "last_with (Suc n) ps k = Some i" by simp
    note IH = Cons.IH [OF this]
    then have "i - n = Suc (i - Suc n)" by (simp add: Suc_diff_Suc Suc_le_eq)
    with IH show ?thesis by (auto simp: nth_Cons split: nat.splits)
  qed
qed simp

text \<open>The reference matcher: scan the patterns for each shape the request can have.\<close>

definition linear_lookup :: "pattern_segment list list \<Rightarrow> string list \<Rightarrow> nat option" where
  "linear_lookup ps parts = find_map (last_with 0 ps) (candidates parts)"

lemma linear_lookup_None_iff:
  "linear_lookup ps parts = None \<longleftrightarrow> (\<forall>p\<in>set ps. \<not> matches p parts)"
  by (auto simp: linear_lookup_def last_with_None_iff matches_iff_candidate)

lemma linear_lookup_Some:
  assumes "linear_lookup ps parts = Some i"
  shows "i < length ps" "matches (ps ! i) parts"
    "j < length ps \<Longrightarrow> matches (ps ! j) parts \<Longrightarrow>
       more_specific (shape (ps ! i)) (shape (ps ! j)) \<or> (shape (ps ! j) = shape (ps ! i) \<and> j \<le> i)"
proof -
  obtain us k vs where split: "candidates parts = us @ k # vs"
    and k: "last_with 0 ps k = Some i" and us: "\<forall>u\<in>set us. last_with 0 ps u = None"
    using find_map_Some_split [OF assms [unfolded linear_lookup_def]] by blast
  note last = last_with_Some [OF k, simplified]
  show "i < length ps" using last by simp
  show "matches (ps ! i) parts" using last split by (simp add: matches_iff_candidate)
  show "more_specific (shape (ps ! i)) (shape (ps ! j)) \<or> (shape (ps ! j) = shape (ps ! i) \<and> j \<le> i)"
    if j: "j < length ps" "matches (ps ! j) parts"
  proof -
    have "shape (ps ! j) \<notin> set us"
      using us nth_mem [OF j(1)] by (auto simp: last_with_None_iff)
    with j(2) split have "shape (ps ! j) \<in> set (k # vs)" by (auto simp: matches_iff_candidate)
    moreover have "\<forall>v\<in>set vs. more_specific k v"
      using candidates_sorted [of parts] split by (simp add: sorted_wrt_append)
    ultimately show ?thesis using last j(1) by auto
  qed
qed

section \<open>The contract of a shape table\<close>

locale shape_table =
  fixes tbl :: "'t \<Rightarrow> shape_seg list \<Rightarrow> nat option"
    and empty_tbl :: 't
    and ins :: "pattern_segment list \<Rightarrow> nat \<Rightarrow> 't \<Rightarrow> 't"
    and look :: "'t \<Rightarrow> string list \<Rightarrow> nat option"
  assumes tbl_empty: "tbl empty_tbl k = None"
    and tbl_ins: "tbl (ins ps i t) = (tbl t)(shape ps \<mapsto> i)"
    and look_tbl: "look t parts = find_map (tbl t) (candidates parts)"
begin

fun ins_all :: "nat \<Rightarrow> pattern_segment list list \<Rightarrow> 't \<Rightarrow> 't" where
  "ins_all n [] t = t"
| "ins_all n (p # ps) t = ins_all (Suc n) ps (ins p n t)"

lemma tbl_ins_all: "tbl (ins_all n ps t) k = option_or (last_with n ps k) (tbl t k)"
  by (induction ps arbitrary: n t) (auto simp: tbl_ins option_or_assoc)

text \<open>Whatever implements the contract agrees with the linear scan.\<close>

lemma look_ins_all: "look (ins_all 0 ps empty_tbl) parts = linear_lookup ps parts"
proof -
  have "tbl (ins_all 0 ps empty_tbl) = last_with 0 ps"
    by (rule ext) (simp add: tbl_ins_all tbl_empty)
  then show ?thesis by (simp add: look_tbl linear_lookup_def)
qed

end

section \<open>The trie implements the contract\<close>

text \<open>The trie as a map from shapes to routes.\<close>

fun trie_tbl :: "trie_node \<Rightarrow> shape_seg list \<Rightarrow> nat option" where
  "trie_tbl (TrieNode sc pc w ow r) [] = r"
| "trie_tbl (TrieNode sc pc w ow r) (SStatic v # k) =
     (case map_of sc v of None \<Rightarrow> None | Some c \<Rightarrow> trie_tbl c k)"
| "trie_tbl (TrieNode sc pc w ow r) (SParam # k) = (case pc of None \<Rightarrow> None | Some c \<Rightarrow> trie_tbl c k)"
| "trie_tbl (TrieNode sc pc w ow r) (SWild # k) = (if k = [] then w else None)"
| "trie_tbl (TrieNode sc pc w ow r) (SOpt # k) = (if k = [] then ow else None)"

lemma trie_tbl_new [simp]: "trie_tbl new_node k = None"
  by (cases k rule: list.exhaust; cases "hd k") (auto simp: new_node_def)

lemma map_of_find_or_create:
  "map_of (find_or_create_static v f cs) =
     (map_of cs)(v \<mapsto> f (case map_of cs v of Some c \<Rightarrow> c | None \<Rightarrow> new_node))"
  by (induction v f cs rule: find_or_create_static.induct) (auto simp: fun_eq_iff)

lemma trie_tbl_insert: "trie_tbl (insert_node ps i t) k = ((trie_tbl t)(shape ps \<mapsto> i)) k"
proof (induction ps i t arbitrary: k rule: insert_node.induct)
  case (1 i sc pc w ow r)
  show ?case by (cases k rule: list.exhaust; cases "hd k") auto
next
  case (2 v ps i sc pc w ow r)
  show ?case
    by (cases k rule: list.exhaust; cases "hd k")
      (auto simp: map_of_find_or_create 2 split: option.splits)
next
  case (3 n ps i sc pc w ow r)
  show ?case
    by (cases k rule: list.exhaust; cases "hd k") (auto simp: 3 split: option.splits)
next
  case (4 n ps i sc pc w ow r)
  show ?case by (cases k rule: list.exhaust; cases "hd k") auto
next
  case (5 n ps i sc pc w ow r)
  show ?case by (cases k rule: list.exhaust; cases "hd k") auto
qed

lemma lookup_static_map_of:
  "lookup_static cs s ss = (case map_of cs s of None \<Rightarrow> None | Some c \<Rightarrow> lookup c ss)"
  by (induction cs) auto

lemma lookup_trie_tbl: "lookup t parts = find_map (trie_tbl t) (candidates parts)"
proof (induction parts arbitrary: t)
  case Nil
  show ?case by (cases t) (auto split: option.splits)
next
  case (Cons s ss)
  show ?case
  proof (cases t)
    case (TrieNode sc pc w ow r)
    have "find_map (trie_tbl t \<circ> (#) (SStatic s)) (candidates ss) = lookup_static sc s ss"
      by (auto simp: TrieNode lookup_static_map_of Cons.IH comp_def split: option.splits)
    moreover have "find_map (trie_tbl t \<circ> (#) SParam) (candidates ss) =
        (case pc of None \<Rightarrow> None | Some c \<Rightarrow> lookup c ss)"
      by (auto simp: TrieNode Cons.IH comp_def split: option.splits)
    ultimately show ?thesis
      by (auto simp: TrieNode find_map_append option_or_def split: option.splits)
  qed
qed

interpretation trie: shape_table trie_tbl new_node insert_node lookup
  by unfold_locales (simp_all add: trie_tbl_insert fun_eq_iff lookup_trie_tbl)

lemma compile_loop_eq:
  "compile_loop n ps rr =
     \<lparr>root = trie.ins_all n (map parse_pattern ps) (root rr), patterns = patterns rr @ map parse_pattern ps\<rparr>"
  by (induction ps arbitrary: n rr) (simp_all add: Let_def)

lemma compile_eq:
  "compile m = \<lparr>root = trie.ins_all 0 (map (parse_pattern \<circ> entry_path) (routes m)) new_node,
                patterns = map (parse_pattern \<circ> entry_path) (routes m)\<rparr>"
  by (simp add: compile_def compile_loop_eq)

lemma patterns_compile: "patterns (compile m) = map (parse_pattern \<circ> entry_path) (routes m)"
  by (simp add: compile_eq)

lemma lookup_compile:
  "lookup (root (compile m)) parts = linear_lookup (map (parse_pattern \<circ> entry_path) (routes m)) parts"
  by (simp add: compile_eq trie.look_ins_all)

section \<open>Request paths\<close>

lemma filter_split_dropWhile:
  "filter (\<lambda>s. s \<noteq> []) (split_on c (dropWhile (\<lambda>x. x = c) p)) = filter (\<lambda>s. s \<noteq> []) (split_on c p)"
  by (induction p) auto

lemma split_on_snoc: "split_on c (p @ [c]) = split_on c p @ [[]]"
  by (induction p) (auto split: list.splits)

lemma filter_split_rev_dropWhile:
  "filter (\<lambda>s. s \<noteq> []) (split_on c (rev (dropWhile (\<lambda>x. x = c) (rev p)))) =
   filter (\<lambda>s. s \<noteq> []) (split_on c p)"
  by (induction p rule: rev_induct) (auto simp: split_on_snoc)

text \<open>Leading, trailing and repeated slashes never change how a path is routed.\<close>

lemma split_path_eq: "split_path p = filter (\<lambda>s. s \<noteq> []) (split_on (CHR ''/'') p)"
  by (simp add: split_path_def trim_matches_def filter_split_rev_dropWhile filter_split_dropWhile)

lemma split_path_join:
  assumes "\<forall>v\<in>set vs. v \<noteq> [] \<and> CHR ''/'' \<notin> set v"
  shows "split_path (''/'' @ join_with ''/'' vs) = vs"
proof (cases "vs = []")
  case False
  then have "split_on (CHR ''/'') (join_with ''/'' vs) = vs" using assms by (intro split_on_join) auto
  moreover have "filter (\<lambda>s. s \<noteq> []) vs = vs" by (rule filter_True) (use assms in auto)
  ultimately show ?thesis by (simp add: split_path_eq)
qed (simp add: split_path_eq)

section \<open>Correctness of the matcher\<close>

abbreviation route_pattern :: "route_entry \<Rightarrow> pattern_segment list" where
  "route_pattern r \<equiv> parse_pattern (entry_path r)"

lemma find_eq:
  "find (compile m) m p =
     (case linear_lookup (map (parse_pattern \<circ> entry_path) (routes m)) (split_path p) of
        None \<Rightarrow> None
      | Some i \<Rightarrow> Some \<lparr>matched_route = routes m ! i,
                       matched_params = extract_params (route_pattern (routes m ! i)) (split_path p)\<rparr>)"
proof -
  have "i < length (routes m)"
    if "linear_lookup (map (parse_pattern \<circ> entry_path) (routes m)) (split_path p) = Some i" for i
    using linear_lookup_Some(1) [OF that] by simp
  then show ?thesis
    by (auto simp: find_def lookup_compile get_def patterns_compile Let_def split: option.splits)
qed

text \<open>C1. The compiled router is complete and sound: a request is answered exactly when some route
  pattern of the manifest matches it.\<close>

theorem find_answers_iff:
  "find (compile m) m p \<noteq> None \<longleftrightarrow>
     (\<exists>r\<in>set (routes m). matches (route_pattern r) (split_path p))"
proof (cases "linear_lookup (map (parse_pattern \<circ> entry_path) (routes m)) (split_path p)")
  case None
  then have "find (compile m) m p = None" by (simp add: find_eq)
  with None show ?thesis by (simp add: linear_lookup_None_iff)
next
  case (Some i)
  from linear_lookup_Some(1,2) [OF Some]
  have "routes m ! i \<in> set (routes m)" "matches (route_pattern (routes m ! i)) (split_path p)"
    by auto
  with Some show ?thesis by (auto simp: find_eq)
qed

text \<open>C2. The route found is the most specific match: its pattern matches, its parameters come from its own
  pattern, and every other matching route is less specific or is an earlier one of the same shape.\<close>

theorem find_best_match:
  assumes "find (compile m) m p = Some rm"
  shows "\<exists>i < length (routes m).
     matched_route rm = routes m ! i \<and>
     matches (route_pattern (routes m ! i)) (split_path p) \<and>
     matched_params rm = extract_params (route_pattern (routes m ! i)) (split_path p) \<and>
     (\<forall>j < length (routes m). matches (route_pattern (routes m ! j)) (split_path p) \<longrightarrow>
        more_specific (shape (route_pattern (routes m ! i))) (shape (route_pattern (routes m ! j))) \<or>
        (shape (route_pattern (routes m ! j)) = shape (route_pattern (routes m ! i)) \<and> j \<le> i))"
proof -
  from assms obtain i where
    i: "linear_lookup (map (parse_pattern \<circ> entry_path) (routes m)) (split_path p) = Some i"
    and rm: "rm = \<lparr>matched_route = routes m ! i,
        matched_params = extract_params (route_pattern (routes m ! i)) (split_path p)\<rparr>"
    by (auto simp: find_eq split: option.splits)
  note best = linear_lookup_Some [OF i]
  show ?thesis
    using best(1,2) best(3) rm by (intro exI [of _ i]) auto
qed

section \<open>Parameters\<close>

text \<open>The inverse of matching: a pattern instantiated with parameters.\<close>

fun strings_of :: "json_value list \<Rightarrow> string list option" where
  "strings_of [] = Some []"
| "strings_of (JString s # vs) = map_option ((#) s) (strings_of vs)"
| "strings_of (JArray _ # vs) = None"

fun instantiate :: "pattern_segment list \<Rightarrow> route_params \<Rightarrow> string list option" where
  "instantiate [] P = Some []"
| "instantiate (Static v # ps) P = map_option ((#) v) (instantiate ps P)"
| "instantiate (Param n # ps) P =
     (case P n of Some (JString v) \<Rightarrow> map_option ((#) v) (instantiate ps P) | _ \<Rightarrow> None)"
| "instantiate (Wildcard n # ps) P =
     (case P n of Some (JArray vs) \<Rightarrow> strings_of vs | _ \<Rightarrow> None)"
| "instantiate (OptionalWildcard n # ps) P =
     (case P n of None \<Rightarrow> Some [] | Some (JArray vs) \<Rightarrow> strings_of vs | _ \<Rightarrow> None)"

fun param_names :: "pattern_segment list \<Rightarrow> string list" where
  "param_names [] = []"
| "param_names (Static v # ps) = param_names ps"
| "param_names (Param n # ps) = n # param_names ps"
| "param_names (Wildcard n # ps) = [n]"
| "param_names (OptionalWildcard n # ps) = [n]"

lemma strings_of_map [simp]: "strings_of (map JString vs) = Some vs"
  by (induction vs) auto

lemma extract_loop_other: "n \<notin> set (param_names ps) \<Longrightarrow> extract_loop P ps parts n = P n"
  by (induction P ps parts rule: extract_loop.induct) (auto split: list.splits)

lemma instantiate_extract_loop:
  assumes "matches ps parts" "distinct (param_names ps)" "\<forall>n\<in>set (param_names ps). P n = None"
  shows "instantiate ps (extract_loop P ps parts) = Some parts"
  using assms
proof (induction P ps parts rule: extract_loop.induct)
  case (3 P n ps parts)
  then obtain v rest where parts: "parts = v # rest" "matches ps rest" by (auto split: list.splits)
  then have "instantiate ps (extract_loop (P(n \<mapsto> JString v)) ps rest) = Some rest"
    by (rule 3(1)) (use 3(3,4) in auto)
  with 3(3) parts(1) show ?case by (simp add: extract_loop_other)
qed (auto split: list.splits)

text \<open>Binding loses nothing: the parameters of a matched route, put back into its pattern, spell the
  request's segments.\<close>

theorem extract_params_roundtrip:
  assumes "matches ps parts" "distinct (param_names ps)"
  shows "instantiate ps (extract_params ps parts) = Some parts"
  unfolding extract_params_def using assms by (intro instantiate_extract_loop) auto

theorem extract_params_roundtrip_witness:
  "instantiate [Static ''docs'', Param ''lang'', Wildcard ''rest'']
     (extract_params [Static ''docs'', Param ''lang'', Wildcard ''rest''] [''docs'', ''en'', ''a'', ''b''])
   = Some [''docs'', ''en'', ''a'', ''b'']"
  by (rule extract_params_roundtrip) simp_all

section \<open>Discovered paths\<close>

text \<open>Patterns that discovery can write into a manifest.\<close>

definition discovered_path :: "string \<Rightarrow> bool" where
  "discovered_path p \<longleftrightarrow>
     (\<exists>dir. (\<forall>s\<in>set dir. s \<noteq> [] \<and> CHR ''/'' \<notin> set s) \<and> route_path_from_dir dir = Inr p)"

fun accepted_segments :: "string list \<Rightarrow> bool" where
  "accepted_segments [] \<longleftrightarrow> True"
| "accepted_segments (s # ss) \<longleftrightarrow> accepted_segment (ss = []) s \<and> accepted_segments ss"

lemma route_segments_accepted: "route_segments ss = Inr ts \<longleftrightarrow> ts = ss \<and> accepted_segments ss"
  by (induction ss arbitrary: ts) (auto simp: result_simps route_segment_Inr_iff)

lemma discovered_pathE:
  assumes "discovered_path p"
  obtains vs where "p = ''/'' @ join_with ''/'' vs" "\<forall>v\<in>set vs. v \<noteq> [] \<and> CHR ''/'' \<notin> set v"
    "accepted_segments vs" "split_path p = vs"
proof -
  from assms obtain dir where dir: "\<forall>s\<in>set dir. s \<noteq> [] \<and> CHR ''/'' \<notin> set s"
    and "route_path_from_dir dir = Inr p" by (auto simp: discovered_path_def)
  then have "p = ''/'' @ join_with ''/'' (filter is_visible_segment dir)"
    and "accepted_segments (filter is_visible_segment dir)"
    by (auto simp: route_path_from_dir_def result_simps route_segments_accepted split: if_splits)
  moreover have "split_path (''/'' @ join_with ''/'' (filter is_visible_segment dir)) =
      filter is_visible_segment dir"
    by (rule split_path_join) (use dir in auto)
  ultimately show ?thesis
    using dir that [of "filter is_visible_segment dir"] by simp
qed

text \<open>The router reads exactly the name the folder declares.\<close>

lemma name_not_bracketed:
  assumes "valid_dynamic_name n"
  shows "\<not> starts_with (n @ t) ''[''" "\<not> ends_with n '']''" "\<not> starts_with (n @ t) ''[[...''"
    "\<not> starts_with (n @ t) ''[...''" "\<not> ends_with n '']]''"
  using assms valid_name_no_bracket [OF assms]
  by (auto simp: starts_with_def ends_with_iff valid_dynamic_name_def neq_Nil_conv)

lemma parse_segment_named:
  assumes "valid_dynamic_name n"
  shows "parse_segment (''['' @ n @ '']'') = Param n"
    "parse_segment (''[...'' @ n @ '']'') = Wildcard n"
    "parse_segment (''[[...'' @ n @ '']]'') = OptionalWildcard n"
proof -
  note nb = name_not_bracketed [OF assms]
  have "parse_segment (''['' @ n @ '']'') =
      Param (trim_end_matches '']'' (trim_start_matches ''['' (''['' @ n @ '']'')))"
    using named_dynamic_plain [OF assms refl] dynamic_iff [of "''['' @ n @ '']''"] assms
    unfolding parse_segment_def by auto
  then show "parse_segment (''['' @ n @ '']'') = Param n"
    using nb by (simp only: trim_start_matches_once trim_end_matches_once list.distinct simp_thms)
  have "parse_segment (''[...'' @ n @ '']'') =
      Wildcard (trim_end_matches '']'' (trim_start_matches ''[...'' (''[...'' @ n @ '']'')))"
    using named_catch_all_not_optional [OF refl, of n] catch_all_iff [of "''[...'' @ n @ '']''"] assms
    unfolding parse_segment_def by auto
  then show "parse_segment (''[...'' @ n @ '']'') = Wildcard n"
    using nb by (simp only: trim_start_matches_once trim_end_matches_once list.distinct simp_thms)
  have "parse_segment (''[[...'' @ n @ '']]'') =
      OptionalWildcard (trim_end_matches '']]'' (trim_start_matches ''[[...'' (''[[...'' @ n @ '']]'')))"
    using optional_catch_all_iff [of "''[[...'' @ n @ '']]''"] assms
    unfolding parse_segment_def by auto
  then show "parse_segment (''[[...'' @ n @ '']]'') = OptionalWildcard n"
    using nb by (simp only: trim_start_matches_once trim_end_matches_once list.distinct simp_thms)
qed

section \<open>Conflict detection protects the trie\<close>

fun shape_text :: "shape_seg \<Rightarrow> string" where
  "shape_text (SStatic v) = v"
| "shape_text SParam = '':''"
| "shape_text SWild = ''*''"
| "shape_text SOpt = ''*?''"

lemma accepted_inner_not_catch_all:
  "accepted_segment False s \<Longrightarrow> \<not> is_optional_catch_all s \<and> \<not> is_catch_all s"
  using plain_not_bracketed named_dynamic_plain
  by (auto simp: accepted_segment_def dynamic_segment_def)

lemma shape_text_accepted:
  "accepted_segments vs \<Longrightarrow> map shape_segment vs = map shape_text (shape (map parse_segment vs))"
proof (induction vs)
  case (Cons v vs)
  show ?case
  proof (cases "vs = []")
    case True
    then show ?thesis by (auto simp: parse_segment_def shape_segment_def)
  next
    case False
    with Cons show ?thesis
      using accepted_inner_not_catch_all [of v] by (auto simp: parse_segment_def shape_segment_def)
  qed
qed simp

lemma route_match_shape_discovered:
  assumes "discovered_path p"
  shows "route_match_shape p = ''/'' @ join_with ''/'' (map shape_text (shape (parse_pattern p)))"
proof -
  from assms obtain vs where vs: "p = ''/'' @ join_with ''/'' vs"
    "\<forall>v\<in>set vs. v \<noteq> [] \<and> CHR ''/'' \<notin> set v" "accepted_segments vs" "split_path p = vs"
    by (rule discovered_pathE)
  have "map shape_text (shape (parse_pattern p)) = map shape_segment vs"
    using vs(3,4) by (simp add: parse_pattern_def shape_text_accepted)
  moreover have "route_match_shape p = ''/'' @ join_with ''/'' (map shape_segment vs)"
  proof (cases "vs = []")
    case True
    then show ?thesis
      using vs(1) by (simp add: route_match_shape_def shape_segment_def is_optional_catch_all_def
          is_catch_all_def is_dynamic_def starts_with_def)
  next
    case False
    then have "split_on (CHR ''/'') p = [] # vs"
      using vs(1,2) split_on_join [of vs "CHR ''/''"] by simp
    then show ?thesis
      using False by (cases vs) (simp_all add: route_match_shape_def shape_segment_def
          is_optional_catch_all_def is_catch_all_def is_dynamic_def starts_with_def)
  qed
  ultimately show ?thesis by simp
qed

lemma unique_most_specific:
  assumes "detect_conflicts (routes m) = Inr ()"
    and "\<forall>r\<in>set (routes m). discovered_path (entry_path r)"
    and "find (compile m) m p = Some rm"
    and "r \<in> set (routes m)" "r \<noteq> matched_route rm" "matches (route_pattern r) (split_path p)"
  shows "more_specific (shape (route_pattern (matched_route rm))) (shape (route_pattern r))"
proof -
  from assms(3) obtain i where
    lookup: "linear_lookup (map (parse_pattern \<circ> entry_path) (routes m)) (split_path p) = Some i"
    and rm: "matched_route rm = routes m ! i"
    by (auto simp: find_eq split: option.splits)
  have i: "i < length (routes m)" using linear_lookup_Some(1) [OF lookup] by simp
  from assms(4) obtain j where j: "j < length (routes m)" "r = routes m ! j"
    by (auto simp: in_set_conv_nth)
  have "shape (route_pattern r) \<noteq> shape (route_pattern (routes m ! i))"
  proof
    assume "shape (route_pattern r) = shape (route_pattern (routes m ! i))"
    then have "route_match_shape (entry_path r) = route_match_shape (entry_path (routes m ! i))"
      using assms(2) i assms(4) by (simp add: route_match_shape_discovered)
    then have "i = j"
      using assms(1) i j
      by (auto simp: detect_conflicts_def detect_conflicts_loop_iff distinct_conv_nth)
    with j rm assms(5) show False by simp
  qed
  with linear_lookup_Some(3) [OF lookup, of j] i j assms(6) rm show ?thesis by auto
qed

text \<open>In a manifest that discovery accepts no route shadows another of its own shape: the route found is
  strictly more specific than every other route that matches the request.\<close>

theorem find_unique_most_specific:
  assumes "detect_conflicts (routes m) = Inr ()"
    and "\<forall>r\<in>set (routes m). discovered_path (entry_path r)"
    and "find (compile m) m p = Some rm"
    and "r \<in> set (routes m)" "r \<noteq> matched_route rm" "matches (route_pattern r) (split_path p)"
  shows "more_specific (shape (route_pattern (matched_route rm))) (shape (route_pattern r))"
  by (rule unique_most_specific [OF assms])

section \<open>A concrete manifest\<close>

definition page_at :: "string \<Rightarrow> route_entry" where
  "page_at p =
     \<lparr>entry_id = p, entry_path = p, entry_kind = Page, entry_file = [p], entry_layout_chain = [],
      entry_template_chain = [], entry_slots = [], entry_intercepts = [], entry_server_modules = [],
      entry_client_modules = [], entry_runtime = Node, entry_render = render_meta_default\<rparr>"

lemma entry_path_page_at [simp]: "entry_path (page_at p) = p"
  by (simp add: page_at_def)

definition blog_manifest :: route_manifest where
  "blog_manifest =
     \<lparr>app_dir = [''app''], routes = map page_at [''/[locale]/docs'', ''/blog/[slug]'', ''/blog/featured''],
      i18n = None\<rparr>"

lemma blog_intro:
  "case find (compile blog_manifest) blog_manifest ''/blog/intro'' of
     None \<Rightarrow> False | Some rm \<Rightarrow> entry_path (matched_route rm) = ''/blog/[slug]''"
  by code_simp

lemma blog_featured:
  "case find (compile blog_manifest) blog_manifest ''/blog/featured'' of
     None \<Rightarrow> False | Some rm \<Rightarrow> entry_path (matched_route rm) = ''/blog/featured''"
  by code_simp

lemma discovered_pathI:
  "list_all (\<lambda>s. s \<noteq> [] \<and> CHR ''/'' \<notin> set s) dir \<Longrightarrow> route_path_from_dir dir = Inr p \<Longrightarrow> discovered_path p"
  by (auto simp: discovered_path_def list_all_iff)

lemma blog_discovered: "\<forall>r\<in>set (routes blog_manifest). discovered_path (entry_path r)"
proof -
  have "discovered_path ''/[locale]/docs''"
    by (rule discovered_pathI [of "[''[locale]'', ''docs'']"]; code_simp)
  moreover have "discovered_path ''/blog/[slug]''"
    by (rule discovered_pathI [of "[''blog'', ''[slug]'']"]; code_simp)
  moreover have "discovered_path ''/blog/featured''"
    by (rule discovered_pathI [of "[''blog'', ''featured'']"]; code_simp)
  ultimately show ?thesis by (simp add: blog_manifest_def)
qed

theorem find_best_match_witness:
  "\<exists>rm i. find (compile blog_manifest) blog_manifest ''/blog/intro'' = Some rm \<and>
     entry_path (matched_route rm) = ''/blog/[slug]'' \<and> i < length (routes blog_manifest) \<and>
     matched_route rm = routes blog_manifest ! i"
proof -
  obtain rm where rm: "find (compile blog_manifest) blog_manifest ''/blog/intro'' = Some rm"
    and "entry_path (matched_route rm) = ''/blog/[slug]''"
    using blog_intro by (auto split: option.splits)
  with find_best_match [OF rm] show ?thesis by blast
qed

theorem find_unique_most_specific_witness:
  "more_specific (shape (parse_pattern ''/blog/featured'')) (shape (parse_pattern ''/blog/[slug]''))"
proof -
  obtain rm where rm: "find (compile blog_manifest) blog_manifest ''/blog/featured'' = Some rm"
    and path: "entry_path (matched_route rm) = ''/blog/featured''"
    using blog_featured by (auto split: option.splits)
  have "detect_conflicts (routes blog_manifest) = Inr ()" by code_simp
  moreover have "page_at ''/blog/[slug]'' \<in> set (routes blog_manifest)"
    by (simp add: blog_manifest_def)
  moreover have "page_at ''/blog/[slug]'' \<noteq> matched_route rm"
    using path by (auto dest: arg_cong [where f = entry_path])
  moreover have "matches (route_pattern (page_at ''/blog/[slug]'')) (split_path ''/blog/featured'')"
    by code_simp
  ultimately have "more_specific (shape (route_pattern (matched_route rm)))
      (shape (route_pattern (page_at ''/blog/[slug]'')))"
    using find_unique_most_specific [OF _ blog_discovered rm] by blast
  with path show ?thesis by simp
qed

end
