(* ===== verification/Replay_Guard.thy ===== *)
theory Replay_Guard
  imports Client_Ip
begin

text \<open>
  The replay guard of server actions: \<open>ActionReplayGuard\<close> of
  \<open>src/crates/ruvyxa_dev_server/src/action_security.rs\<close>. A versioned action request carries a nonce; the
  guard accepts each pair of action reference and nonce once per time to live.

  The guard keeps three structures level with each other (a set of keys, a queue in expiry order, a count
  per client). The theory states what they amount to as a reference machine that never forgets: a log
  of every accepted request. The guard answers every sequence of requests as the log does.

  Instants are nanoseconds. The clock is read under the guard's lock, so instants never decrease along
  a run: a run is a list of requests, each with the time passed since the one before.
\<close>

section \<open>State\<close>

definition ACTION_NONCE_TTL :: nat where
  "ACTION_NONCE_TTL = 600 * 1000000000"

definition ACTION_NONCE_MAX_ENTRIES :: nat where
  "ACTION_NONCE_MAX_ENTRIES = 10000"

definition ACTION_NONCE_MAX_PER_CLIENT :: nat where
  "ACTION_NONCE_MAX_PER_CLIENT = ACTION_NONCE_MAX_ENTRIES div 10"

record nonce_entry =
  expires :: nat
  entry_key :: string
  entry_client :: ip_addr

record replay_guard =
  seen :: "string set"
  order :: "nonce_entry list"
  per_client :: "ip_addr \<rightharpoonup> nat"

datatype replay_rejection = InvalidNonce | Replayed | ClientSaturated | Saturated

definition replay_status :: "replay_rejection \<Rightarrow> nat" where
  "replay_status r =
     (case r of InvalidNonce \<Rightarrow> 400 | Replayed \<Rightarrow> 409 | ClientSaturated \<Rightarrow> 429 | Saturated \<Rightarrow> 503)"

definition replay_message :: "replay_rejection \<Rightarrow> string" where
  "replay_message r =
     (case r of
        InvalidNonce \<Rightarrow> ''Versioned action requests require a valid replay nonce''
      | Replayed \<Rightarrow> ''Action request replayed''
      | ClientSaturated \<Rightarrow> ''Action replay protection is saturated for this client''
      | Saturated \<Rightarrow> ''Action replay protection is saturated'')"

definition new_guard :: replay_guard where
  "new_guard = \<lparr>seen = {}, order = [], per_client = Map.empty\<rparr>"

section \<open>Operations\<close>

definition request_nonce :: "headers \<Rightarrow> string" where
  "request_nonce h = (case header_str h ''x-ruvyxa-action-nonce'' of None \<Rightarrow> [] | Some v \<Rightarrow> v)"

definition nonce_byte :: "char \<Rightarrow> bool" where
  "nonce_byte c \<longleftrightarrow> is_ascii_alphanumeric c \<or> c \<in> set ''._~-''"

definition valid_nonce :: "string \<Rightarrow> bool" where
  "valid_nonce n \<longleftrightarrow> 16 \<le> length n \<and> length n \<le> 128 \<and> list_all nonce_byte n"

definition release_client :: "(ip_addr \<rightharpoonup> nat) \<Rightarrow> ip_addr \<Rightarrow> (ip_addr \<rightharpoonup> nat)" where
  "release_client pc client =
     (case pc client of
        None \<Rightarrow> pc
      | Some held \<Rightarrow> (let held' = held - 1 in if held' = 0 then pc(client := None) else pc(client \<mapsto> held')))"

text \<open>The sweep stops at the first live entry.\<close>

fun sweep_loop ::
  "nat \<Rightarrow> nonce_entry list \<Rightarrow> string set \<Rightarrow> (ip_addr \<rightharpoonup> nat) \<Rightarrow> replay_guard" where
  "sweep_loop now [] s pc = \<lparr>seen = s, order = [], per_client = pc\<rparr>"
| "sweep_loop now (e # es) s pc =
     (if expires e \<le> now then sweep_loop now es (s - {entry_key e}) (release_client pc (entry_client e))
      else \<lparr>seen = s, order = e # es, per_client = pc\<rparr>)"

definition sweep :: "nat \<Rightarrow> replay_guard \<Rightarrow> replay_guard" where
  "sweep now g = sweep_loop now (order g) (seen g) (per_client g)"

definition nonce_key :: "string \<Rightarrow> string \<Rightarrow> string" where
  "nonce_key reference nonce = reference @ '':'' @ nonce"

definition record_nonce :: "replay_guard \<Rightarrow> nat \<Rightarrow> string \<Rightarrow> ip_addr \<Rightarrow> replay_guard" where
  "record_nonce g now key client =
     \<lparr>seen = insert key (seen g),
      order = order g @ [\<lparr>expires = now + ACTION_NONCE_TTL, entry_key = key, entry_client = client\<rparr>],
      per_client = (per_client g)(client \<mapsto> (case per_client g client of None \<Rightarrow> 0 | Some n \<Rightarrow> n) + 1)\<rparr>"

definition consume ::
  "replay_guard \<Rightarrow> nat \<Rightarrow> headers \<Rightarrow> string \<Rightarrow> ip_addr \<Rightarrow> (replay_rejection + unit) \<times> replay_guard" where
  "consume g now h action_reference client =
     (let nonce = request_nonce h in
      if \<not> valid_nonce nonce then (Inl InvalidNonce, g)
      else
        (let g = sweep now g; key = nonce_key action_reference nonce in
         if key \<in> seen g then (Inl Replayed, g)
         else if (case per_client g client of None \<Rightarrow> False | Some held \<Rightarrow> held \<ge> ACTION_NONCE_MAX_PER_CLIENT)
           then (Inl ClientSaturated, g)
         else if card (seen g) \<ge> ACTION_NONCE_MAX_ENTRIES then (Inl Saturated, g)
         else (Inr (), record_nonce g now key client)))"

section \<open>Keys\<close>

lemma valid_nonce_no_colon: "valid_nonce n \<Longrightarrow> CHR '':'' \<notin> set n"
proof
  assume "valid_nonce n" "CHR '':'' \<in> set n"
  then have "nonce_byte (CHR '':'')" by (auto simp: valid_nonce_def list_all_iff)
  then show False by (simp add: nonce_byte_def str_simps)
qed

text \<open>No two pairs of reference and nonce share a key.\<close>

lemma nonce_key_inj:
  assumes "valid_nonce n" "valid_nonce n'" "nonce_key r n = nonce_key r' n'"
  shows "r = r' \<and> n = n'"
proof -
  have free: "\<forall>c\<in>set (rev n). c \<noteq> CHR '':''" "\<forall>c\<in>set (rev n'). c \<noteq> CHR '':''"
    using valid_nonce_no_colon [OF assms(1)] valid_nonce_no_colon [OF assms(2)] by auto
  have rev: "rev n @ CHR '':'' # rev r = rev n' @ CHR '':'' # rev r'"
    using arg_cong [OF assms(3), of rev] by (simp add: nonce_key_def)
  have "takeWhile (\<lambda>c. c \<noteq> CHR '':'') (rev n @ CHR '':'' # rev r) = rev n"
    "takeWhile (\<lambda>c. c \<noteq> CHR '':'') (rev n' @ CHR '':'' # rev r') = rev n'"
    using free by (subst takeWhile_append2; auto)+
  with rev show ?thesis by simp
qed

section \<open>The log that never forgets\<close>

record accepted =
  acc_at :: nat
  acc_reference :: string
  acc_nonce :: string
  acc_client :: ip_addr

definition live :: "nat \<Rightarrow> accepted list \<Rightarrow> accepted list" where
  "live now log = filter (\<lambda>a. now < acc_at a + ACTION_NONCE_TTL) log"

definition log_consume ::
  "accepted list \<Rightarrow> nat \<Rightarrow> headers \<Rightarrow> string \<Rightarrow> ip_addr \<Rightarrow> (replay_rejection + unit) \<times> accepted list" where
  "log_consume log now h r c =
     (let n = request_nonce h; held = live now log in
      if \<not> valid_nonce n then (Inl InvalidNonce, log)
      else if \<exists>a\<in>set held. acc_reference a = r \<and> acc_nonce a = n then (Inl Replayed, log)
      else if length (filter (\<lambda>a. acc_client a = c) held) \<ge> ACTION_NONCE_MAX_PER_CLIENT
        then (Inl ClientSaturated, log)
      else if length held \<ge> ACTION_NONCE_MAX_ENTRIES then (Inl Saturated, log)
      else (Inr (), log @ [\<lparr>acc_at = now, acc_reference = r, acc_nonce = n, acc_client = c\<rparr>]))"

text \<open>A request of a run: the time since the previous one, its headers, reference and client.\<close>

type_synonym replay_request = "nat \<times> headers \<times> string \<times> ip_addr"

fun run_guard :: "nat \<Rightarrow> replay_guard \<Rightarrow> replay_request list \<Rightarrow> (replay_rejection + unit) list" where
  "run_guard t g [] = []"
| "run_guard t g ((dt, h, r, c) # es) =
     (let (res, g') = consume g (t + dt) h r c in res # run_guard (t + dt) g' es)"

fun run_log :: "nat \<Rightarrow> accepted list \<Rightarrow> replay_request list \<Rightarrow> (replay_rejection + unit) list" where
  "run_log t log [] = []"
| "run_log t log ((dt, h, r, c) # es) =
     (let (res, log') = log_consume log (t + dt) h r c in res # run_log (t + dt) log' es)"

section \<open>The guard refines the log\<close>

definition entry_of :: "accepted \<Rightarrow> nonce_entry" where
  "entry_of a =
     \<lparr>expires = acc_at a + ACTION_NONCE_TTL, entry_key = nonce_key (acc_reference a) (acc_nonce a),
      entry_client = acc_client a\<rparr>"

lemma entry_of_simps [simp]:
  "expires (entry_of a) = acc_at a + ACTION_NONCE_TTL"
  "entry_key (entry_of a) = nonce_key (acc_reference a) (acc_nonce a)"
  "entry_client (entry_of a) = acc_client a"
  by (simp_all add: entry_of_def)

definition count_of :: "nonce_entry list \<Rightarrow> ip_addr \<rightharpoonup> nat" where
  "count_of es c =
     (let n = length (filter (\<lambda>e. entry_client e = c) es) in if n = 0 then None else Some n)"

definition guard_of :: "nonce_entry list \<Rightarrow> replay_guard" where
  "guard_of es = \<lparr>seen = set (map entry_key es), order = es, per_client = count_of es\<rparr>"

definition log_wf :: "accepted list \<Rightarrow> bool" where
  "log_wf log \<longleftrightarrow> sorted (map acc_at log) \<and> list_all (\<lambda>a. valid_nonce (acc_nonce a)) log"

text \<open>\<open>s\<close> is the instant of the last sweep.\<close>

definition guard_log :: "nat \<Rightarrow> replay_guard \<Rightarrow> accepted list \<Rightarrow> bool" where
  "guard_log t g log \<longleftrightarrow>
     log_wf log \<and> (\<forall>a\<in>set log. acc_at a \<le> t) \<and>
     (\<exists>s\<le>t. g = guard_of (map entry_of (live s log)) \<and> distinct (map entry_key (order g)))"

lemma release_count_of: "release_client (count_of (e # es)) (entry_client e) = count_of es"
  by (rule ext) (auto simp: release_client_def count_of_def Let_def)

lemma sweep_loop_guard_of:
  assumes "distinct (map entry_key es)"
  shows "sweep_loop now es (set (map entry_key es)) (count_of es) =
     guard_of (dropWhile (\<lambda>e. expires e \<le> now) es)"
  using assms
proof (induction es)
  case (Cons e es)
  then have "set (map entry_key (e # es)) - {entry_key e} = set (map entry_key es)" by auto
  with Cons show ?case by (simp add: guard_of_def release_count_of)
qed (simp add: guard_of_def)

lemma dropWhile_expired:
  assumes "sorted (map acc_at log)"
  shows "dropWhile (\<lambda>e. expires e \<le> now) (map entry_of log) = map entry_of (live now log)"
  using assms
proof (induction log)
  case (Cons a log)
  show ?case
  proof (cases "acc_at a + ACTION_NONCE_TTL \<le> now")
    case False
    then have "live now (a # log) = a # log"
      using Cons.prems by (auto simp: live_def filter_id_conv)
    with False show ?thesis by simp
  qed (use Cons in \<open>simp add: live_def\<close>)
qed (simp add: live_def)

lemma live_live: "s \<le> now \<Longrightarrow> live now (live s log) = live now log"
  by (auto simp: live_def intro!: filter_cong)

lemma sorted_live: "sorted (map acc_at log) \<Longrightarrow> sorted (map acc_at (live s log))"
  by (simp add: live_def sorted_filter)

lemma distinct_dropWhile_map: "distinct (map f xs) \<Longrightarrow> distinct (map f (dropWhile P xs))"
  by (induction xs) auto

lemma sweep_guard_log:
  assumes "guard_log t g log" "t \<le> now"
  shows "sweep now g = guard_of (map entry_of (live now log))"
    "distinct (map entry_key (map entry_of (live now log)))"
proof -
  obtain s where s: "s \<le> t" "g = guard_of (map entry_of (live s log))"
    "distinct (map entry_key (order g))" and wf: "log_wf log"
    using assms(1) by (auto simp: guard_log_def)
  have srt: "sorted (map acc_at (live s log))" using wf by (simp add: log_wf_def sorted_live)
  have drop: "dropWhile (\<lambda>e. expires e \<le> now) (map entry_of (live s log)) = map entry_of (live now log)"
    using s assms(2) by (simp only: dropWhile_expired [OF srt] live_live)
  show "sweep now g = guard_of (map entry_of (live now log))"
    using s(3) sweep_loop_guard_of [of "map entry_of (live s log)" now]
    unfolding drop s(2) sweep_def by (simp add: guard_of_def)
  show "distinct (map entry_key (map entry_of (live now log)))"
    using s(3) distinct_dropWhile_map [of entry_key "map entry_of (live s log)"]
    unfolding s(2) drop [symmetric] by (simp add: guard_of_def)
qed

lemma seen_guard_of_iff:
  assumes "log_wf log" "valid_nonce n"
  shows "nonce_key r n \<in> seen (guard_of (map entry_of (live now log))) \<longleftrightarrow>
     (\<exists>a\<in>set (live now log). acc_reference a = r \<and> acc_nonce a = n)"
  using assms by (auto simp: guard_of_def log_wf_def live_def list_all_iff dest!: nonce_key_inj)

lemma client_guard_of:
  "(case per_client (guard_of (map entry_of as)) c of None \<Rightarrow> False | Some held \<Rightarrow> held \<ge> ACTION_NONCE_MAX_PER_CLIENT)
     \<longleftrightarrow> length (filter (\<lambda>a. acc_client a = c) as) \<ge> ACTION_NONCE_MAX_PER_CLIENT"
  by (auto simp: guard_of_def count_of_def Let_def comp_def ACTION_NONCE_MAX_PER_CLIENT_def
      ACTION_NONCE_MAX_ENTRIES_def)

lemma record_guard_of:
  "record_nonce (guard_of es) now key c =
     guard_of (es @ [\<lparr>expires = now + ACTION_NONCE_TTL, entry_key = key, entry_client = c\<rparr>])"
  by (auto simp: record_nonce_def guard_of_def count_of_def Let_def)

lemma live_now: "\<forall>a\<in>set log. acc_at a \<le> t \<Longrightarrow> acc_at a = now \<Longrightarrow> live now (log @ [a]) = live now log @ [a]"
  by (simp add: live_def ACTION_NONCE_TTL_def)

lemma guard_log_swept:
  assumes "guard_log t g log" "t \<le> now"
  shows "guard_log now (sweep now g) log"
  using assms sweep_guard_log [OF assms] by (fastforce simp: guard_log_def guard_of_def)

lemma guard_log_later: "guard_log t g log \<Longrightarrow> t \<le> now \<Longrightarrow> guard_log now g log"
  unfolding guard_log_def using le_trans by fast

lemma guard_log_record:
  assumes "guard_log t g log" "t \<le> now" "valid_nonce n"
    and new: "\<not> (\<exists>a\<in>set (live now log). acc_reference a = r \<and> acc_nonce a = n)"
  shows "guard_log now (record_nonce (sweep now g) now (nonce_key r n) c)
     (log @ [\<lparr>acc_at = now, acc_reference = r, acc_nonce = n, acc_client = c\<rparr>])"
proof -
  let ?a = "\<lparr>acc_at = now, acc_reference = r, acc_nonce = n, acc_client = c\<rparr>"
  have wf: "log_wf log" and le: "\<forall>a\<in>set log. acc_at a \<le> t" using assms(1) by (auto simp: guard_log_def)
  have g': "record_nonce (sweep now g) now (nonce_key r n) c = guard_of (map entry_of (live now (log @ [?a])))"
    using live_now [OF le, of ?a now]
    by (simp add: sweep_guard_log(1) [OF assms(1,2)] record_guard_of entry_of_def)
  have "log_wf (log @ [?a])"
    using wf le assms(2,3) by (fastforce simp: log_wf_def sorted_append)
  moreover have "nonce_key r n \<notin> set (map entry_key (map entry_of (live now log)))"
    using seen_guard_of_iff [OF wf assms(3), of r now] new by (simp add: guard_of_def)
  ultimately show ?thesis
    using le assms(2) sweep_guard_log(2) [OF assms(1,2)] live_now [OF le, of ?a now]
    by (fastforce simp: guard_log_def g' guard_of_def)
qed

lemma consume_refines:
  assumes "guard_log t g log" "t \<le> now"
  shows "fst (consume g now h r c) = fst (log_consume log now h r c)"
    "guard_log now (snd (consume g now h r c)) (snd (log_consume log now h r c))"
proof -
  have wf: "log_wf log" using assms(1) by (simp add: guard_log_def)
  have card: "card (seen (sweep now g)) = length (live now log)"
    using sweep_guard_log [OF assms] distinct_card by (fastforce simp: guard_of_def)
  show "fst (consume g now h r c) = fst (log_consume log now h r c)"
    using card by (auto simp: consume_def log_consume_def Let_def sweep_guard_log(1) [OF assms]
        seen_guard_of_iff [OF wf] client_guard_of)
  show "guard_log now (snd (consume g now h r c)) (snd (log_consume log now h r c))"
    using card guard_log_record [OF assms] guard_log_swept [OF assms] guard_log_later [OF assms]
    by (auto simp: consume_def log_consume_def Let_def sweep_guard_log(1) [OF assms]
        seen_guard_of_iff [OF wf] client_guard_of)
qed

lemma run_refines: "guard_log t g log \<Longrightarrow> run_guard t g es = run_log t log es"
proof (induction es arbitrary: t g log)
  case (Cons e es)
  obtain dt h r c where e: "e = (dt, h, r, c)" by (cases e)
  have "t \<le> t + dt" by simp
  note step = consume_refines [OF Cons.prems this, of h r c]
  show ?case
    using step Cons.IH [OF step(2)] by (simp add: e split_def Let_def)
qed simp

lemma guard_log_new: "guard_log t new_guard []"
  by (auto simp: guard_log_def log_wf_def new_guard_def guard_of_def live_def count_of_def)

text \<open>C23. The guard answers every run of requests as a machine that keeps every accepted request for
  ever and compares references and nonces themselves: bounding the memory, sweeping only the front of
  the queue and joining reference and nonce into one key change no answer.\<close>

theorem guard_refines_log: "run_guard t new_guard es = run_log t [] es"
  by (rule run_refines [OF guard_log_new])

section \<open>What the log shows\<close>

fun log_after :: "nat \<Rightarrow> accepted list \<Rightarrow> replay_request list \<Rightarrow> accepted list" where
  "log_after t log [] = log"
| "log_after t log ((dt, h, r, c) # es) = log_after (t + dt) (snd (log_consume log (t + dt) h r c)) es"

definition elapsed :: "replay_request list \<Rightarrow> nat" where
  "elapsed es = sum_list (map fst es)"

lemma elapsed_simps [simp]:
  "elapsed [] = 0" "elapsed (e # es) = fst e + elapsed es" "elapsed (es @ fs) = elapsed es + elapsed fs"
  by (simp_all add: elapsed_def)

lemma run_log_append:
  "run_log t log (es @ fs) = run_log t log es @ run_log (t + elapsed es) (log_after t log es) fs"
  by (induction t log es rule: log_after.induct) (simp_all add: split_def Let_def ac_simps)

lemma log_after_append:
  "log_after t log (es @ fs) = log_after (t + elapsed es) (log_after t log es) fs"
  by (induction t log es rule: log_after.induct) (simp_all add: ac_simps)

lemma log_consume_grows: "set log \<subseteq> set (snd (log_consume log now h r c))"
  by (auto simp: log_consume_def Let_def)

lemma log_after_grows: "set log \<subseteq> set (log_after t log es)"
proof (induction t log es rule: log_after.induct)
  case (2 t log dt h r c es)
  then show ?case using log_consume_grows [of log "t + dt" h r c] by auto
qed simp

lemma log_consume_accept:
  "fst (log_consume log now h r c) = Inr () \<Longrightarrow>
   valid_nonce (request_nonce h) \<and>
   \<lparr>acc_at = now, acc_reference = r, acc_nonce = request_nonce h, acc_client = c\<rparr>
     \<in> set (snd (log_consume log now h r c))"
  by (auto simp: log_consume_def Let_def split: if_splits)

lemma log_consume_replayed:
  "valid_nonce (request_nonce h) \<Longrightarrow> a \<in> set log \<Longrightarrow> now < acc_at a + ACTION_NONCE_TTL \<Longrightarrow>
   acc_reference a = r \<Longrightarrow> acc_nonce a = request_nonce h \<Longrightarrow> fst (log_consume log now h r c) = Inl Replayed"
  by (auto simp: log_consume_def Let_def live_def)

text \<open>Replay protection: once a request is accepted, every later request with the same action
  reference and nonce that arrives within the time to live is refused as a replay, whatever requests came
  between and whichever client sends it.\<close>

theorem replay_refused:
  assumes "last (run_guard t new_guard (pre @ [(d, h, r, c)])) = Inr ()"
    and "request_nonce h' = request_nonce h"
    and "elapsed mid + d' < ACTION_NONCE_TTL"
  shows "last (run_guard t new_guard (pre @ (d, h, r, c) # mid @ [(d', h', r, c')])) = Inl Replayed"
proof -
  let ?now = "t + elapsed pre + d" and ?log = "log_after t [] pre"
  let ?a = "\<lparr>acc_at = ?now, acc_reference = r, acc_nonce = request_nonce h, acc_client = c\<rparr>"
  let ?log' = "log_after t [] (pre @ (d, h, r, c) # mid)"
  have acc: "fst (log_consume ?log ?now h r c) = Inr ()"
    using assms(1) by (simp add: run_refines [OF guard_log_new] run_log_append split_def Let_def)
  have "?a \<in> set ?log'"
    using log_consume_accept [OF acc]
      log_after_grows [of "snd (log_consume ?log ?now h r c)" ?now mid]
    by (auto simp: log_after_append)
  then have "fst (log_consume ?log' (?now + elapsed mid + d') h' r c') = Inl Replayed"
    using log_consume_accept [OF acc] assms(2,3) by (intro log_consume_replayed [of _ ?a]) auto
  moreover have "pre @ (d, h, r, c) # mid @ [(d', h', r, c')] = (pre @ (d, h, r, c) # mid) @ [(d', h', r, c')]"
    by simp
  ultimately show ?thesis
    by (simp only: run_refines [OF guard_log_new] run_log_append) (simp add: split_def Let_def ac_simps)
qed

definition nonce_header :: "string \<Rightarrow> headers" where
  "nonce_header n name = (if name = ''x-ruvyxa-action-nonce'' then [Some n] else [])"

theorem replay_refused_witness:
  "last (run_guard 0 new_guard
     ([] @ (5, nonce_header ''0123456789abcdef'', ''a_1'', V4 1) # [(7, nonce_header ''x'', ''a_1'', V4 2)]
      @ [(9, nonce_header ''0123456789abcdef'', ''a_1'', V4 3)])) = Inl Replayed"
proof (rule replay_refused)
  have "request_nonce (nonce_header ''0123456789abcdef'') = ''0123456789abcdef''"
    by (simp add: request_nonce_def nonce_header_def header_str_def)
  moreover have "valid_nonce ''0123456789abcdef''" by code_simp
  ultimately show "last (run_guard 0 new_guard ([] @ [(5, nonce_header ''0123456789abcdef'', ''a_1'', V4 1)])) = Inr ()"
    by (simp add: consume_def new_guard_def sweep_def Let_def ACTION_NONCE_MAX_ENTRIES_def)
qed (simp_all add: ACTION_NONCE_TTL_def)

section \<open>One client cannot fill the pool\<close>

definition held_by :: "ip_addr \<Rightarrow> nat \<Rightarrow> accepted list \<Rightarrow> nat" where
  "held_by c now log = length (filter (\<lambda>a. acc_client a = c) (live now log))"

lemma held_by_later: "s \<le> now \<Longrightarrow> held_by c now log \<le> held_by c s log"
proof -
  assume "s \<le> now"
  then have "live now log = filter (\<lambda>a. now < acc_at a + ACTION_NONCE_TTL) (live s log)"
    using live_live [of s now log] by (simp add: live_def)
  then show ?thesis
    using length_filter_le [of "\<lambda>a. now < acc_at a + ACTION_NONCE_TTL" "filter (\<lambda>a. acc_client a = c) (live s log)"]
    by (simp add: held_by_def filter_filter conj_commute)
qed

lemma log_consume_quota:
  assumes "\<forall>c. held_by c t log \<le> ACTION_NONCE_MAX_PER_CLIENT" "t \<le> now"
  shows "\<forall>c. held_by c now (snd (log_consume log now h r c')) \<le> ACTION_NONCE_MAX_PER_CLIENT"
proof
  fix c
  have old: "held_by c now log \<le> ACTION_NONCE_MAX_PER_CLIENT"
    using assms held_by_later le_trans by blast
  show "held_by c now (snd (log_consume log now h r c')) \<le> ACTION_NONCE_MAX_PER_CLIENT"
    using old by (auto simp: log_consume_def Let_def held_by_def live_def)
qed

lemma log_after_quota:
  "\<forall>c. held_by c t log \<le> ACTION_NONCE_MAX_PER_CLIENT \<Longrightarrow>
   held_by c (t + elapsed es) (log_after t log es) \<le> ACTION_NONCE_MAX_PER_CLIENT"
proof (induction t log es rule: log_after.induct)
  case (2 t log dt h r c' es)
  from log_consume_quota [OF "2.prems", of "t + dt" h r c'] "2.IH" show ?case
    by (simp add: add.assoc)
qed simp

lemma log_after_clients:
  "acc_client ` set (log_after t log es) \<subseteq> acc_client ` set log \<union> (\<lambda>(_, _, _, c). c) ` set es"
proof (induction t log es rule: log_after.induct)
  case (2 t log dt h r c es)
  have "acc_client ` set (snd (log_consume log (t + dt) h r c)) \<subseteq> insert c (acc_client ` set log)"
    by (auto simp: log_consume_def Let_def)
  with 2 show ?case by auto
qed simp

lemma length_by_class:
  assumes "\<And>c. length (filter (\<lambda>x. f x = c) xs) \<le> k" "f ` set xs \<subseteq> A" "finite A"
  shows "length xs \<le> k * card A"
proof -
  have "length xs = (\<Sum>c\<in>A. length (filter (\<lambda>x. f x = c) xs))"
    using assms(2)
  proof (induction xs)
    case (Cons x xs)
    then have "(\<Sum>c\<in>A. length (filter (\<lambda>y. f y = c) (x # xs))) =
        (\<Sum>c\<in>A. length (filter (\<lambda>y. f y = c) xs)) + (\<Sum>c\<in>A. if f x = c then 1 else 0)"
      by (simp add: sum.distrib [symmetric] if_distrib cong: sum.cong)
        (intro sum.cong, auto)
    with Cons assms(3) show ?case by simp
  qed simp
  also have "\<dots> \<le> (\<Sum>c\<in>A. k)" by (rule sum_mono) (rule assms(1))
  finally show ?thesis by (simp add: mult.commute)
qed

lemma saturated_clients:
  assumes "fst (log_consume (log_after t [] pre) (t + elapsed pre + d) h r c) = Inl Saturated"
  shows "10 \<le> card ((\<lambda>(_, _, _, c). c) ` set pre)"
proof -
  let ?now = "t + elapsed pre + d" and ?log = "log_after t [] pre"
  let ?A = "(\<lambda>(_, _, _, c). c) ` set pre"
  have full: "ACTION_NONCE_MAX_ENTRIES \<le> length (live ?now ?log)"
    using assms by (auto simp: log_consume_def Let_def split: if_splits)
  have quota: "held_by c' ?now ?log \<le> ACTION_NONCE_MAX_PER_CLIENT" for c'
  proof -
    have "held_by c' ?now ?log \<le> held_by c' (t + elapsed pre) ?log" by (rule held_by_later) simp
    also have "\<dots> \<le> ACTION_NONCE_MAX_PER_CLIENT"
      by (rule log_after_quota) (simp add: held_by_def live_def)
    finally show ?thesis .
  qed
  have "acc_client ` set (live ?now ?log) \<subseteq> ?A"
    using log_after_clients [of t "[]" pre] by (auto simp: live_def)
  then have "length (live ?now ?log) \<le> ACTION_NONCE_MAX_PER_CLIENT * card ?A"
    using quota by (intro length_by_class) (auto simp: held_by_def)
  with full show ?thesis
    by (simp add: ACTION_NONCE_MAX_PER_CLIENT_def ACTION_NONCE_MAX_ENTRIES_def)
qed

lemma run_log_split:
  assumes "x \<in> set (run_log t log es)"
  shows "\<exists>pre d h r c post. es = pre @ (d, h, r, c) # post \<and>
     x = fst (log_consume (log_after t log pre) (t + elapsed pre + d) h r c)"
  using assms
proof (induction t log es rule: run_log.induct)
  case (2 t log dt h r c es)
  obtain res log' where step: "log_consume log (t + dt) h r c = (res, log')" by fastforce
  show ?case
  proof (cases "x = res")
    case True
    have "(dt, h, r, c) # es = [] @ (dt, h, r, c) # es" by simp
    with True step show ?thesis by force
  next
    case False
    with 2 step obtain pre d h' r' c' post where "es = pre @ (d, h', r', c') # post"
      "x = fst (log_consume (log_after (t + dt) log' pre) (t + dt + elapsed pre + d) h' r' c')"
      by (fastforce simp: step)
    then have "(dt, h, r, c) # es = ((dt, h, r, c) # pre) @ (d, h', r', c') # post \<and>
        x = fst (log_consume (log_after t log ((dt, h, r, c) # pre)) (t + elapsed ((dt, h, r, c) # pre) + d) h' r' c')"
      by (simp add: step add.assoc)
    then show ?thesis by blast
  qed
qed simp

text \<open>Saturating the pool takes at least ten client addresses: however many requests fewer than ten
  addresses send, none is refused because the whole pool is full.\<close>

theorem saturation_needs_ten_clients:
  assumes "card ((\<lambda>(_, _, _, c). c) ` set es) < 10"
  shows "Inl Saturated \<notin> set (run_guard t new_guard es)"
proof
  assume "Inl Saturated \<in> set (run_guard t new_guard es)"
  then obtain pre d h r c post where es: "es = pre @ (d, h, r, c) # post"
    and "Inl Saturated = fst (log_consume (log_after t [] pre) (t + elapsed pre + d) h r c)"
    using run_log_split [of "Inl Saturated" t "[]" es] by (auto simp: run_refines [OF guard_log_new])
  then have "10 \<le> card ((\<lambda>(_, _, _, c). c) ` set pre)" by (metis saturated_clients)
  also have "\<dots> \<le> card ((\<lambda>(_, _, _, c). c) ` set es)" unfolding es by (intro card_mono image_mono) auto
  finally show False using assms by simp
qed

theorem saturation_needs_ten_clients_witness:
  "Inl Saturated \<notin> set (run_guard 0 new_guard [(5, nonce_header ''0123456789abcdef'', ''a_1'', V4 1)])"
  by (rule saturation_needs_ten_clients) simp

end
