(* ===== verification/Action_Limiter.thy ===== *)
theory Action_Limiter
  imports Prelude Complex_Main
begin

text \<open>
  The rate limiter of server actions: \<open>ActionRateLimiter\<close> of
  \<open>src/crates/ruvyxa_dev_server/src/action_security.rs\<close>. A fixed array of slots, a client hashed to a slot,
  two adjacent windows per slot.

  Instants and durations are nanoseconds. The seeded hash is a parameter. The weighted count, an
  \<open>f64\<close> in the code, is computed in exact rationals: the examples below use values a double represents
  exactly, and the general lemmas hold of any rounding that never falls below the integer part.
\<close>

definition ACTION_RATE_LIMIT_SLOTS :: nat where
  "ACTION_RATE_LIMIT_SLOTS = 8192"

definition u32_max :: nat where
  "u32_max = 4294967295"

record rate_slot =
  window_start :: nat
  current :: nat
  previous :: nat

record action_limiter =
  slots :: "rate_slot option list"
  max_hits :: nat
  limit_window :: nat

definition new_action_limiter :: "nat \<Rightarrow> nat \<Rightarrow> action_limiter" where
  "new_action_limiter mx w =
     \<lparr>slots = replicate ACTION_RATE_LIMIT_SLOTS None, max_hits = mx, limit_window = w\<rparr>"

definition slot_index :: "(string \<Rightarrow> nat) \<Rightarrow> string \<Rightarrow> nat" where
  "slot_index hash_one key = hash_one key mod ACTION_RATE_LIMIT_SLOTS"

definition advance_window :: "rate_slot \<Rightarrow> nat \<Rightarrow> nat \<Rightarrow> rate_slot" where
  "advance_window slot now w =
     (let elapsed = now - window_start slot in
      if w = 0 \<or> elapsed \<ge> w * 2 then slot\<lparr>previous := 0, current := 0, window_start := now\<rparr>
      else if elapsed \<ge> w
        then slot\<lparr>previous := current slot, current := 0, window_start := window_start slot + w\<rparr>
      else slot)"

definition clamp :: "rat \<Rightarrow> rat \<Rightarrow> rat \<Rightarrow> rat" where
  "clamp lo hi x = (if x < lo then lo else if x > hi then hi else x)"

definition estimated_hits :: "rate_slot \<Rightarrow> nat \<Rightarrow> nat \<Rightarrow> rat" where
  "estimated_hits slot now w =
     (if w = 0 then of_nat (current slot)
      else
        (let overlap = clamp 0 1 (1 - of_nat (now - window_start slot) / of_nat w) in
         of_nat (previous slot) * overlap + of_nat (current slot)))"

definition slot_step :: "nat \<Rightarrow> nat \<Rightarrow> rate_slot option \<Rightarrow> nat \<Rightarrow> bool \<times> rate_slot" where
  "slot_step mx w s now =
     (let slot = advance_window
            (case s of Some s \<Rightarrow> s | None \<Rightarrow> \<lparr>window_start = now, current = 0, previous = 0\<rparr>) now w in
      if estimated_hits slot now w \<ge> of_nat mx then (False, slot)
      else (True, slot\<lparr>current := min u32_max (current slot + 1)\<rparr>))"

definition action_allow :: "(string \<Rightarrow> nat) \<Rightarrow> action_limiter \<Rightarrow> string \<Rightarrow> nat \<Rightarrow> bool \<times> action_limiter" where
  "action_allow hash_one rl key now =
     (let index = slot_index hash_one key;
          (ok, slot) = slot_step (max_hits rl) (limit_window rl) (slots rl ! index) now in
      (ok, rl\<lparr>slots := (slots rl)[index := Some slot]\<rparr>))"

definition action_retry_after :: "(string \<Rightarrow> nat) \<Rightarrow> action_limiter \<Rightarrow> string \<Rightarrow> nat \<Rightarrow> nat" where
  "action_retry_after hash_one rl key now =
     (case slots rl ! slot_index hash_one key of
        None \<Rightarrow> 1
      | Some slot \<Rightarrow>
          (let elapsed = now - window_start slot in max ((limit_window rl - elapsed) div 1000000000) 1))"

section \<open>Invariant\<close>

definition slot_ok :: "nat \<Rightarrow> rate_slot option \<Rightarrow> bool" where
  "slot_ok mx s \<longleftrightarrow>
     (case s of None \<Rightarrow> True | Some s \<Rightarrow> current s \<le> mx \<and> previous s \<le> mx \<and> current s \<le> u32_max \<and> previous s \<le> u32_max)"

definition action_limiter_inv :: "action_limiter \<Rightarrow> bool" where
  "action_limiter_inv rl \<longleftrightarrow>
     length (slots rl) = ACTION_RATE_LIMIT_SLOTS \<and> list_all (slot_ok (max_hits rl)) (slots rl)"

lemma slot_index_less: "slot_index hash_one k < ACTION_RATE_LIMIT_SLOTS"
  by (simp add: slot_index_def ACTION_RATE_LIMIT_SLOTS_def)

lemma advance_window_ok:
  "slot_ok mx (Some s) \<Longrightarrow> slot_ok mx (Some (advance_window s now w))"
  by (simp add: advance_window_def slot_ok_def Let_def)

lemma estimated_hits_ge: "of_nat (current s) \<le> estimated_hits s now w"
  by (simp add: estimated_hits_def clamp_def Let_def)

lemma slot_step_ok:
  assumes "slot_ok mx s"
  shows "slot_ok mx (Some (snd (slot_step mx w s now)))"
proof -
  let ?s = "case s of Some s \<Rightarrow> s | None \<Rightarrow> \<lparr>window_start = now, current = 0, previous = 0\<rparr>"
  let ?a = "advance_window ?s now w"
  have a: "slot_ok mx (Some ?a)"
    using assms by (intro advance_window_ok) (simp add: slot_ok_def split: option.splits)
  have "current ?a < mx" if "\<not> estimated_hits ?a now w \<ge> of_nat mx"
    using that estimated_hits_ge [of ?a now w] by (metis of_nat_less_iff le_less_trans not_le)
  with a show ?thesis
    by (auto simp: slot_step_def slot_ok_def Let_def)
qed

lemma action_allow_inv:
  assumes "action_limiter_inv rl"
  shows "action_limiter_inv (snd (action_allow hash_one rl k now))"
proof -
  have "slot_ok (max_hits rl) (slots rl ! slot_index hash_one k)"
    using assms slot_index_less [of hash_one k] by (simp add: action_limiter_inv_def list_all_length)
  then have "slot_ok (max_hits rl)
      (Some (snd (slot_step (max_hits rl) (limit_window rl) (slots rl ! slot_index hash_one k) now)))"
    by (rule slot_step_ok)
  with assms show ?thesis
    by (auto simp: action_limiter_inv_def action_allow_def Let_def split_def list_all_iff
        dest!: set_update_subset_insert [THEN subsetD])
qed

definition action_allow_step :: "(string \<Rightarrow> nat) \<Rightarrow> action_limiter \<Rightarrow> string \<times> nat \<Rightarrow> action_limiter" where
  "action_allow_step hash_one rl e = snd (action_allow hash_one rl (fst e) (snd e))"

interpretation slots_inv: step_invariant "action_allow_step hash_one" action_limiter_inv
  for hash_one
  by unfold_locales (simp add: action_allow_step_def action_allow_inv)

lemma new_action_limiter_inv: "action_limiter_inv (new_action_limiter mx w)"
  by (simp add: action_limiter_inv_def new_action_limiter_def slot_ok_def list_all_iff)

section \<open>Isolation\<close>

fun run_actions :: "(string \<Rightarrow> nat) \<Rightarrow> action_limiter \<Rightarrow> (string \<times> nat) list \<Rightarrow> (string \<times> bool) list" where
  "run_actions hash_one rl [] = []"
| "run_actions hash_one rl ((k, now) # es) =
     (let (ok, rl') = action_allow hash_one rl k now in (k, ok) # run_actions hash_one rl' es)"

fun run_slot :: "nat \<Rightarrow> nat \<Rightarrow> rate_slot option \<Rightarrow> nat list \<Rightarrow> bool list" where
  "run_slot mx w s [] = []"
| "run_slot mx w s (now # ts) =
     (let (ok, s') = slot_step mx w s now in ok # run_slot mx w (Some s') ts)"

lemma run_actions_slot:
  assumes "length (slots rl) = ACTION_RATE_LIMIT_SLOTS" "i < ACTION_RATE_LIMIT_SLOTS"
  shows "map snd (filter (\<lambda>(k, _). slot_index hash_one k = i) (run_actions hash_one rl es)) =
     run_slot (max_hits rl) (limit_window rl) (slots rl ! i)
       (map snd (filter (\<lambda>(k, _). slot_index hash_one k = i) es))"
  using assms
proof (induction hash_one rl es rule: run_actions.induct)
  case (2 hash_one rl k now es)
  obtain ok rl' where step: "action_allow hash_one rl k now = (ok, rl')" by fastforce
  have rl': "length (slots rl') = ACTION_RATE_LIMIT_SLOTS" "max_hits rl' = max_hits rl"
    "limit_window rl' = limit_window rl"
    using step 2 by (auto simp: action_allow_def Let_def split_def)
  have IH: "map snd (filter (\<lambda>(k, _). slot_index hash_one k = i) (run_actions hash_one rl' es)) =
     run_slot (max_hits rl') (limit_window rl') (slots rl' ! i)
       (map snd (filter (\<lambda>(k, _). slot_index hash_one k = i) es))"
    using 2 step rl' by simp
  show ?case
  proof (cases "slot_index hash_one k = i")
    case True
    obtain ok' s' where s': "slot_step (max_hits rl) (limit_window rl) (slots rl ! i) now = (ok', s')"
      by fastforce
    with True step have "ok' = ok" "rl' = rl\<lparr>slots := (slots rl)[i := Some s']\<rparr>"
      by (simp_all add: action_allow_def)
    with True step IH rl' s' "2.prems" show ?thesis by simp
  next
    case False
    then have "slots rl' ! i = slots rl ! i"
      using step by (auto simp: action_allow_def Let_def split_def)
    with False step IH rl' show ?thesis by simp
  qed
qed simp

text \<open>No client is denied on another's behalf: the answers given to one slot are those a single pair of
  windows gives to that slot's requests alone, whatever other requests are interleaved.\<close>

theorem action_limiter_isolation:
  "map snd (filter (\<lambda>(k, _). slot_index hash_one k = slot_index hash_one key)
       (run_actions hash_one (new_action_limiter mx w) es)) =
   run_slot mx w None (map snd (filter (\<lambda>(k, _). slot_index hash_one k = slot_index hash_one key) es))"
  using run_actions_slot [of "new_action_limiter mx w" "slot_index hash_one key" hash_one es]
  by (simp add: new_action_limiter_def slot_index_less)

section \<open>What the windows allow\<close>

text \<open>Two adjacent windows do not bound a burst to \<open>max_hits\<close> over any window: with two hits per
  eight seconds, three requests within 7.75 seconds are all admitted.\<close>

theorem action_window_burst:
  "run_slot 2 8000000000 None [0, 7500000000, 15250000000, 15250000000] = [True, True, True, True]"
  by (simp add: slot_step_def advance_window_def estimated_hits_def clamp_def u32_max_def Let_def)

text \<open>The advertised wait is not always enough: a client refused half a second into a two-second
  window is told to wait one second, and is refused again after waiting it.\<close>

theorem action_retry_after_too_short:
  "\<exists>rl rl'. action_allow hash_one (new_action_limiter 1 2000000000) k 0 = (True, rl) \<and>
     action_allow hash_one rl k 500000000 = (False, rl') \<and>
     action_retry_after hash_one rl' k 500000000 = 1 \<and>
     \<not> fst (action_allow hash_one rl' k (500000000 + 1 * 1000000000))"
proof -
  have i: "slot_index hash_one k < length (replicate ACTION_RATE_LIMIT_SLOTS None)"
    by (simp add: slot_index_less)
  note i' = i [simplified]
  show ?thesis
    by (simp add: action_allow_def new_action_limiter_def action_retry_after_def i' slot_step_def
        advance_window_def estimated_hits_def clamp_def u32_max_def Let_def)
qed

end
