(* ===== verification/Action_Security.thy ===== *)
theory Action_Security
  imports Client_Ip
begin

text \<open>
  Admission of server-action requests: the stateless checks of
  \<open>src/crates/ruvyxa_dev_server/src/action_security.rs\<close> (body size, media type, origin and fetch metadata,
  payload) and the reference that binds a request to one version of an action's source.

  A refusal is a status and a message. \<open>serde_json\<close> is a parameter. \<open>None\<close> is the arithmetic panic of
  the proxy comparison (\<open>Client_Ip\<close>).
\<close>

section \<open>Text helpers\<close>

fun split_once_str :: "string \<Rightarrow> string \<Rightarrow> (string \<times> string) option" where
  "split_once_str pat [] = (if pat = [] then Some ([], []) else None)"
| "split_once_str pat (c # cs) =
     (if starts_with (c # cs) pat then Some ([], drop (length pat) (c # cs))
      else map_option (\<lambda>(a, b). (c # a, b)) (split_once_str pat cs))"

text \<open>\<open>headers.get(name).and_then(to_str)\<close>, filtered to a non-empty value.\<close>

definition header_nonempty :: "headers \<Rightarrow> string \<Rightarrow> string option" where
  "header_nonempty h name =
     (case header_str h name of Some v \<Rightarrow> if v \<noteq> [] then Some v else None | None \<Rightarrow> None)"

text \<open>\<open>std::str::from_utf8\<close>: the well-formed byte sequences of the Unicode standard.\<close>

definition utf8_cont :: "nat \<Rightarrow> bool" where
  "utf8_cont b \<longleftrightarrow> 128 \<le> b \<and> b \<le> 191"

fun utf8_tail :: "nat \<Rightarrow> nat \<Rightarrow> nat \<Rightarrow> nat list \<Rightarrow> nat list option" where
  "utf8_tail lo hi n [] = None"
| "utf8_tail lo hi n (b # bs) =
     (if lo \<le> b \<and> b \<le> hi then (if n \<le> 1 then Some bs else utf8_tail 128 191 (n - 1) bs) else None)"

lemma utf8_tail_shorter: "utf8_tail lo hi n bs = Some r \<Longrightarrow> length r < length bs"
  by (induction lo hi n bs rule: utf8_tail.induct) (auto split: if_splits)

function utf8_valid :: "nat list \<Rightarrow> bool" where
  "utf8_valid [] = True"
| "utf8_valid (b # bs) =
     (if b < 128 then utf8_valid bs
      else
        (case (if 194 \<le> b \<and> b \<le> 223 then utf8_tail 128 191 1 bs
               else if b = 224 then utf8_tail 160 191 2 bs
               else if b = 237 then utf8_tail 128 159 2 bs
               else if 225 \<le> b \<and> b \<le> 239 then utf8_tail 128 191 2 bs
               else if b = 240 then utf8_tail 144 191 3 bs
               else if 241 \<le> b \<and> b \<le> 243 then utf8_tail 128 191 3 bs
               else if b = 244 then utf8_tail 128 143 3 bs
               else None)
         of None \<Rightarrow> False | Some r \<Rightarrow> utf8_valid r))"
  by pat_completeness auto
termination
  by (relation "measure length") (auto dest!: utf8_tail_shorter split: if_splits)

section \<open>Configuration\<close>

text \<open>The fields of \<open>ServerConfig\<close> the checks read.\<close>

record server_config =
  action_body_limit_bytes :: nat
  same_origin_actions :: bool
  fetch_metadata_actions :: bool
  config_trusted_proxies :: trusted_proxies

type_synonym refusal = "nat \<times> string"

section \<open>Origin policy\<close>

definition action_fetch_site_is_cross_site :: "headers \<Rightarrow> bool" where
  "action_fetch_site_is_cross_site h =
     (case header_str h ''sec-fetch-site'' of
        None \<Rightarrow> False | Some v \<Rightarrow> eq_ignore_ascii_case v ''cross-site'')"

definition parse_forwarded_scheme :: "string option \<Rightarrow> string option" where
  "parse_forwarded_scheme value =
     (case value of
        None \<Rightarrow> None
      | Some v \<Rightarrow>
          (let s = trim (hd (split_on (CHR '','') v)) in
           if eq_ignore_ascii_case s ''https'' then Some ''https''
           else if eq_ignore_ascii_case s ''http'' then Some ''http''
           else None))"

text \<open>The last field line, from a trusted peer only.\<close>

definition forwarded_scheme :: "headers \<Rightarrow> server_config \<Rightarrow> ip_addr \<Rightarrow> string option option" where
  "forwarded_scheme h config peer =
     (case is_trusted_proxy_ip (config_trusted_proxies config) peer of
        None \<Rightarrow> None
      | Some False \<Rightarrow> Some None
      | Some True \<Rightarrow>
          (let lines = h ''x-forwarded-proto'' in
           Some (parse_forwarded_scheme (if lines = [] then None else last lines))))"

definition origin_is_cross_site :: "headers \<Rightarrow> string option \<Rightarrow> bool" where
  "origin_is_cross_site h trusted_scheme =
     (case header_nonempty h ''origin'' of
        None \<Rightarrow>
          \<not> (case header_str h ''sec-fetch-site'' of
               None \<Rightarrow> False | Some v \<Rightarrow> eq_ignore_ascii_case v ''same-origin'')
      | Some origin \<Rightarrow>
          (case header_nonempty h ''host'' of
             None \<Rightarrow> True
           | Some host \<Rightarrow>
               (case (case split_once_str ''://'' origin of
                        Some (s, v) \<Rightarrow> if CHR ''/'' \<notin> set v \<and> v \<noteq> [] then Some (s, v) else None
                      | None \<Rightarrow> None)
                of None \<Rightarrow> True
                 | Some (origin_scheme, origin_host) \<Rightarrow>
                     if \<not> eq_ignore_ascii_case origin_host host then True
                     else (case trusted_scheme of
                             Some scheme \<Rightarrow> \<not> eq_ignore_ascii_case origin_scheme scheme
                           | None \<Rightarrow> False))))"

definition action_origin_is_cross_site :: "headers \<Rightarrow> server_config \<Rightarrow> ip_addr \<Rightarrow> bool option" where
  "action_origin_is_cross_site h config peer =
     map_option (origin_is_cross_site h) (forwarded_scheme h config peer)"

definition hmr_origin_is_cross_site :: "headers \<Rightarrow> server_config \<Rightarrow> ip_addr \<Rightarrow> bool option" where
  "hmr_origin_is_cross_site h config peer =
     (if h ''origin'' = [] then Some (action_fetch_site_is_cross_site h)
      else action_origin_is_cross_site h config peer)"

section \<open>Media type and payload\<close>

definition action_content_type :: "headers \<Rightarrow> string option" where
  "action_content_type h =
     (case header_str h ''content-type'' of
        None \<Rightarrow> None
      | Some v \<Rightarrow>
          (let content_type = trim (hd (split_on (CHR '';'') v)) in
           if eq_ignore_ascii_case content_type ''application/json'' then Some ''application/json''
           else if eq_ignore_ascii_case content_type ''application/x-www-form-urlencoded''
             then Some ''application/x-www-form-urlencoded''
           else None))"

definition action_content_type_is_supported :: "headers \<Rightarrow> bool" where
  "action_content_type_is_supported h \<longleftrightarrow> action_content_type h \<noteq> None"

definition validate_action_request ::
  "headers \<Rightarrow> nat \<Rightarrow> server_config \<Rightarrow> ip_addr \<Rightarrow> refusal option option" where
  "validate_action_request h body_len config peer =
     (if body_len > action_body_limit_bytes config then Some (Some (413, ''Action payload is too large''))
      else if \<not> action_content_type_is_supported h
        then Some (Some (415, ''Action payload must be JSON or URL-encoded form data''))
      else
        (case (if same_origin_actions config then action_origin_is_cross_site h config peer else Some False) of
           None \<Rightarrow> None
         | Some True \<Rightarrow> Some (Some (403, ''Cross-origin action request blocked''))
         | Some False \<Rightarrow>
             if fetch_metadata_actions config \<and> action_fetch_site_is_cross_site h
             then Some (Some (403, ''Cross-site action request blocked''))
             else Some None))"

definition validate_action_payload ::
  "(string \<Rightarrow> bool) \<Rightarrow> headers \<Rightarrow> string \<Rightarrow> refusal + string \<times> string" where
  "validate_action_payload json_ok h body =
     (case action_content_type h of
        None \<Rightarrow> Inl (415, ''Action payload must declare JSON or URL-encoded form data'')
      | Some content_type \<Rightarrow>
          if \<not> utf8_valid (map byte body) then Inl (400, ''Action payload must be valid UTF-8'')
          else
            (let payload = (if body = [] \<and> content_type = ''application/json'' then ''{}'' else body) in
             if content_type = ''application/json'' \<and> \<not> json_ok payload
             then Inl (400, ''Action JSON payload is malformed'')
             else Inr (content_type, payload)))"

section \<open>Attribution and references\<close>

record action_query =
  query_path :: string
  query_name :: string
  query_id :: "string option"

definition action_client_ip :: "ip_addr \<Rightarrow> headers \<Rightarrow> server_config \<Rightarrow> ip_addr option" where
  "action_client_ip peer h config = client_ip peer h (config_trusted_proxies config)"

definition action_rate_limit_key ::
  "ip_addr \<Rightarrow> headers \<Rightarrow> action_query \<Rightarrow> server_config \<Rightarrow> string option" where
  "action_rate_limit_key peer h query config =
     map_option (\<lambda>c. show_ip c @ '':'' @ query_path query @ '':'' @ query_name query)
       (action_client_ip peer h config)"

text \<open>FNV-1a over the route id, a zero byte and the source.\<close>

definition fnv_step :: "64 word \<Rightarrow> nat \<Rightarrow> 64 word" where
  "fnv_step hash b = (hash XOR of_nat b) * 0x100000001b3"

definition hex16 :: "64 word \<Rightarrow> string" where
  "hex16 w =
     map (\<lambda>i. let d = uint (drop_bit (4 * i) w) mod 16 in char_of (if d < 10 then d + 48 else d + 87))
       (rev [0..<16])"

definition action_reference_id :: "string \<Rightarrow> string \<Rightarrow> string" where
  "action_reference_id route_id source =
     ''a_'' @ hex16 (foldl fnv_step 0xcbf29ce484222325 (map byte route_id @ 0 # map byte source))"

section \<open>The origin decision\<close>

lemma split_once_str_Some:
  "split_once_str pat s = Some (a, b) \<Longrightarrow> s = a @ pat @ b \<and> (pat \<noteq> [] \<longrightarrow> \<not> contains_str a pat)"
proof (induction pat s arbitrary: a rule: split_once_str.induct)
  case (2 pat c cs)
  show ?case
  proof (cases "starts_with (c # cs) pat")
    case True
    with 2 show ?thesis by (auto simp: starts_with_iff)
  next
    case False
    with 2 obtain a' where a: "a = c # a'" "split_once_str pat cs = Some (a', b)" by auto
    with 2 False have IH: "cs = a' @ pat @ b" "pat \<noteq> [] \<longrightarrow> \<not> contains_str a' pat" by auto
    have "\<not> starts_with (c # a') pat" using False IH(1) by (metis append_Cons append_assoc starts_with_iff)
    with a IH show ?thesis by simp
  qed
qed (auto split: if_splits)

text \<open>The separator cannot overlap its own start, so a scheme without it is cut at the first occurrence.\<close>

lemma split_once_scheme:
  "\<not> contains_str s ''://'' \<Longrightarrow> split_once_str ''://'' (s @ ''://'' @ v) = Some (s, v)"
proof (induction s)
  case (Cons c s)
  have "\<not> starts_with (c # s @ ''://'' @ v) ''://''"
  proof
    assume *: "starts_with (c # s @ ''://'' @ v) ''://''"
    then have "starts_with (c # s) ''://''"
      by (cases s; cases "tl s") (auto simp: starts_with_def)
    with Cons.prems show False by simp
  qed
  with Cons show ?case by simp
qed (simp add: starts_with_def)

lemma header_nonempty_Some [simp]:
  "header_nonempty h n = Some v \<longleftrightarrow> header_str h n = Some v \<and> v \<noteq> []"
  by (auto simp: header_nonempty_def split: option.splits)

lemma header_nonempty_None [simp]:
  "header_nonempty h n = None \<longleftrightarrow> header_str h n = None \<or> header_str h n = Some []"
  by (auto simp: header_nonempty_def split: option.splits)

lemma origin_present_iff:
  assumes "header_str h ''origin'' = Some orig" "orig \<noteq> []"
  shows "\<not> origin_is_cross_site h ts \<longleftrightarrow>
     (\<exists>host s v. header_str h ''host'' = Some host \<and> host \<noteq> [] \<and> orig = s @ ''://'' @ v \<and>
        \<not> contains_str s ''://'' \<and> CHR ''/'' \<notin> set v \<and> v \<noteq> [] \<and> eq_ignore_ascii_case v host \<and>
        (case ts of None \<Rightarrow> True | Some t \<Rightarrow> eq_ignore_ascii_case s t))"
proof -
  have orig: "header_nonempty h ''origin'' = Some orig" using assms by simp
  show ?thesis
  proof
    assume *: "\<not> origin_is_cross_site h ts"
    then obtain host where host: "header_nonempty h ''host'' = Some host"
      by (auto simp: origin_is_cross_site_def orig split: option.splits)
    with * orig obtain s v where cut: "split_once_str ''://'' orig = Some (s, v)" "CHR ''/'' \<notin> set v" "v \<noteq> []"
      by (auto simp: origin_is_cross_site_def split: option.splits prod.splits if_splits)
    have "eq_ignore_ascii_case v host" "case ts of None \<Rightarrow> True | Some t \<Rightarrow> eq_ignore_ascii_case s t"
      using * orig host cut by (auto simp: origin_is_cross_site_def split: option.splits if_splits)
    with host cut split_once_str_Some [OF cut(1)]
    show "\<exists>host s v. header_str h ''host'' = Some host \<and> host \<noteq> [] \<and> orig = s @ ''://'' @ v \<and>
        \<not> contains_str s ''://'' \<and> CHR ''/'' \<notin> set v \<and> v \<noteq> [] \<and> eq_ignore_ascii_case v host \<and>
        (case ts of None \<Rightarrow> True | Some t \<Rightarrow> eq_ignore_ascii_case s t)" by auto
  next
    assume "\<exists>host s v. header_str h ''host'' = Some host \<and> host \<noteq> [] \<and> orig = s @ ''://'' @ v \<and>
        \<not> contains_str s ''://'' \<and> CHR ''/'' \<notin> set v \<and> v \<noteq> [] \<and> eq_ignore_ascii_case v host \<and>
        (case ts of None \<Rightarrow> True | Some t \<Rightarrow> eq_ignore_ascii_case s t)"
    then obtain host s v where *: "header_nonempty h ''host'' = Some host"
      "split_once_str ''://'' orig = Some (s, v)" "CHR ''/'' \<notin> set v" "v \<noteq> []" "eq_ignore_ascii_case v host"
      "case ts of None \<Rightarrow> True | Some t \<Rightarrow> eq_ignore_ascii_case s t"
      using split_once_scheme by auto
    then show "\<not> origin_is_cross_site h ts"
      by (simp add: origin_is_cross_site_def orig split: option.splits)
  qed
qed

text \<open>A request passes as same-site exactly when it has no \<open>Origin\<close> and the browser states
  \<open>same-origin\<close> fetch metadata, or its \<open>Origin\<close> is a scheme and the request's own \<open>Host\<close>, with
  no path, and the scheme is the one a trusted proxy stated if one did.\<close>

theorem origin_policy:
  "\<not> origin_is_cross_site h ts \<longleftrightarrow>
     (header_nonempty h ''origin'' = None \<and>
        (\<exists>v. header_str h ''sec-fetch-site'' = Some v \<and> eq_ignore_ascii_case v ''same-origin'')) \<or>
     (\<exists>host s v. header_str h ''origin'' = Some (s @ ''://'' @ v) \<and> header_str h ''host'' = Some host \<and> host \<noteq> [] \<and>
        \<not> contains_str s ''://'' \<and> CHR ''/'' \<notin> set v \<and> v \<noteq> [] \<and> eq_ignore_ascii_case v host \<and>
        (case ts of None \<Rightarrow> True | Some t \<Rightarrow> eq_ignore_ascii_case s t))"
proof (cases "header_nonempty h ''origin''")
  case None
  then have "\<not> (\<exists>s v. header_str h ''origin'' = Some (s @ ''://'' @ v))" by auto
  with None show ?thesis
    by (auto simp: origin_is_cross_site_def split: option.splits)
next
  case (Some orig)
  then have "header_str h ''origin'' = Some orig" "orig \<noteq> []" by simp_all
  from origin_present_iff [OF this, of ts] Some show ?thesis by auto
qed

end
