(* ===== verification/Action_Endpoint.thy ===== *)
theory Action_Endpoint
  imports Radix_Router Replay_Guard Action_Limiter Action_Security
begin

text \<open>
  The server-action endpoint: \<open>action_endpoint\<close> and \<open>action_rate_limit_refusal\<close> of
  \<open>src/crates/ruvyxa_dev_server/src/framework_endpoints.rs\<close>, and \<open>action_file_for\<close> of
  \<open>render_pipeline.rs\<close>. The handler composes the checks of \<open>Action_Security\<close>, the limiter, the router and
  the replay guard, in this order, and only then asks a worker to run the action.

  What the handler finds in its environment is part of the event it serves: the route snapshot
  (\<open>None\<close> when taking it failed), the files (a path is a file when it is in the domain, and reads as its
  contents unless reading failed), and the time that passed before each reading of the clock. What the worker
  answers once the action is dispatched, and the security headers put on every response, are outside the
  model. \<open>None\<close> as the result is the arithmetic panic of the proxy comparison.
\<close>

section \<open>The handler\<close>

record action_state =
  action_limiter :: Action_Limiter.action_limiter
  limiter_poisoned :: bool
  action_replays :: replay_guard

record action_event =
  ev_peer :: ip_addr
  ev_headers :: headers
  ev_query :: action_query
  ev_body :: string
  ev_snapshot :: "(route_manifest \<times> radix_router) option"
  ev_files :: "path \<rightharpoonup> string option"
  ev_before_limiter :: nat
  ev_before_retry :: nat
  ev_before_replay :: nat

record action_env =
  env_config :: server_config
  env_hash :: "string \<Rightarrow> nat"
  env_json_ok :: "string \<Rightarrow> bool"

datatype action_outcome =
    Refused nat string "nat option"
  | Dispatched string string

definition action_file_for :: "(path \<rightharpoonup> string option) \<Rightarrow> route_entry \<Rightarrow> path option" where
  "action_file_for files route =
     (case entry_file route of
        [] \<Rightarrow> None
      | file \<Rightarrow> List.find (\<lambda>p. files p \<noteq> None)
                  (map (\<lambda>name. butlast file @ [name]) [''action.ts'', ''action.js'']))"

definition action_rate_limit_refusal ::
  "action_env \<Rightarrow> action_state \<Rightarrow> string \<Rightarrow> nat \<Rightarrow> nat \<Rightarrow> action_outcome option \<times> action_state" where
  "action_rate_limit_refusal env st rate_key now later =
     (if limiter_poisoned st then (Some (Refused 503 ''Service temporarily unavailable'' None), st)
      else
        (let (ok, rl) = action_allow (env_hash env) (action_limiter st) rate_key now;
             st' = st\<lparr>action_limiter := rl\<rparr> in
         if ok then (None, st')
         else (Some (Refused 429 ''Action rate limit exceeded''
                       (Some (action_retry_after (env_hash env) rl rate_key later))), st')))"

text \<open>The version check of a request that names an action reference.\<close>

definition check_reference :: "action_event \<Rightarrow> string \<Rightarrow> action_outcome option" where
  "check_reference ev provided =
     (case ev_snapshot ev of
        None \<Rightarrow> Some (Refused 500 ''Internal Server Error'' None)
      | Some (manifest, router) \<Rightarrow>
          (case find router manifest (query_path (ev_query ev)) of
             None \<Rightarrow> Some (Refused 404 ''Route not found for action'' None)
           | Some rm \<Rightarrow>
               (case action_file_for (ev_files ev) (matched_route rm) of
                  None \<Rightarrow> Some (Refused 404 ''Route action file was not found'' None)
                | Some file \<Rightarrow>
                    (case ev_files ev file of
                       Some (Some source) \<Rightarrow>
                         if action_reference_id (entry_id (matched_route rm)) source \<noteq> provided
                         then Some (Refused 409 ''Action reference is stale or invalid'' None)
                         else None
                     | _ \<Rightarrow> Some (Refused 500 ''Internal Server Error'' None)))))"

definition action_endpoint ::
  "action_env \<Rightarrow> nat \<Rightarrow> action_state \<Rightarrow> action_event \<Rightarrow> (action_outcome \<times> action_state) option" where
  "action_endpoint env t st ev =
     (let h = ev_headers ev; config = env_config env;
          at_limiter = t + ev_before_limiter ev;
          at_retry = at_limiter + ev_before_retry ev;
          at_replay = at_retry + ev_before_replay ev in
      case validate_action_request h (length (ev_body ev)) config (ev_peer ev) of
        None \<Rightarrow> None
      | Some (Some (status, message)) \<Rightarrow> Some (Refused status message None, st)
      | Some None \<Rightarrow>
          (case validate_action_payload (env_json_ok env) h (ev_body ev) of
             Inl (status, message) \<Rightarrow> Some (Refused status message None, st)
           | Inr (content_type, payload) \<Rightarrow>
               (case action_rate_limit_key (ev_peer ev) h (ev_query ev) config of
                  None \<Rightarrow> None
                | Some rate_key \<Rightarrow>
                    (case action_rate_limit_refusal env st rate_key at_limiter at_retry of
                       (Some refusal, st) \<Rightarrow> Some (refusal, st)
                     | (None, st) \<Rightarrow>
                         (case query_id (ev_query ev) of
                            None \<Rightarrow> Some (Dispatched content_type payload, st)
                          | Some provided \<Rightarrow>
                              (case check_reference ev provided of
                                 Some refusal \<Rightarrow> Some (refusal, st)
                               | None \<Rightarrow>
                                   (case action_client_ip (ev_peer ev) h config of
                                      None \<Rightarrow> None
                                    | Some client \<Rightarrow>
                                        (case consume (action_replays st) at_replay h provided client of
                                           (Inl rejection, g) \<Rightarrow>
                                             Some (Refused (replay_status rejection) (replay_message rejection) None,
                                                   st\<lparr>action_replays := g\<rparr>)
                                         | (Inr _, g) \<Rightarrow>
                                             Some (Dispatched content_type payload, st\<lparr>action_replays := g\<rparr>)))))))))"

definition event_end :: "nat \<Rightarrow> action_event \<Rightarrow> nat" where
  "event_end t ev = t + ev_before_limiter ev + ev_before_retry ev + ev_before_replay ev"

text \<open>A run of the endpoint. A request that panics ends with its connection and changes nothing.\<close>

fun run_endpoint :: "action_env \<Rightarrow> nat \<Rightarrow> action_state \<Rightarrow> action_event list \<Rightarrow> nat \<times> action_state" where
  "run_endpoint env t st [] = (t, st)"
| "run_endpoint env t st (ev # evs) =
     run_endpoint env (event_end t ev) (case action_endpoint env t st ev of None \<Rightarrow> st | Some (_, st') \<Rightarrow> st') evs"

section \<open>What a dispatch has passed\<close>

lemma validate_pass:
  "validate_action_request h n config peer = Some None \<Longrightarrow>
     n \<le> action_body_limit_bytes config \<and> action_content_type h \<noteq> None \<and>
     (same_origin_actions config \<longrightarrow> action_origin_is_cross_site h config peer = Some False) \<and>
     (fetch_metadata_actions config \<longrightarrow> \<not> action_fetch_site_is_cross_site h)"
  by (auto simp: validate_action_request_def action_content_type_is_supported_def
      split: if_splits option.splits bool.splits)

lemma payload_pass:
  "validate_action_payload json_ok h body = Inr (ct, p) \<Longrightarrow>
     action_content_type h = Some ct \<and> utf8_valid (map byte body) \<and> (ct = ''application/json'' \<longrightarrow> json_ok p)"
  by (auto simp: validate_action_payload_def Let_def split: option.splits if_splits)

lemma rate_pass:
  "action_rate_limit_refusal env st key now later = (None, st') \<Longrightarrow>
     \<not> limiter_poisoned st \<and> fst (action_allow (env_hash env) (action_limiter st) key now) \<and>
     action_replays st' = action_replays st"
  by (auto simp: action_rate_limit_refusal_def Let_def split: if_splits prod.splits)

lemma rate_replays:
  "action_rate_limit_refusal env st key now later = (r, st') \<Longrightarrow> action_replays st' = action_replays st"
  by (auto simp: action_rate_limit_refusal_def Let_def split: if_splits prod.splits)

lemma reference_pass:
  "check_reference ev r = None \<Longrightarrow>
     \<exists>manifest router rm file source. ev_snapshot ev = Some (manifest, router) \<and>
       find router manifest (query_path (ev_query ev)) = Some rm \<and>
       action_file_for (ev_files ev) (matched_route rm) = Some file \<and> ev_files ev file = Some (Some source) \<and>
       r = action_reference_id (entry_id (matched_route rm)) source"
  by (auto simp: check_reference_def split: option.splits if_splits)

lemma endpoint_dispatched:
  assumes "action_endpoint env t st ev = Some (Dispatched ct p, st')"
  obtains key st1 where
    "validate_action_request (ev_headers ev) (length (ev_body ev)) (env_config env) (ev_peer ev) = Some None"
    "validate_action_payload (env_json_ok env) (ev_headers ev) (ev_body ev) = Inr (ct, p)"
    "action_rate_limit_key (ev_peer ev) (ev_headers ev) (ev_query ev) (env_config env) = Some key"
    "action_rate_limit_refusal env st key (t + ev_before_limiter ev)
       (t + ev_before_limiter ev + ev_before_retry ev) = (None, st1)"
    "case query_id (ev_query ev) of
       None \<Rightarrow> st' = st1
     | Some r \<Rightarrow> check_reference ev r = None \<and>
         (\<exists>client g. action_client_ip (ev_peer ev) (ev_headers ev) (env_config env) = Some client \<and>
            consume (action_replays st1) (event_end t ev) (ev_headers ev) r client = (Inr (), g) \<and>
            st' = st1\<lparr>action_replays := g\<rparr>)"
proof -
  have refuse: False if "action_rate_limit_refusal env st k a b = (Some (Dispatched ct p), s)" for k a b s
    using that by (auto simp: action_rate_limit_refusal_def Let_def split: if_splits prod.splits)
  have refuse2: False if "check_reference ev r = Some (Dispatched ct p)" for r
    using that by (auto simp: check_reference_def split: option.splits if_splits)
  show ?thesis
    using assms that unfolding action_endpoint_def Let_def event_end_def
    by (auto split: option.splits sum.splits prod.splits dest: refuse refuse2)
qed

text \<open>C20. An action only reaches a worker after every gate: the body fits, the media type is one of two and
  the payload is well formed, neither the origin nor the fetch metadata is cross-site where the
  configuration asks, the limiter admitted the client, and a request that names an action reference names the
  one computed from the source the router's route has now and brought a nonce the guard accepted.\<close>

theorem dispatch_passed_every_gate:
  assumes "action_endpoint env t st ev = Some (Dispatched ct p, st')"
  shows "length (ev_body ev) \<le> action_body_limit_bytes (env_config env) \<and>
     ct \<in> {''application/json'', ''application/x-www-form-urlencoded''} \<and>
     (ct = ''application/json'' \<longrightarrow> env_json_ok env p) \<and> utf8_valid (map byte (ev_body ev)) \<and>
     (same_origin_actions (env_config env) \<longrightarrow>
        action_origin_is_cross_site (ev_headers ev) (env_config env) (ev_peer ev) = Some False) \<and>
     (fetch_metadata_actions (env_config env) \<longrightarrow> \<not> action_fetch_site_is_cross_site (ev_headers ev)) \<and>
     (\<exists>key. action_rate_limit_key (ev_peer ev) (ev_headers ev) (ev_query ev) (env_config env) = Some key \<and>
        fst (action_allow (env_hash env) (action_limiter st) key (t + ev_before_limiter ev))) \<and>
     (\<forall>r. query_id (ev_query ev) = Some r \<longrightarrow>
        (\<exists>manifest router rm file source client. ev_snapshot ev = Some (manifest, router) \<and>
           find router manifest (query_path (ev_query ev)) = Some rm \<and>
           action_file_for (ev_files ev) (matched_route rm) = Some file \<and> ev_files ev file = Some (Some source) \<and>
           r = action_reference_id (entry_id (matched_route rm)) source \<and>
           action_client_ip (ev_peer ev) (ev_headers ev) (env_config env) = Some client \<and>
           fst (consume (action_replays st) (event_end t ev) (ev_headers ev) r client) = Inr ()))"
proof -
  from assms obtain key st1 where
    v: "validate_action_request (ev_headers ev) (length (ev_body ev)) (env_config env) (ev_peer ev) = Some None"
    and pl: "validate_action_payload (env_json_ok env) (ev_headers ev) (ev_body ev) = Inr (ct, p)"
    and k: "action_rate_limit_key (ev_peer ev) (ev_headers ev) (ev_query ev) (env_config env) = Some key"
    and rt: "action_rate_limit_refusal env st key (t + ev_before_limiter ev)
       (t + ev_before_limiter ev + ev_before_retry ev) = (None, st1)"
    and id: "case query_id (ev_query ev) of
       None \<Rightarrow> st' = st1
     | Some r \<Rightarrow> check_reference ev r = None \<and>
         (\<exists>client g. action_client_ip (ev_peer ev) (ev_headers ev) (env_config env) = Some client \<and>
            consume (action_replays st1) (event_end t ev) (ev_headers ev) r client = (Inr (), g) \<and>
            st' = st1\<lparr>action_replays := g\<rparr>)"
    by (rule endpoint_dispatched)
  have ct: "ct \<in> {''application/json'', ''application/x-www-form-urlencoded''}"
    using payload_pass [OF pl] by (auto simp: action_content_type_def Let_def split: option.splits if_splits)
  have versioned: "\<forall>r. query_id (ev_query ev) = Some r \<longrightarrow>
        (\<exists>manifest router rm file source client. ev_snapshot ev = Some (manifest, router) \<and>
           find router manifest (query_path (ev_query ev)) = Some rm \<and>
           action_file_for (ev_files ev) (matched_route rm) = Some file \<and> ev_files ev file = Some (Some source) \<and>
           r = action_reference_id (entry_id (matched_route rm)) source \<and>
           action_client_ip (ev_peer ev) (ev_headers ev) (env_config env) = Some client \<and>
           fst (consume (action_replays st) (event_end t ev) (ev_headers ev) r client) = Inr ())"
    using id rate_pass [OF rt] by (auto dest!: reference_pass)
  show ?thesis
    using validate_pass [OF v] payload_pass [OF pl] k rate_pass [OF rt] ct versioned by blast
qed

section \<open>Nonces\<close>

lemma sweep_seen: "seen (sweep_loop now es s pc) \<subseteq> s"
  by (induction es arbitrary: s pc) auto

lemma consume_refused_seen:
  "consume g now h r c = (Inl rej, g') \<Longrightarrow> seen g' \<subseteq> seen g"
  using sweep_seen [of now "order g" "seen g" "per_client g"]
  by (auto simp: consume_def Let_def sweep_def split: if_splits)

text \<open>A refused request burns no nonce: whatever gate refused it, the guard remembers no key it did not
  remember before, so the client can send the same nonce again.\<close>

theorem refusal_burns_no_nonce:
  assumes "action_endpoint env t st ev = Some (Refused status message retry, st')"
  shows "seen (action_replays st') \<subseteq> seen (action_replays st)"
  using assms unfolding action_endpoint_def Let_def
  by (auto split: option.splits sum.splits prod.splits dest!: rate_replays consume_refused_seen)

lemma endpoint_guard_log:
  assumes "guard_log t (action_replays st) lg"
  shows "\<exists>lg'. set lg \<subseteq> set lg' \<and>
     guard_log (event_end t ev)
       (action_replays (case action_endpoint env t st ev of None \<Rightarrow> st | Some (_, st') \<Rightarrow> st')) lg'"
proof -
  let ?st' = "case action_endpoint env t st ev of None \<Rightarrow> st | Some (_, st') \<Rightarrow> st'"
  have le: "t \<le> event_end t ev" by (simp add: event_end_def)
  have "action_replays ?st' = action_replays st \<or>
      (\<exists>r c. action_replays ?st' = snd (consume (action_replays st) (event_end t ev) (ev_headers ev) r c))"
    unfolding action_endpoint_def Let_def event_end_def
    by (auto split: option.splits sum.splits prod.splits dest!: rate_replays) (metis snd_conv)+
  then show ?thesis
  proof
    assume "action_replays ?st' = action_replays st"
    with guard_log_later [OF assms le] show ?thesis by auto
  next
    assume "\<exists>r c. action_replays ?st' = snd (consume (action_replays st) (event_end t ev) (ev_headers ev) r c)"
    with consume_refines(2) [OF assms le] log_consume_grows show ?thesis by metis
  qed
qed

lemma run_endpoint_guard_log:
  "guard_log t (action_replays st) lg \<Longrightarrow> run_endpoint env t st evs = (t', st') \<Longrightarrow>
   \<exists>lg'. set lg \<subseteq> set lg' \<and> guard_log t' (action_replays st') lg'"
proof (induction evs arbitrary: t st lg)
  case (Cons ev evs)
  from endpoint_guard_log [OF Cons.prems(1), of ev env] obtain lg1 where lg1: "set lg \<subseteq> set lg1"
    and g1: "guard_log (event_end t ev)
       (action_replays (case action_endpoint env t st ev of None \<Rightarrow> st | Some (_, st') \<Rightarrow> st')) lg1" by blast
  from Cons.IH [OF g1] Cons.prems(2) obtain lg' where "set lg1 \<subseteq> set lg'" "guard_log t' (action_replays st') lg'"
    by auto
  with lg1 show ?case by blast
qed auto

lemma dispatched_consume:
  assumes "action_endpoint env t st ev = Some (Dispatched ct p, st')" "query_id (ev_query ev) = Some r"
  obtains client where
    "consume (action_replays st) (event_end t ev) (ev_headers ev) r client = (Inr (), action_replays st')"
  by (rule endpoint_dispatched [OF assms(1)]) (use assms(2) in \<open>auto dest!: rate_pass intro: that\<close>)

text \<open>C6. A versioned action runs at most once per time to live: from a fresh guard, when a request with an
  action reference was dispatched, no later request with the same reference and nonce is dispatched within
  the time to live, whatever requests were served before and between.\<close>

theorem action_dispatched_once:
  assumes "action_replays st0 = new_guard"
    and "run_endpoint env t0 st0 pre = (t, st)"
    and "action_endpoint env t st ev = Some (Dispatched ct p, st1)"
    and "query_id (ev_query ev) = Some r"
    and "run_endpoint env (event_end t ev) st1 mid = (t2, st2)"
    and "query_id (ev_query ev2) = Some r"
    and "request_nonce (ev_headers ev2) = request_nonce (ev_headers ev)"
    and "event_end t2 ev2 < event_end t ev + ACTION_NONCE_TTL"
  shows "action_endpoint env t2 st2 ev2 \<noteq> Some (Dispatched ct' p', st3)"
proof
  assume again: "action_endpoint env t2 st2 ev2 = Some (Dispatched ct' p', st3)"
  have "guard_log t0 (action_replays st0) []" by (simp add: assms(1) guard_log_new)
  from run_endpoint_guard_log [OF this assms(2)] obtain lg where lg: "guard_log t (action_replays st) lg"
    by auto
  have le: "t \<le> event_end t ev" "t2 \<le> event_end t2 ev2" by (simp_all add: event_end_def)
  obtain client where c:
    "consume (action_replays st) (event_end t ev) (ev_headers ev) r client = (Inr (), action_replays st1)"
    by (rule dispatched_consume [OF assms(3,4)])
  let ?lg1 = "snd (log_consume lg (event_end t ev) (ev_headers ev) r client)"
  let ?a = "\<lparr>acc_at = event_end t ev, acc_reference = r, acc_nonce = request_nonce (ev_headers ev), acc_client = client\<rparr>"
  note first = consume_refines [OF lg le(1), of "ev_headers ev" r client]
  have acc: "valid_nonce (request_nonce (ev_headers ev))" "?a \<in> set ?lg1"
    using log_consume_accept [of lg "event_end t ev" "ev_headers ev" r client] first(1) c by simp_all
  have "guard_log (event_end t ev) (action_replays st1) ?lg1"
    using first(2) c by simp
  from run_endpoint_guard_log [OF this assms(5)] obtain lg2 where lg2: "set ?lg1 \<subseteq> set lg2"
    "guard_log t2 (action_replays st2) lg2" by blast
  obtain client' where c':
    "consume (action_replays st2) (event_end t2 ev2) (ev_headers ev2) r client' = (Inr (), action_replays st3)"
    by (rule dispatched_consume [OF again assms(6)])
  have "fst (log_consume lg2 (event_end t2 ev2) (ev_headers ev2) r client') = Inl Replayed"
    using acc lg2(1) assms(7,8) by (intro log_consume_replayed [of _ ?a]) auto
  then show False
    using consume_refines(1) [OF lg2(2) le(2), of "ev_headers ev2" r client'] c' by simp
qed

section \<open>A served request\<close>

definition demo_env :: action_env where
  "demo_env =
     \<lparr>env_config = \<lparr>action_body_limit_bytes = 100, same_origin_actions = True, fetch_metadata_actions = True,
        config_trusted_proxies = []\<rparr>,
      env_hash = (\<lambda>_. 0), env_json_ok = (\<lambda>_. True)\<rparr>"

definition demo_headers :: headers where
  "demo_headers name =
     (if name = ''content-type'' then [Some ''application/json; charset=utf-8'']
      else if name = ''origin'' then [Some ''https://Example.com'']
      else if name = ''host'' then [Some ''example.com'']
      else if name = ''x-ruvyxa-action-nonce'' then [Some ''0123456789abcdef''] else [])"

definition demo_event :: action_event where
  "demo_event =
     \<lparr>ev_peer = V4 3405803783, ev_headers = demo_headers,
      ev_query = \<lparr>query_path = ''/blog/featured'', query_name = ''save'',
        query_id = Some (action_reference_id ''/blog/featured'' ''x'')\<rparr>,
      ev_body = [], ev_snapshot = Some (blog_manifest, compile blog_manifest),
      ev_files = [[''action.js''] \<mapsto> Some ''x''],
      ev_before_limiter = 1, ev_before_retry = 1, ev_before_replay = 1\<rparr>"

definition demo_state :: action_state where
  "demo_state =
     \<lparr>action_limiter = \<lparr>slots = [None], max_hits = 5, limit_window = 10\<rparr>, limiter_poisoned = False,
      action_replays = new_guard\<rparr>"

lemma demo_checks:
  "validate_action_request demo_headers 0 (env_config demo_env) (V4 3405803783) = Some None"
  "validate_action_payload (env_json_ok demo_env) demo_headers [] = Inr (''application/json'', ''{}'')"
  "action_client_ip (V4 3405803783) demo_headers (env_config demo_env) = Some (V4 3405803783)"
  "check_reference demo_event (action_reference_id ''/blog/featured'' ''x'') = None"
  by code_simp+

lemma demo_rate:
  "fst (action_rate_limit_refusal demo_env demo_state key 1 2) = None"
  by (simp add: action_rate_limit_refusal_def demo_env_def demo_state_def action_allow_def slot_index_def
      slot_step_def advance_window_def estimated_hits_def clamp_def Let_def)

lemma demo_consume: "fst (consume new_guard now demo_headers r c) = Inr ()"
proof -
  have "request_nonce demo_headers = ''0123456789abcdef''"
    by (simp add: request_nonce_def demo_headers_def header_str_def)
  moreover have "valid_nonce ''0123456789abcdef''" by code_simp
  ultimately show ?thesis
    by (simp add: consume_def new_guard_def sweep_def Let_def ACTION_NONCE_MAX_ENTRIES_def)
qed

lemma demo_too_large:
  "case action_endpoint demo_env 0 demo_state (demo_event\<lparr>ev_body := replicate 101 (CHR ''x'')\<rparr>) of
     Some (Refused s m r, st') \<Rightarrow> s = 413 | _ \<Rightarrow> False"
  by code_simp

lemma demo_dispatchedE:
  obtains st' where
    "action_endpoint demo_env 0 demo_state demo_event = Some (Dispatched ''application/json'' ''{}'', st')"
proof -
  let ?r = "action_reference_id ''/blog/featured'' ''x''"
  obtain key where key: "action_rate_limit_key (V4 3405803783) demo_headers (ev_query demo_event) (env_config demo_env) = Some key"
    using demo_checks(3) by (simp add: action_rate_limit_key_def)
  obtain st1 where st1: "action_rate_limit_refusal demo_env demo_state key 1 2 = (None, st1)"
    using demo_rate [of key] by (metis prod.collapse)
  have "action_replays st1 = new_guard" using rate_replays [OF st1] by (simp add: demo_state_def)
  then obtain g where g: "consume (action_replays st1) 3 demo_headers ?r (V4 3405803783) = (Inr (), g)"
    using demo_consume [of 3 ?r] by (metis prod.collapse)
  have ev: "ev_headers demo_event = demo_headers" "ev_peer demo_event = V4 3405803783" "ev_body demo_event = []"
    "query_id (ev_query demo_event) = Some ?r"
    "ev_before_limiter demo_event = 1" "ev_before_retry demo_event = 1" "ev_before_replay demo_event = 1"
    by (simp_all add: demo_event_def)
  have "action_endpoint demo_env 0 demo_state demo_event =
      Some (Dispatched ''application/json'' ''{}'', st1\<lparr>action_replays := g\<rparr>)"
    using demo_checks key st1 g unfolding action_endpoint_def Let_def ev by (simp add: numeral_2_eq_2 numeral_3_eq_3)
  then show ?thesis by (rule that)
qed

theorem dispatch_passed_every_gate_witness:
  "\<exists>rm. find (compile blog_manifest) blog_manifest ''/blog/featured'' = Some rm \<and>
     action_reference_id ''/blog/featured'' ''x'' = action_reference_id (entry_id (matched_route rm)) ''x''"
proof -
  obtain st' where st':
    "action_endpoint demo_env 0 demo_state demo_event = Some (Dispatched ''application/json'' ''{}'', st')"
    by (rule demo_dispatchedE)
  obtain rm f source where
    "find (compile blog_manifest) blog_manifest ''/blog/featured'' = Some rm"
    "ev_files demo_event f = Some (Some source)"
    "action_reference_id ''/blog/featured'' ''x'' = action_reference_id (entry_id (matched_route rm)) source"
    using dispatch_passed_every_gate [OF st'] by (auto simp: demo_event_def)
  moreover from this(2) have "source = ''x''" by (simp add: demo_event_def split: if_splits)
  ultimately show ?thesis by blast
qed

theorem refusal_burns_no_nonce_witness:
  "\<exists>m r st'. action_endpoint demo_env 0 demo_state (demo_event\<lparr>ev_body := replicate 101 (CHR ''x'')\<rparr>) =
       Some (Refused 413 m r, st') \<and>
     seen (action_replays st') \<subseteq> seen (action_replays demo_state)"
proof -
  obtain m r st' where st':
    "action_endpoint demo_env 0 demo_state (demo_event\<lparr>ev_body := replicate 101 (CHR ''x'')\<rparr>) =
       Some (Refused 413 m r, st')"
    using demo_too_large by (auto split: option.splits prod.splits action_outcome.splits)
  with refusal_burns_no_nonce [OF st'] show ?thesis by blast
qed

theorem action_dispatched_once_witness:
  "\<exists>st1. action_endpoint demo_env 0 demo_state demo_event = Some (Dispatched ''application/json'' ''{}'', st1) \<and>
     (\<forall>ct p st3. action_endpoint demo_env 3 st1 demo_event \<noteq> Some (Dispatched ct p, st3))"
proof -
  obtain st1 where st1:
    "action_endpoint demo_env 0 demo_state demo_event = Some (Dispatched ''application/json'' ''{}'', st1)"
    by (rule demo_dispatchedE)
  have "action_endpoint demo_env 3 st1 demo_event \<noteq> Some (Dispatched ct p, st3)" for ct p st3
    by (rule action_dispatched_once [of demo_state demo_env 0 "[]" 0 demo_state demo_event _ _ st1 _ "[]" 3 st1, OF _ _ st1])
      (simp_all add: demo_state_def event_end_def demo_event_def ACTION_NONCE_TTL_def)
  with st1 show ?thesis by blast
qed

end
