(* ===== verification/Worklist.thy ===== *)
theory Worklist
  imports Prelude
begin

text \<open>
  The breadth-first walk several crates write out: a queue, a set of visited nodes, and a function that
  answers a node's successors while threading a cache. The locale states what the cache has to promise and
  shows once that the walk ends and visits exactly the reachable nodes.
\<close>

partial_function (option) explore ::
  "('s \<Rightarrow> 'n \<Rightarrow> 'n list \<times> 's) \<Rightarrow> 'n list \<Rightarrow> 'n set \<Rightarrow> 's \<Rightarrow> ('n set \<times> 's) option" where
  [code]: "explore edges queue visited s =
     (case queue of
        [] \<Rightarrow> Some (visited, s)
      | n # rest \<Rightarrow>
          if n \<in> visited then explore edges rest visited s
          else (case edges s n of (es, s') \<Rightarrow> explore edges (rest @ es) (insert n visited) s'))"

text \<open>What every step on an unvisited node keeps, the walk keeps.\<close>

lemma explore_keeps:
  assumes "explore edges queue visited s = Some (V, s')" "Q visited s"
    and "\<And>n visited s. n \<notin> visited \<Longrightarrow> Q visited s \<Longrightarrow> Q (insert n visited) (snd (edges s n))"
  shows "Q V s'"
proof -
  have "edges = edges \<longrightarrow> Q visited s \<longrightarrow> Q (fst (V, s')) (snd (V, s'))"
  proof (rule explore.raw_induct [where P = "\<lambda>e q v s y. e = edges \<longrightarrow> Q v s \<longrightarrow> Q (fst y) (snd y)", OF _ assms(1)])
    fix walk edges' queue visited s y
    assume IH: "\<And>e queue visited s y. walk e queue visited s = Some y \<Longrightarrow> e = edges \<longrightarrow> Q visited s \<longrightarrow> Q (fst y) (snd y)"
      and body: "(case queue of [] \<Rightarrow> Some (visited, s)
        | n # rest \<Rightarrow> if n \<in> visited then walk edges' rest visited s
                   else (case edges' s n of (es, s') \<Rightarrow> walk edges' (rest @ es) (insert n visited) s')) = Some y"
    show "edges' = edges \<longrightarrow> Q visited s \<longrightarrow> Q (fst y) (snd y)"
    proof (cases queue)
      case Nil
      with body show ?thesis by auto
    next
      case (Cons n rest)
      with body IH assms(3) [of n visited s] show ?thesis by (auto split: if_splits prod.splits)
    qed
  qed
  with assms(2) show ?thesis by simp
qed

definition reach :: "('n \<Rightarrow> 'n list) \<Rightarrow> 'n \<Rightarrow> 'n set" where
  "reach succ n = {m. (n, m) \<in> {(a, b). b \<in> set (succ a)}\<^sup>*}"

lemma reach_refl [simp]: "n \<in> reach succ n"
  by (simp add: reach_def)

lemma reach_step: "m \<in> reach succ n \<Longrightarrow> k \<in> set (succ m) \<Longrightarrow> k \<in> reach succ n"
  unfolding reach_def by (auto intro: rtrancl_into_rtrancl)

lemma reach_least:
  assumes "n \<in> A" "\<And>a b. a \<in> A \<Longrightarrow> b \<in> set (succ a) \<Longrightarrow> b \<in> A"
  shows "reach succ n \<subseteq> A"
proof
  fix m
  assume "m \<in> reach succ n"
  then have "(n, m) \<in> {(a, b). b \<in> set (succ a)}\<^sup>*" by (simp add: reach_def)
  then show "m \<in> A" by (induction rule: rtrancl_induct) (use assms in auto)
qed

lemma reach_trans: "m \<in> reach succ n \<Longrightarrow> reach succ m \<subseteq> reach succ n"
  by (rule reach_least) (auto intro: reach_step)

locale cached_successors =
  fixes edges :: "'s \<Rightarrow> 'n \<Rightarrow> 'n list \<times> 's"
    and succ :: "'n \<Rightarrow> 'n list"
    and ok :: "'s \<Rightarrow> bool"
  assumes edges_succ: "ok s \<Longrightarrow> fst (edges s n) = succ n"
    and edges_ok: "ok s \<Longrightarrow> ok (snd (edges s n))"
begin

lemma explore_visits:
  assumes "finite R" "visited \<subseteq> R" "set queue \<subseteq> R" "ok s"
    and "\<And>a b. a \<in> R \<Longrightarrow> b \<in> set (succ a) \<Longrightarrow> b \<in> R"
    and "\<And>a. a \<in> visited \<Longrightarrow> set (succ a) \<subseteq> visited \<union> set queue"
  shows "\<exists>V s'. explore edges queue visited s = Some (V, s') \<and> ok s' \<and> visited \<union> set queue \<subseteq> V \<and> V \<subseteq> R \<and>
     (\<forall>a\<in>V. set (succ a) \<subseteq> V)"
  using assms
proof (induction "(card (R - visited), length queue)" arbitrary: visited queue s
    rule: wf_induct_rule [OF wf_lex_prod [OF wf_less wf_less]])
  case 1
  note IH = "1.hyps" and prems = "1.prems"
  show ?case
  proof (cases queue)
    case Nil
    with prems show ?thesis by (subst explore.simps) auto
  next
    case (Cons n rest)
    show ?thesis
    proof (cases "n \<in> visited")
      case True
      have "\<exists>V s'. explore edges rest visited s = Some (V, s') \<and> ok s' \<and> visited \<union> set rest \<subseteq> V \<and> V \<subseteq> R \<and>
          (\<forall>a\<in>V. set (succ a) \<subseteq> V)"
      proof (rule IH)
        show "set (succ a) \<subseteq> visited \<union> set rest" if "a \<in> visited" for a
          using prems(6) [OF that] Cons True by auto
      qed (use prems Cons in auto)
      with Cons True show ?thesis by (subst explore.simps) auto
    next
      case False
      obtain s' where s': "edges s n = (succ n, s')" "ok s'"
        using edges_succ [OF prems(4), of n] edges_ok [OF prems(4), of n] by (metis prod.collapse)
      have "n \<in> R - visited" using prems Cons False by auto
      then have "card (R - insert n visited) < card (R - visited)"
        using prems(1) by (metis Diff_insert card_Diff1_less finite_Diff)
      then have "\<exists>V s''. explore edges (rest @ succ n) (insert n visited) s' = Some (V, s'') \<and> ok s'' \<and>
          insert n visited \<union> set (rest @ succ n) \<subseteq> V \<and> V \<subseteq> R \<and> (\<forall>a\<in>V. set (succ a) \<subseteq> V)"
        using prems Cons s'(2) by (intro IH) fastforce+
      with Cons False s'(1) show ?thesis by (subst explore.simps) auto
    qed
  qed
qed

text \<open>The walk from one node returns, and returns what is reachable from it.\<close>

lemma explore_reach:
  assumes "finite (reach succ n)" "ok s"
  shows "\<exists>s'. explore edges [n] {} s = Some (reach succ n, s') \<and> ok s'"
proof -
  have "\<exists>V s'. explore edges [n] {} s = Some (V, s') \<and> ok s' \<and> {} \<union> set [n] \<subseteq> V \<and> V \<subseteq> reach succ n \<and>
      (\<forall>a\<in>V. set (succ a) \<subseteq> V)"
    by (rule explore_visits [OF assms(1) _ _ assms(2)]) (auto intro: reach_step)
  then obtain V s' where V: "explore edges [n] {} s = Some (V, s')" "ok s'" "n \<in> V" "V \<subseteq> reach succ n"
    "\<forall>a\<in>V. set (succ a) \<subseteq> V"
    by auto
  have "reach succ n \<subseteq> V" by (rule reach_least [OF V(3)]) (use V(5) in blast)
  with V(4) have "V = reach succ n" by (rule equalityI)
  with V(1,2) show ?thesis by (intro exI [of _ s']) (simp only:)
qed

end

section \<open>Depth first\<close>

text \<open>A recursive walk, written with the list of the calls still to make.\<close>

partial_function (option) descend :: "('n \<Rightarrow> 'n list) \<Rightarrow> 'n list \<Rightarrow> 'n set \<Rightarrow> 'n set option" where
  [code]: "descend succ calls visited =
     (case calls of
        [] \<Rightarrow> Some visited
      | n # rest \<Rightarrow>
          if n \<in> visited then descend succ rest visited
          else descend succ (succ n @ rest) (insert n visited))"

lemma descend_visits:
  assumes "finite R" "visited \<subseteq> R" "set calls \<subseteq> R"
    and "\<And>a b. a \<in> R \<Longrightarrow> b \<in> set (succ a) \<Longrightarrow> b \<in> R"
    and "\<And>a. a \<in> visited \<Longrightarrow> set (succ a) \<subseteq> visited \<union> set calls"
  shows "\<exists>V. descend succ calls visited = Some V \<and> visited \<union> set calls \<subseteq> V \<and> V \<subseteq> R \<and> (\<forall>a\<in>V. set (succ a) \<subseteq> V)"
  using assms
proof (induction "(card (R - visited), length calls)" arbitrary: visited calls
    rule: wf_induct_rule [OF wf_lex_prod [OF wf_less wf_less]])
  case 1
  note IH = "1.hyps" and prems = "1.prems"
  show ?case
  proof (cases calls)
    case Nil
    with prems show ?thesis by (subst descend.simps) auto
  next
    case (Cons n rest)
    show ?thesis
    proof (cases "n \<in> visited")
      case True
      have "\<exists>V. descend succ rest visited = Some V \<and> visited \<union> set rest \<subseteq> V \<and> V \<subseteq> R \<and> (\<forall>a\<in>V. set (succ a) \<subseteq> V)"
      proof (rule IH)
        show "set (succ a) \<subseteq> visited \<union> set rest" if "a \<in> visited" for a
          using prems(5) [OF that] Cons True by auto
      qed (use prems Cons in auto)
      with Cons True show ?thesis by (subst descend.simps) auto
    next
      case False
      have "n \<in> R - visited" using prems Cons False by auto
      then have "card (R - insert n visited) < card (R - visited)"
        using prems(1) by (metis Diff_insert card_Diff1_less finite_Diff)
      then have "\<exists>V. descend succ (succ n @ rest) (insert n visited) = Some V \<and>
          insert n visited \<union> set (succ n @ rest) \<subseteq> V \<and> V \<subseteq> R \<and> (\<forall>a\<in>V. set (succ a) \<subseteq> V)"
        using prems Cons by (intro IH) fastforce+
      with Cons False show ?thesis by (subst descend.simps) auto
    qed
  qed
qed

text \<open>From a closed set, the walk adds what is reachable.\<close>

lemma descend_reach:
  assumes "finite visited" "finite (reach succ n)" "\<And>a. a \<in> visited \<Longrightarrow> set (succ a) \<subseteq> visited"
  shows "descend succ [n] visited = Some (visited \<union> reach succ n)"
proof -
  let ?R = "visited \<union> reach succ n"
  have "\<exists>V. descend succ [n] visited = Some V \<and> visited \<union> set [n] \<subseteq> V \<and> V \<subseteq> ?R \<and> (\<forall>a\<in>V. set (succ a) \<subseteq> V)"
  proof (rule descend_visits)
    show "b \<in> ?R" if "a \<in> ?R" "b \<in> set (succ a)" for a b
      using that assms(3) [of a] reach_step [of a succ n b] by auto
  qed (use assms in auto)
  then obtain V where V: "descend succ [n] visited = Some V" "visited \<subseteq> V" "n \<in> V" "V \<subseteq> ?R" "\<forall>a\<in>V. set (succ a) \<subseteq> V" by auto
  have "reach succ n \<subseteq> V" by (rule reach_least [OF V(3)]) (use V(5) in blast)
  with V(2,4) have "V = ?R" by blast
  with V(1) show ?thesis by simp
qed

end
