(* ===== verification/Exports.thy ===== *)
theory Exports
  imports Prelude
begin

text \<open>
  Route exports read from source text: \<open>src/crates/ruvyxa_graph/src/exports.rs\<close>, and the directive
  prologue of \<open>src/crates/ruvyxa_bundler/src/references.rs\<close>. A declaration is located in the masked text
  (strings, comments and regular expressions blanked, offsets kept) and its value is cut out of the source.

  The masked text is an argument, as it is in the code. Slices are taken as \<open>take\<close> and \<open>drop\<close>: they
  agree with the code's wherever the two texts have the same length. A byte outside ASCII after the
  exported name counts as alphanumeric.
\<close>

section \<open>Lines\<close>

text \<open>\<open>str::lines\<close>: a line ends at a newline, which takes a carriage return before it with it; a
  final line without a newline keeps its carriage return.\<close>

definition strip_cr :: "string \<Rightarrow> string" where
  "strip_cr l = (if l \<noteq> [] \<and> last l = CHR 0x0D then butlast l else l)"

fun lines_of :: "string list \<Rightarrow> string list" where
  "lines_of [] = []"
| "lines_of [l] = (if l = [] then [] else [l])"
| "lines_of (l # m # ls) = strip_cr l # lines_of (m # ls)"

definition rust_lines :: "string \<Rightarrow> string list" where
  "rust_lines s = lines_of (split_on (CHR 0x0A) s)"

section \<open>Values\<close>

definition identifier_continues :: "char \<Rightarrow> bool" where
  "identifier_continues c \<longleftrightarrow> is_ascii_alphanumeric c \<or> byte c \<ge> 128 \<or> c = CHR ''_'' \<or> c = CHR ''$''"

text \<open>The scan for the assignment, with the byte before and the depth of the open brackets.\<close>

fun assignment_loop :: "nat \<Rightarrow> int \<Rightarrow> char option \<Rightarrow> string \<Rightarrow> nat option" where
  "assignment_loop i depth prev [] = None"
| "assignment_loop i depth prev (b # bs) =
     (if b \<in> set ''([{'' then assignment_loop (Suc i) (depth + 1) (Some b) bs
      else if b \<in> set '')]}'' then assignment_loop (Suc i) (depth - 1) (Some b) bs
      else if b = CHR ''='' \<and> depth = 0 then
        (if (case bs of f # _ \<Rightarrow> f = CHR ''='' \<or> f = CHR ''>'' | [] \<Rightarrow> False) \<or>
            (case prev of Some p \<Rightarrow> p \<in> set ''=!<>'' | None \<Rightarrow> False)
         then assignment_loop (Suc i) depth (Some b) bs
         else Some i)
      else assignment_loop (Suc i) depth (Some b) bs)"

definition assignment_offset :: "string \<Rightarrow> nat option" where
  "assignment_offset after = assignment_loop 0 0 None after"

text \<open>The end of a quoted literal: a backslash skips the byte after it.\<close>

fun literal_loop :: "char \<Rightarrow> nat \<Rightarrow> string \<Rightarrow> nat option" where
  "literal_loop quote i [] = None"
| "literal_loop quote i [b] = (if b \<noteq> CHR 0x5C \<and> b = quote then Some (i + 1) else None)"
| "literal_loop quote i (b # c # bs) =
     (if b = CHR 0x5C then literal_loop quote (i + 2) bs
      else if b = quote then Some (i + 1)
      else literal_loop quote (i + 1) (c # bs))"

text \<open>\<open>u8::is_ascii_whitespace\<close> has no vertical tab.\<close>

definition is_ascii_whitespace :: "char \<Rightarrow> bool" where
  "is_ascii_whitespace c \<longleftrightarrow> c \<in> {CHR '' '', CHR 0x09, CHR 0x0A, CHR 0x0C, CHR 0x0D}"

definition quoted_literal_end :: "string \<Rightarrow> nat option" where
  "quoted_literal_end tail =
     (let start = length (takeWhile is_ascii_whitespace tail) in
      case drop start tail of
        [] \<Rightarrow> None
      | quote # rest \<Rightarrow>
          if quote \<in> {CHR 0x27, CHR 0x22, CHR 0x60} then literal_loop quote (start + 1) rest else None)"

definition slice :: "string \<Rightarrow> nat \<Rightarrow> nat \<Rightarrow> string" where
  "slice s a b = take (b - a) (drop a s)"

text \<open>What the loop of \<open>export_const_value\<close> makes of one line: no match, or the value (\<open>None\<close> where the
  function returns \<open>None\<close>).\<close>

definition export_line :: "string \<Rightarrow> string \<Rightarrow> nat \<Rightarrow> string \<Rightarrow> string option option" where
  "export_line source pre start line =
     (let indent = length line - length (trim_start line) in
      case strip_prefix (drop indent line) pre of
        None \<Rightarrow> None
      | Some after \<Rightarrow>
          if (case after of c # _ \<Rightarrow> identifier_continues c | [] \<Rightarrow> False) then None
          else
            (case assignment_offset after of
               None \<Rightarrow> None
             | Some equals \<Rightarrow>
                 (let value_start = indent + length pre + equals + 1;
                      masked_tail = drop value_start line;
                      raw_tail = slice source (start + value_start) (start + length line) in
                  Some (case (if trim masked_tail = [] then quoted_literal_end raw_tail
                              else Some (length (trim_end masked_tail)))
                        of None \<Rightarrow> None
                         | Some e \<Rightarrow>
                             if e \<le> length raw_tail then
                               (let value = trim (take e raw_tail) in if value \<noteq> [] then Some value else None)
                             else None))))"

fun export_const_loop :: "string \<Rightarrow> string \<Rightarrow> nat \<Rightarrow> string list \<Rightarrow> string option" where
  "export_const_loop source pre start [] = None"
| "export_const_loop source pre start (line # lines) =
     (case export_line source pre start line of
        Some r \<Rightarrow> r
      | None \<Rightarrow> export_const_loop source pre (start + length line + 1) lines)"

definition export_const_value :: "string \<Rightarrow> string \<Rightarrow> string \<Rightarrow> string option" where
  "export_const_value source masked name =
     export_const_loop source (''export const '' @ name) 0 (rust_lines masked)"

definition trim_semicolons :: "string \<Rightarrow> string" where
  "trim_semicolons s = rev (dropWhile (\<lambda>c. c = CHR '';'') (rev s))"

definition has_export_const_bool :: "string \<Rightarrow> string \<Rightarrow> string \<Rightarrow> bool \<Rightarrow> bool" where
  "has_export_const_bool source masked name expected =
     (case export_const_value source masked name of
        None \<Rightarrow> False
      | Some v \<Rightarrow> trim (trim_semicolons v) = (if expected then ''true'' else ''false''))"

definition parse_export_const_number :: "string \<Rightarrow> string \<Rightarrow> string \<Rightarrow> nat option" where
  "parse_export_const_number source masked name =
     (case export_const_value source masked name of
        None \<Rightarrow> None
      | Some v \<Rightarrow> map_option nat (parse_unsigned (2 ^ 64) (trim (trim_semicolons v))))"

definition declares_function :: "string \<Rightarrow> string \<Rightarrow> bool" where
  "declares_function line pattern =
     (case strip_prefix (trim line) pattern of
        None \<Rightarrow> False
      | Some rest \<Rightarrow> (case rest of [] \<Rightarrow> True | c # _ \<Rightarrow> is_space c \<or> c \<in> set ''(<:=''))"

definition has_export_function :: "string \<Rightarrow> string \<Rightarrow> bool" where
  "has_export_function code name =
     list_ex (\<lambda>line. list_ex (declares_function line)
         [''export function '' @ name, ''export async function '' @ name, ''export const '' @ name])
       (rust_lines code)"

definition STATIC_PARAMS_EXPORTS :: "string list" where
  "STATIC_PARAMS_EXPORTS = [''getStaticParams'', ''staticParams'', ''generateStaticParams'']"

definition has_static_params_export :: "string \<Rightarrow> bool" where
  "has_static_params_export code = list_ex (has_export_function code) STATIC_PARAMS_EXPORTS"

section \<open>Directives\<close>

definition bom :: string where
  "bom = [CHR 0xEF, CHR 0xBB, CHR 0xBF]"

fun find_str :: "string \<Rightarrow> string \<Rightarrow> nat option" where
  "find_str pat [] = (if pat = [] then Some 0 else None)"
| "find_str pat (c # cs) = (if starts_with (c # cs) pat then Some 0 else map_option Suc (find_str pat cs))"

lemma length_trim_start: "length (trim_start s) \<le> length s"
  by (simp add: trim_start_def length_dropWhile_le)

function skip_leading_trivia :: "string \<Rightarrow> string" where
  "skip_leading_trivia src =
     (let s = trim_start src in
      case strip_prefix s ''//'' of
        Some comment \<Rightarrow> skip_leading_trivia (dropWhile (\<lambda>c. c \<noteq> CHR 0x0D \<and> c \<noteq> CHR 0x0A) comment)
      | None \<Rightarrow>
          (case strip_prefix s ''/*'' of
             Some comment \<Rightarrow>
               (case find_str ''*/'' comment of None \<Rightarrow> [] | Some e \<Rightarrow> skip_leading_trivia (drop (e + 2) comment))
           | None \<Rightarrow> s))"
  by pat_completeness auto
termination
proof (relation "measure length")
  fix src s comment :: string
  assume "s = trim_start src" "strip_prefix s ''//'' = Some comment"
  then have "Suc (length comment) < length src"
    using length_trim_start [of src] by (auto simp: strip_prefix_Some_iff)
  then show "(dropWhile (\<lambda>c. c \<noteq> CHR 0x0D \<and> c \<noteq> CHR 0x0A) comment, src) \<in> measure length"
    using length_dropWhile_le [of "\<lambda>c. c \<noteq> CHR 0x0D \<and> c \<noteq> CHR 0x0A" comment] by simp
next
  fix src s comment :: string and e
  assume "s = trim_start src" "strip_prefix s ''/*'' = Some comment"
  then have "length comment < length src"
    using length_trim_start [of src] by (auto simp: strip_prefix_Some_iff)
  then show "(drop (e + 2) comment, src) \<in> measure length" by auto
qed simp

declare skip_leading_trivia.simps [simp del]

definition directive :: "string \<Rightarrow> string option" where
  "directive source =
     (let s = skip_leading_trivia (trim_start_matches bom source) in
      List.find (\<lambda>d. list_ex (\<lambda>quote. starts_with s (quote # d @ [quote])) [CHR 0x27, CHR 0x22])
        [''use client'', ''use server'', ''use cache''])"

definition has_module_directive :: "string \<Rightarrow> string \<Rightarrow> bool" where
  "has_module_directive source expected \<longleftrightarrow> directive source = Some expected"

section \<open>A declared value is found\<close>

lemma strip_cr_free: "CHR 0x0D \<notin> set l \<Longrightarrow> strip_cr l = l"
  unfolding strip_cr_def by (metis last_in_set)

lemma lines_of_append:
  "\<forall>l\<in>set pre. CHR 0x0D \<notin> set l \<Longrightarrow> CHR 0x0D \<notin> set line \<Longrightarrow> line \<noteq> [] \<Longrightarrow>
   \<exists>rest. lines_of (pre @ line # post) = pre @ line # rest"
proof (induction pre)
  case Nil
  then show ?case by (cases post) (auto simp: strip_cr_free)
next
  case (Cons l pre)
  then obtain rest where "lines_of (pre @ line # post) = pre @ line # rest" by auto
  with Cons.prems show ?case by (cases pre) (auto simp: strip_cr_free)
qed

lemma export_line_other:
  "\<not> starts_with (trim_start m) p \<Longrightarrow> export_line source p start m = None"
proof -
  assume *: "\<not> starts_with (trim_start m) p"
  have "drop (length m - length (trim_start m)) m = trim_start m"
    unfolding trim_start_def by (metis append_eq_conv_conj length_append add_diff_cancel_right' takeWhile_dropWhile_id)
  with * show ?thesis by (simp add: export_line_def strip_prefix_def Let_def)
qed

definition joined_length :: "string list \<Rightarrow> nat" where
  "joined_length ls = sum_list (map (\<lambda>l. length l + 1) ls)"

lemma export_const_loop_skip:
  "\<forall>m\<in>set before. \<not> starts_with (trim_start m) p \<Longrightarrow>
   export_const_loop source p start (before @ ls) = export_const_loop source p (start + joined_length before) ls"
  by (induction before arbitrary: start) (simp_all add: export_line_other joined_length_def ac_simps)

lemma drop_joined: "drop (joined_length before) (join_with [c] (before @ line # after)) = join_with [c] (line # after)"
proof (induction before)
  case (Cons b before)
  then show ?case by (cases before) (simp_all add: joined_length_def)
qed (simp add: joined_length_def)

lemma slice_joined:
  assumes "joined_length bs = joined_length before" "a \<le> b" "b \<le> length line"
  shows "slice (join_with [c] (bs @ line # after)) (joined_length before + a) (joined_length before + b) =
     take (b - a) (drop a line)"
proof -
  have "drop (joined_length before + a) (join_with [c] (bs @ line # after)) = drop a (join_with [c] (line # after))"
    using drop_joined [of bs c line after] assms(1) by (metis add.commute drop_drop)
  moreover obtain z where "join_with [c] (line # after) = line @ z" by (cases after) auto
  ultimately show ?thesis using assms by (simp add: slice_def)
qed

text \<open>What masking leaves of a value: the value itself when it is code, blanks when it is one string literal.\<close>

definition masks_value :: "string \<Rightarrow> string \<Rightarrow> bool" where
  "masks_value mv v \<longleftrightarrow>
     v \<noteq> [] \<and> \<not> is_space (hd v) \<and> \<not> is_space (last v) \<and>
     (mv = v \<or>
      (\<exists>q body. mv = replicate (length v) (CHR '' '') \<and> v = q # body @ [q] \<and>
         q \<in> {CHR 0x27, CHR 0x22, CHR 0x60} \<and> q \<notin> set body \<and> CHR 0x5C \<notin> set body))"

lemma trim_ends: "v \<noteq> [] \<Longrightarrow> \<not> is_space (hd v) \<Longrightarrow> \<not> is_space (last v) \<Longrightarrow> trim (CHR '' '' # v) = v"
proof -
  assume v: "v \<noteq> []" "\<not> is_space (hd v)" "\<not> is_space (last v)"
  then obtain x xs where "v = x # xs" "\<not> is_space x" by (cases v) auto
  then have "dropWhile is_space (CHR '' '' # v) = v" by (simp add: is_space_def [of "CHR '' ''"])
  moreover have "dropWhile is_space (rev v) = rev v"
    using v by (cases "rev v") (auto simp: rev_swap last_rev hd_rev dest: arg_cong [of _ _ hd])
  ultimately show ?thesis by (simp add: trim_def)
qed

lemma trim_end_last: "v \<noteq> [] \<Longrightarrow> \<not> is_space (last v) \<Longrightarrow> trim_end (w @ v) = w @ v"
proof -
  assume v: "v \<noteq> []" "\<not> is_space (last v)"
  then have "dropWhile is_space (rev v @ rev w) = rev v @ rev w"
    by (cases "rev v") (auto simp: last_rev dest: arg_cong [of _ _ last])
  then show ?thesis by (simp add: trim_end_def)
qed

lemma trim_blank: "trim (replicate n (CHR '' '')) = []"
  by (induction n) (auto simp: trim_def is_space_def)

lemma literal_loop_body:
  "q \<notin> set body \<Longrightarrow> CHR 0x5C \<notin> set body \<Longrightarrow> q \<noteq> CHR 0x5C \<Longrightarrow>
   literal_loop q i (body @ [q]) = Some (i + length body + 1)"
proof (induction body arbitrary: i)
  case (Cons b body)
  then show ?case by (cases body) auto
qed simp

lemma assignment_blank: "assignment_offset ('' = '' @ v) = Some 1"
  by (simp add: assignment_offset_def)

lemma value_end:
  assumes "masks_value mv v"
  shows "(if trim (CHR '' '' # mv) = [] then quoted_literal_end (CHR '' '' # v)
     else Some (length (trim_end (CHR '' '' # mv)))) = Some (length v + 1)"
proof -
  have v: "v \<noteq> []" "\<not> is_space (hd v)" "\<not> is_space (last v)" using assms by (auto simp: masks_value_def)
  consider "mv = v" | q body where "mv = replicate (length v) (CHR '' '')" "v = q # body @ [q]"
    "q \<in> {CHR 0x27, CHR 0x22, CHR 0x60}" "q \<notin> set body" "CHR 0x5C \<notin> set body"
    using assms by (auto simp: masks_value_def)
  then show ?thesis
  proof cases
    case 1
    with v show ?thesis using trim_end_last [of v "'' ''"] by (simp add: trim_ends)
  next
    case 2
    have "\<not> is_ascii_whitespace q" using 2(3) by (auto simp: is_ascii_whitespace_def)
    moreover have "literal_loop q 2 (body @ [q]) = Some (2 + length body + 1)"
      using 2 by (intro literal_loop_body) auto
    moreover have "trim (CHR '' '' # mv) = []"
      using trim_blank [of "Suc (length v)"] 2(1) by simp
    ultimately show ?thesis
      using 2(2,3) by (simp add: quoted_literal_end_def is_ascii_whitespace_def numeral_2_eq_2)
  qed
qed

lemma export_line_value:
  assumes "trim_start line = line" and line: "line = p @ '' = '' @ mv"
    and raw: "slice source (start + (length p + 2)) (start + length line) = CHR '' '' # v"
    and mask: "masks_value mv v"
  shows "export_line source p start line = Some (Some v)"
proof -
  have v: "v \<noteq> []" "\<not> is_space (hd v)" "\<not> is_space (last v)" using mask by (auto simp: masks_value_def)
  have cut: "strip_prefix line p = Some ('' = '' @ mv)" using line by (simp add: strip_prefix_Some_iff)
  have tail: "drop (length p + 2) line = CHR '' '' # mv" by (simp add: line)
  have vs: "length line - length (trim_start line) + length p + 1 + 1 = length p + 2" by (simp add: assms(1))
  have id: "\<not> identifier_continues (CHR '' '')" by (simp add: identifier_continues_def str_simps)
  have z: "drop (length line - length (trim_start line)) line = line" by (simp add: assms(1))
  show ?thesis
    unfolding export_line_def Let_def z cut option.case assignment_blank vs tail raw value_end [OF mask]
    using v id by (simp add: trim_ends)
qed

text \<open>A value declared on its own line is found and read from the source: with any text around it and
  whatever masking made of the other lines, provided lines keep their length and hold no carriage return,
  the value of the first \<open>export const name = value\<close> is returned whole, be it code or a string literal.\<close>

theorem export_const_value_found:
  assumes "map length masked_before = map length before"
    and "\<forall>m\<in>set masked_before. CHR 0x0A \<notin> set m \<and> CHR 0x0D \<notin> set m \<and>
           \<not> starts_with (trim_start m) (''export const '' @ name)"
    and "\<forall>m\<in>set masked_after. CHR 0x0A \<notin> set m"
    and "masks_value mv v"
    and "CHR 0x0A \<notin> set (name @ mv)" "CHR 0x0D \<notin> set (name @ mv)"
  shows "export_const_value
      (join_with [CHR 0x0A] (before @ (''export const '' @ name @ '' = '' @ v) # after))
      (join_with [CHR 0x0A] (masked_before @ (''export const '' @ name @ '' = '' @ mv) # masked_after)) name = Some v"
proof -
  let ?p = "''export const '' @ name" and ?line = "''export const '' @ name @ '' = '' @ mv"
  let ?raw = "''export const '' @ name @ '' = '' @ v"
  let ?source = "join_with [CHR 0x0A] (before @ ?raw # after)"
  have len: "length mv = length v" using assms(4) by (auto simp: masks_value_def)
  have off: "joined_length before = joined_length masked_before"
    using arg_cong [OF assms(1), of "\<lambda>ns. sum_list (map (\<lambda>n. n + 1) ns)"]
    unfolding joined_length_def by (simp add: comp_def del: sum_list_addf)
  obtain rest where rest: "lines_of (masked_before @ ?line # masked_after) = masked_before @ ?line # rest"
    using lines_of_append [of masked_before ?line masked_after] assms(2,6) by auto
  have "split_on (CHR 0x0A) (join_with [CHR 0x0A] (masked_before @ ?line # masked_after)) =
      masked_before @ ?line # masked_after"
    using assms(2,3,5) by (intro split_on_join) auto
  then have lines: "rust_lines (join_with [CHR 0x0A] (masked_before @ ?line # masked_after)) = masked_before @ ?line # rest"
    by (simp only: rust_lines_def rest)
  have "\<not> is_space (CHR ''e'')" by (simp add: is_space_def str_simps)
  then have indent: "trim_start ?line = ?line" by (simp add: trim_start_def)
  have raw: "slice ?source (joined_length masked_before + (length ?p + 2)) (joined_length masked_before + length ?line) =
      CHR '' '' # v"
    by (subst slice_joined [OF off]) (simp_all add: len)
  have "export_line ?source ?p (joined_length masked_before) ?line = Some (Some v)"
    by (rule export_line_value [OF indent _ raw assms(4)]) simp
  then have "export_const_loop ?source ?p (0 + joined_length masked_before) (?line # rest) = Some v"
    by simp
  then show ?thesis
    unfolding export_const_value_def lines
    using export_const_loop_skip [of masked_before ?p ?source 0 "?line # rest"] assms(2) by metis
qed

text \<open>A page whose string is masked away, with a commented-out declaration above the real one.\<close>

theorem export_const_value_found_witness:
  "export_const_value
      (join_with [CHR 0x0A]
        ([''// export const hydrate = false''] @
         (''export const '' @ ''hydrate'' @ '' = '' @ [CHR 0x27] @ ''idle'' @ [CHR 0x27]) # [''fetch(x)'']))
      (join_with [CHR 0x0A]
        ([''                               ''] @
         (''export const '' @ ''hydrate'' @ '' = '' @ ''      '') # [''fetch(x)''])) ''hydrate'' =
    Some ([CHR 0x27] @ ''idle'' @ [CHR 0x27])"
proof (rule export_const_value_found)
  have "masks_value (replicate (length (CHR 0x27 # ''idle'' @ [CHR 0x27])) (CHR '' '')) (CHR 0x27 # ''idle'' @ [CHR 0x27])"
    unfolding masks_value_def by (auto simp: is_space_def str_simps)
  then show "masks_value ''      '' ([CHR 0x27] @ ''idle'' @ [CHR 0x27])" by (simp add: eval_nat_numeral)
qed (simp_all add: trim_start_def is_space_def starts_with_def str_simps)

text \<open>Text of nothing but code, which masking copies byte for byte.\<close>

definition two_line_page :: "string \<Rightarrow> string" where
  "two_line_page newline = ''const a = 1'' @ newline @ ''export const ppr = true'' @ newline"

text \<open>With carriage returns before the newlines the value is cut out at the wrong offset: the loop adds
  one byte per line where the text has two, so the same opt-in is read with line feeds and lost with carriage
  returns and line feeds.\<close>

theorem crlf_loses_export:
  "has_export_const_bool (two_line_page [CHR 0x0A]) (two_line_page [CHR 0x0A]) ''ppr'' True \<and>
   export_const_value (two_line_page [CHR 0x0D, CHR 0x0A]) (two_line_page [CHR 0x0D, CHR 0x0A]) ''ppr''
     = Some ''= tru'' \<and>
   has_export_const_bool (two_line_page [CHR 0x0D, CHR 0x0A]) (two_line_page [CHR 0x0D, CHR 0x0A]) ''ppr'' True = False"
  by code_simp

end
