(* ===== verification/Module_Graph.thy ===== *)
theory Module_Graph
  imports Worklist Exports
begin

text \<open>
  The module graph of a project: \<open>src/crates/ruvyxa_graph/src/graph.rs\<close>, with the Markdown reading of
  \<open>validate.rs\<close> and the environment rule of \<open>ruvyxa_bundler/src/boundary.rs\<close>. Every module is read through
  \<open>ModuleCache\<close>, which memoizes canonical paths, sources, masked sources and edges; the walk from an
  entry file visits what it reaches.

  What the cache asks of its surroundings is a record: the file system (canonical paths, file contents), the
  scanner of \<open>ruvyxa_bundler::ast\<close> (the facts of a source, its masked text) and the bundler's
  resolvers. The project root of the cache is set, as both callers set it; the alias table, read once, is
  the resolver \<open>me_alias\<close>.
\<close>

section \<open>Surroundings\<close>

record module_facts =
  import_specifiers :: "string list"
  fact_imports :: "string list"
  env_reads :: "string list"
  has_default_export :: bool

record module_env =
  me_canonical :: "path \<Rightarrow> path"
  me_read :: "path \<Rightarrow> string option"
  me_parse :: "string \<Rightarrow> module_facts"
  me_mask :: "string \<Rightarrow> string"
  me_resolve :: "path \<Rightarrow> string \<Rightarrow> path option"
  me_alias :: "string \<Rightarrow> path option"
  me_mdx :: "path \<Rightarrow> path option"

record parsed_module =
  module_source :: string
  module_ast :: module_facts

section \<open>Markdown sources\<close>

text \<open>\<open>Path::extension\<close>: what follows the last dot of the file name, unless the dot opens the name.\<close>

definition file_extension :: "string \<Rightarrow> string option" where
  "file_extension name =
     (let after = takeWhile (\<lambda>c. c \<noteq> CHR ''.'') (rev name); stem = drop (length after + 1) (rev name) in
      if CHR ''.'' \<in> set name \<and> stem \<noteq> [] \<and> name \<noteq> ''..'' then Some (rev after) else None)"

definition path_extension :: "path \<Rightarrow> string option" where
  "path_extension p = (if p = [] then None else file_extension (last p))"

definition is_markdown_route :: "path \<Rightarrow> bool" where
  "is_markdown_route file \<longleftrightarrow> path_extension file \<in> {Some ''md'', Some ''mdx''}"

text \<open>\<open>split_inclusive\<close>: pieces that keep their newline, and no empty last piece.\<close>

fun split_inclusive :: "string \<Rightarrow> string list" where
  "split_inclusive [] = []"
| "split_inclusive (c # cs) =
     (if c = CHR 0x0A then [c] # split_inclusive cs
      else (case split_inclusive cs of [] \<Rightarrow> [[c]] | w # ws \<Rightarrow> if cs = [] then [[c]] else (c # w) # ws))"

fun blank_spans :: "bool \<Rightarrow> string \<Rightarrow> string" where
  "blank_spans in_span [] = []"
| "blank_spans in_span (c # cs) =
     (if c = CHR 0x60 then CHR '' '' # blank_spans (\<not> in_span) cs
      else if in_span \<and> c \<noteq> CHR 0x0A then CHR '' '' # blank_spans in_span cs
      else c # blank_spans in_span cs)"

definition fence_marker :: "string \<Rightarrow> (char \<times> nat) option" where
  "fence_marker line =
     find_map (\<lambda>marker. let n = length (takeWhile (\<lambda>c. c = marker) (trim_start line)) in
         if n \<ge> 3 then Some (marker, n) else None)
       [CHR 0x60, CHR ''~'']"

fun blank_fences :: "(char \<times> nat) option \<Rightarrow> string list \<Rightarrow> string" where
  "blank_fences fence [] = []"
| "blank_fences fence (line # lines) =
     (case (fence, fence_marker line) of
        (None, Some marker) \<Rightarrow> CHR 0x0A # blank_fences (Some marker) lines
      | (Some (open_char, open_len), Some (close_char, close_len)) \<Rightarrow>
          CHR 0x0A # blank_fences
            (if close_char = open_char \<and> close_len \<ge> open_len then None else fence) lines
      | (Some _, None) \<Rightarrow> CHR 0x0A # blank_fences fence lines
      | (None, None) \<Rightarrow> blank_spans False line @ blank_fences fence lines)"

definition markdown_without_code_examples :: "string \<Rightarrow> string" where
  "markdown_without_code_examples source = blank_fences None (split_inclusive source)"

section \<open>The cache\<close>

record module_cache =
  cache_canonical :: "path \<rightharpoonup> path"
  cache_modules :: "path \<rightharpoonup> parsed_module option"
  cache_masked :: "path \<rightharpoonup> string"
  cache_edges :: "path \<rightharpoonup> path list"

definition in_root :: module_cache where
  "in_root = \<lparr>cache_canonical = Map.empty, cache_modules = Map.empty, cache_masked = Map.empty,
     cache_edges = Map.empty\<rparr>"

definition canonical :: "module_env \<Rightarrow> module_cache \<Rightarrow> path \<Rightarrow> path \<times> module_cache" where
  "canonical env c file =
     (case cache_canonical c file of
        Some p \<Rightarrow> (p, c)
      | None \<Rightarrow>
          (let p = me_canonical env file in (p, c\<lparr>cache_canonical := (cache_canonical c)(file \<mapsto> p)\<rparr>)))"

definition parse_source :: "module_env \<Rightarrow> path \<Rightarrow> string \<Rightarrow> parsed_module" where
  "parse_source env key text =
     (let source = (if is_markdown_route key then markdown_without_code_examples text else text) in
      \<lparr>module_source = source, module_ast = me_parse env source\<rparr>)"

definition module_of :: "module_env \<Rightarrow> module_cache \<Rightarrow> path \<Rightarrow> parsed_module option \<times> module_cache" where
  "module_of env c file =
     (let (key, c) = canonical env c file in
      case cache_modules c key of
        Some cached \<Rightarrow> (cached, c)
      | None \<Rightarrow>
          (let parsed = map_option (parse_source env key) (me_read env key) in
           (parsed, c\<lparr>cache_modules := (cache_modules c)(key \<mapsto> parsed)\<rparr>)))"

definition masked_of :: "module_env \<Rightarrow> module_cache \<Rightarrow> path \<Rightarrow> string option \<times> module_cache" where
  "masked_of env c file =
     (let (key, c) = canonical env c file in
      case cache_masked c key of
        Some cached \<Rightarrow> (Some cached, c)
      | None \<Rightarrow>
          (case module_of env c key of
             (None, c) \<Rightarrow> (None, c)
           | (Some m, c) \<Rightarrow>
               (let masked = me_mask env (module_source m) in
                (Some masked, c\<lparr>cache_masked := (cache_masked c)(key \<mapsto> masked)\<rparr>))))"

definition aliased_import :: "module_env \<Rightarrow> module_cache \<Rightarrow> string \<Rightarrow> path option \<times> module_cache" where
  "aliased_import env c specifier =
     (case me_alias env specifier of
        None \<Rightarrow> (None, c)
      | Some resolved \<Rightarrow> (let (p, c) = canonical env c resolved in (Some p, c)))"

fun import_edges :: "module_env \<Rightarrow> path \<Rightarrow> module_cache \<Rightarrow> string list \<Rightarrow> path list \<times> module_cache" where
  "import_edges env key c [] = ([], c)"
| "import_edges env key c (specifier # specifiers) =
     (let (edge, c) =
            (if starts_with specifier ''.'' then
               ((if key = [] then None else me_resolve env (butlast key) specifier), c)
             else aliased_import env c specifier);
          (es, c) = import_edges env key c specifiers in
      ((case edge of Some e \<Rightarrow> e # es | None \<Rightarrow> es), c))"

definition edges_of :: "module_env \<Rightarrow> module_cache \<Rightarrow> path \<Rightarrow> path list \<times> module_cache" where
  "edges_of env c file =
     (let (key, c) = canonical env c file in
      case cache_edges c key of
        Some cached \<Rightarrow> (cached, c)
      | None \<Rightarrow>
          (let (resolved, c) =
                 (case module_of env c key of
                    (None, c) \<Rightarrow> ([], c)
                  | (Some m, c) \<Rightarrow>
                      (let (es, c) = import_edges env key c (import_specifiers (module_ast m)) in
                       (es @ (case me_mdx env key of Some p \<Rightarrow> [me_canonical env p] | None \<Rightarrow> []), c))) in
           (resolved, c\<lparr>cache_edges := (cache_edges c)(key \<mapsto> resolved)\<rparr>)))"

definition collect_relative_graph :: "module_env \<Rightarrow> module_cache \<Rightarrow> path \<Rightarrow> (path set \<times> module_cache) option" where
  "collect_relative_graph env c entry =
     (let (start, c) = canonical env c entry in explore (edges_of env) [start] {} c)"

definition env_read_is_private :: "string \<Rightarrow> bool" where
  "env_read_is_private name \<longleftrightarrow> name \<noteq> ''NODE_ENV'' \<and> \<not> starts_with name ''RUVYXA_PUBLIC_''"

definition private_env_reads :: "module_facts \<Rightarrow> string list" where
  "private_env_reads ast = filter env_read_is_private (env_reads ast)"

section \<open>The cache is transparent\<close>

text \<open>What the project holds, with no cache.\<close>

definition read_module :: "module_env \<Rightarrow> path \<Rightarrow> parsed_module option" where
  "read_module env file =
     (let key = me_canonical env file in map_option (parse_source env key) (me_read env key))"

definition read_masked :: "module_env \<Rightarrow> path \<Rightarrow> string option" where
  "read_masked env file =
     map_option (\<lambda>m. me_mask env (module_source m)) (read_module env (me_canonical env file))"

definition resolve_import :: "module_env \<Rightarrow> path \<Rightarrow> string \<Rightarrow> path option" where
  "resolve_import env key specifier =
     (if starts_with specifier ''.'' then (if key = [] then None else me_resolve env (butlast key) specifier)
      else map_option (me_canonical env) (me_alias env specifier))"

definition module_imports :: "module_env \<Rightarrow> path \<Rightarrow> path list" where
  "module_imports env file =
     (let key = me_canonical env file in
      case read_module env key of
        None \<Rightarrow> []
      | Some m \<Rightarrow>
          List.map_filter (resolve_import env key) (import_specifiers (module_ast m)) @
          (case me_mdx env key of Some p \<Rightarrow> [me_canonical env p] | None \<Rightarrow> []))"

definition cache_ok :: "module_env \<Rightarrow> module_cache \<Rightarrow> bool" where
  "cache_ok env c \<longleftrightarrow>
     (\<forall>f p. cache_canonical c f = Some p \<longrightarrow> p = me_canonical env f) \<and>
     (\<forall>k m. cache_modules c k = Some m \<longrightarrow> m = map_option (parse_source env k) (me_read env k)) \<and>
     (\<forall>k t. cache_masked c k = Some t \<longrightarrow> map_option (\<lambda>m. me_mask env (module_source m)) (read_module env k) = Some t) \<and>
     (\<forall>k es. cache_edges c k = Some es \<longrightarrow>
        es = (case read_module env k of
                None \<Rightarrow> []
              | Some m \<Rightarrow> List.map_filter (resolve_import env k) (import_specifiers (module_ast m)) @
                  (case me_mdx env k of Some p \<Rightarrow> [me_canonical env p] | None \<Rightarrow> [])))"

lemma in_root_ok [simp]: "cache_ok env in_root"
  by (simp add: cache_ok_def in_root_def)

lemma canonical_ok:
  assumes "cache_ok env c"
  shows "fst (canonical env c f) = me_canonical env f" "cache_ok env (snd (canonical env c f))"
  using assms by (auto simp: canonical_def cache_ok_def Let_def split: option.splits)

lemma canonical_pair: "cache_ok env c \<Longrightarrow> \<exists>c'. canonical env c f = (me_canonical env f, c') \<and> cache_ok env c'"
  using canonical_ok [of env c f] by (metis prod.collapse)

lemma module_of_pair: "cache_ok env c \<Longrightarrow> \<exists>c'. module_of env c f = (read_module env f, c') \<and> cache_ok env c'"
proof -
  assume "cache_ok env c"
  then obtain c1 where c1: "canonical env c f = (me_canonical env f, c1)" "cache_ok env c1"
    using canonical_pair by blast
  then show ?thesis
    by (auto simp: module_of_def read_module_def cache_ok_def Let_def split: option.splits)
qed

lemma masked_of_pair: "cache_ok env c \<Longrightarrow> \<exists>c'. masked_of env c f = (read_masked env f, c') \<and> cache_ok env c'"
proof -
  let ?k = "me_canonical env f"
  assume "cache_ok env c"
  then obtain c1 where c1: "canonical env c f = (?k, c1)" "cache_ok env c1"
    using canonical_pair by blast
  obtain c2 where c2: "module_of env c1 ?k = (read_module env ?k, c2)" "cache_ok env c2"
    using module_of_pair [OF c1(2)] by blast
  show ?thesis
  proof (cases "cache_masked c1 ?k")
    case None
    with c1 c2 show ?thesis
      by (cases "read_module env ?k") (auto simp: masked_of_def read_masked_def cache_ok_def Let_def)
  next
    case (Some t)
    with c1(2) have "map_option (\<lambda>m. me_mask env (module_source m)) (read_module env ?k) = Some t"
      by (simp add: cache_ok_def)
    with Some c1 show ?thesis by (auto simp: masked_of_def read_masked_def)
  qed
qed

lemma import_edges_pair:
  "cache_ok env c \<Longrightarrow>
   \<exists>c'. import_edges env key c specs = (List.map_filter (resolve_import env key) specs, c') \<and> cache_ok env c'"
proof (induction specs arbitrary: c)
  case Nil
  then show ?case by simp
next
  case (Cons sp specs)
  obtain edge c1 where e: "(if starts_with sp ''.'' then
               ((if key = [] then None else me_resolve env (butlast key) sp), c)
             else aliased_import env c sp) = (edge, c1)" by fastforce
  have "edge = resolve_import env key sp \<and> cache_ok env c1"
    using e Cons.prems canonical_ok [OF Cons.prems]
    by (auto simp: resolve_import_def aliased_import_def split_def split: if_splits option.splits)
  moreover obtain c2 where "import_edges env key c1 specs = (List.map_filter (resolve_import env key) specs, c2)"
    "cache_ok env c2"
    using Cons.IH calculation by blast
  ultimately show ?case by (simp add: e List.map_filter_simps split: option.splits)
qed

lemma edges_of_pair: "cache_ok env c \<Longrightarrow> \<exists>c'. edges_of env c f = (module_imports env f, c') \<and> cache_ok env c'"
proof -
  let ?k = "me_canonical env f"
  assume "cache_ok env c"
  then obtain c1 where c1: "canonical env c f = (?k, c1)" "cache_ok env c1"
    using canonical_pair by blast
  obtain c2 where c2: "module_of env c1 ?k = (read_module env ?k, c2)" "cache_ok env c2"
    using module_of_pair [OF c1(2)] by blast
  show ?thesis
  proof (cases "cache_edges c1 ?k")
    case (Some es)
    with c1 show ?thesis by (auto simp: edges_of_def module_imports_def cache_ok_def)
  next
    case None
    show ?thesis
    proof (cases "read_module env ?k")
      case None': None
      with None c1 c2 show ?thesis by (auto simp: edges_of_def module_imports_def cache_ok_def)
    next
      case (Some m)
      obtain c3 where "import_edges env ?k c2 (import_specifiers (module_ast m)) =
          (List.map_filter (resolve_import env ?k) (import_specifiers (module_ast m)), c3)" "cache_ok env c3"
        using import_edges_pair [OF c2(2)] by blast
      with None Some c1 c2 show ?thesis
        by (auto simp: edges_of_def module_imports_def cache_ok_def Let_def)
    qed
  qed
qed

interpretation modules: cached_successors "edges_of env" "module_imports env" "cache_ok env"
  for env
  by unfold_locales (metis edges_of_pair fst_conv, metis edges_of_pair snd_conv)

text \<open>The modules an entry file reaches.\<close>

definition module_closure :: "module_env \<Rightarrow> path \<Rightarrow> path set" where
  "module_closure env entry = reach (module_imports env) (me_canonical env entry)"

lemma collect_pair:
  assumes "cache_ok env c" "finite (module_closure env entry)"
  shows "\<exists>c'. collect_relative_graph env c entry = Some (module_closure env entry, c') \<and> cache_ok env c'"
proof -
  obtain c1 where c1: "canonical env c entry = (me_canonical env entry, c1)" "cache_ok env c1"
    using canonical_pair [OF assms(1)] by blast
  with modules.explore_reach [of env "me_canonical env entry" c1] assms(2) show ?thesis
    by (simp add: collect_relative_graph_def module_closure_def)
qed

section \<open>Walks over one cache\<close>

fun collect_all :: "module_env \<Rightarrow> module_cache \<Rightarrow> path list \<Rightarrow> (path set list \<times> module_cache) option" where
  "collect_all env c [] = Some ([], c)"
| "collect_all env c (entry # entries) =
     (case collect_relative_graph env c entry of
        None \<Rightarrow> None
      | Some (g, c) \<Rightarrow> map_option (\<lambda>(gs, c). (g # gs, c)) (collect_all env c entries))"

lemma collect_all_pair:
  "cache_ok env c \<Longrightarrow> \<forall>e\<in>set es. finite (module_closure env e) \<Longrightarrow>
   \<exists>c'. collect_all env c es = Some (map (module_closure env) es, c') \<and> cache_ok env c'"
proof (induction es arbitrary: c)
  case (Cons e es)
  then obtain c1 where c1: "collect_relative_graph env c e = Some (module_closure env e, c1)" "cache_ok env c1"
    using collect_pair by fastforce
  with Cons obtain c2 where "collect_all env c1 es = Some (map (module_closure env) es, c2)" "cache_ok env c2"
    by fastforce
  with c1 show ?case by simp
qed simp

text \<open>C29. The walks of a run end and see the real graph: for any sequence of entry files walked through one
  shared cache, each walk returns, and returns exactly the modules reachable from its entry through the imports the
  files have, as if nothing were cached.\<close>

theorem walks_collect_closures:
  assumes "\<forall>e\<in>set entries. finite (module_closure env e)"
  shows "\<exists>c. collect_all env in_root entries = Some (map (module_closure env) entries, c)"
  using collect_all_pair [OF in_root_ok assms] by blast

text \<open>Two files that import each other, and one reached through an alias.\<close>

definition cyclic_env :: module_env where
  "cyclic_env =
     \<lparr>me_canonical = (\<lambda>p. p),
      me_read = (\<lambda>p. if p \<in> {[''a.ts''], [''b.ts''], [''c.ts'']} then Some (hd p) else None),
      me_parse = (\<lambda>s. \<lparr>import_specifiers =
          (if s = ''a.ts'' then [''./b'', ''@/c''] else if s = ''b.ts'' then [''./a''] else []),
        fact_imports = [], env_reads = [], has_default_export = True\<rparr>),
      me_mask = (\<lambda>s. s),
      me_resolve = (\<lambda>d s. if s = ''./a'' then Some [''a.ts''] else if s = ''./b'' then Some [''b.ts''] else None),
      me_alias = (\<lambda>s. if s = ''@/c'' then Some [''c.ts''] else None),
      me_mdx = (\<lambda>_. None)\<rparr>"

lemma cyclic_closure: "module_closure cyclic_env [''a.ts''] \<subseteq> {[''a.ts''], [''b.ts''], [''c.ts'']}"
  unfolding module_closure_def
  by (rule reach_least)
    (auto simp: cyclic_env_def module_imports_def read_module_def parse_source_def resolve_import_def
      is_markdown_route_def path_extension_def file_extension_def Let_def List.map_filter_simps starts_with_def)

theorem walks_collect_closures_witness:
  "\<exists>c. collect_all cyclic_env in_root [[''a.ts''], [''a.ts'']] =
     Some ([module_closure cyclic_env [''a.ts''], module_closure cyclic_env [''a.ts'']], c)"
  using walks_collect_closures [of "[[''a.ts''], [''a.ts'']]" cyclic_env] finite_subset [OF cyclic_closure]
  by simp

section \<open>Markdown keeps its lines\<close>

definition newlines :: "string \<Rightarrow> nat" where
  "newlines s = length (filter (\<lambda>c. c = CHR 0x0A) s)"

lemma newlines_simps [simp]:
  "newlines [] = 0" "newlines (c # s) = (if c = CHR 0x0A then Suc (newlines s) else newlines s)"
  "newlines (s @ t) = newlines s + newlines t"
  by (simp_all add: newlines_def)

lemma blank_spans_newlines: "newlines (blank_spans b s) = newlines s"
  by (induction b s rule: blank_spans.induct) auto

lemma blank_spans_backtick: "CHR 0x60 \<notin> set (blank_spans b s)"
  by (induction b s rule: blank_spans.induct) auto

lemma split_inclusive_Nil [simp]: "split_inclusive s = [] \<longleftrightarrow> s = []"
  by (cases s) (auto split: list.splits)

lemma split_inclusive_newlines: "sum_list (map newlines (split_inclusive s)) = newlines s"
  by (induction s) (auto split: list.splits)

lemma split_inclusive_line:
  "s = [] \<or> last s = CHR 0x0A \<Longrightarrow> w \<in> set (split_inclusive s) \<Longrightarrow> newlines w = 1"
proof (induction s arbitrary: w)
  case (Cons c s)
  show ?case
  proof (cases "c = CHR 0x0A")
    case True
    with Cons show ?thesis by (auto split: if_splits)
  next
    case False
    with Cons.prems have "s \<noteq> []" "last s = CHR 0x0A" by (auto split: if_splits)
    moreover obtain v vs where "split_inclusive s = v # vs" using calculation by (cases "split_inclusive s") auto
    ultimately show ?thesis using Cons False by auto
  qed
qed simp

lemma blank_fences_newlines:
  "\<forall>l\<in>set ls. newlines l = 1 \<Longrightarrow> newlines (blank_fences f ls) = length ls"
  by (induction f ls rule: blank_fences.induct) (auto simp: blank_spans_newlines split: option.splits prod.splits)

lemma blank_fences_backtick: "CHR 0x60 \<notin> set (blank_fences f ls)"
  by (induction ls arbitrary: f) (auto simp: blank_spans_backtick split: option.splits prod.splits)

text \<open>Blanking the examples of a Markdown page keeps its line numbers and leaves no code span: the
  result has as many lines as the source, and no backtick.\<close>

theorem markdown_keeps_lines:
  assumes "source = [] \<or> last source = CHR 0x0A"
  shows "newlines (markdown_without_code_examples source) = newlines source \<and>
     CHR 0x60 \<notin> set (markdown_without_code_examples source)"
proof -
  have one: "\<forall>l\<in>set (split_inclusive source). newlines l = 1"
    using split_inclusive_line [OF assms] by blast
  then have "sum_list (map newlines (split_inclusive source)) = length (split_inclusive source)"
    by (induction "split_inclusive source") (simp_all add: sum_list_triv map_idI cong: map_cong)
  then show ?thesis
    using blank_fences_newlines [OF one] blank_fences_backtick split_inclusive_newlines [of source]
    by (simp add: markdown_without_code_examples_def)
qed

theorem markdown_keeps_lines_witness:
  "newlines (markdown_without_code_examples (concat
       [''~~~ts'', [CHR 0x0A], ''import '', [CHR 0x60], [CHR 0x0A], ''~~~'', [CHR 0x0A]])) = 3"
  using markdown_keeps_lines
    [of "concat [''~~~ts'', [CHR 0x0A], ''import '', [CHR 0x60], [CHR 0x0A], ''~~~'', [CHR 0x0A]]"]
  by simp

section \<open>Finite projects\<close>

text \<open>A project has finitely many readable files, and a canonical path is its own canonical path.\<close>

definition finite_project :: "module_env \<Rightarrow> bool" where
  "finite_project env \<longleftrightarrow>
     finite {p. me_read env p \<noteq> None} \<and> (\<forall>p. me_canonical env (me_canonical env p) = me_canonical env p)"

lemma finite_module_closure:
  assumes "finite_project env"
  shows "finite (module_closure env f)"
proof -
  let ?K = "{p. me_read env p \<noteq> None}"
  let ?A = "insert (me_canonical env f) (\<Union>k\<in>?K. set (module_imports env k))"
  have idem: "me_canonical env (me_canonical env p) = me_canonical env p" for p
    using assms by (simp add: finite_project_def)
  have same: "module_imports env (me_canonical env p) = module_imports env p" for p
    by (simp add: module_imports_def idem)
  have "module_closure env f \<subseteq> ?A"
    unfolding module_closure_def
  proof (rule reach_least)
    fix a b
    assume "b \<in> set (module_imports env a)"
    moreover have "module_imports env a = []" if "me_read env (me_canonical env a) = None"
      using that by (simp add: module_imports_def read_module_def idem)
    ultimately have "me_canonical env a \<in> ?K" "b \<in> set (module_imports env (me_canonical env a))"
      using same [of a] by (cases "me_read env (me_canonical env a)"; simp)+
    then show "b \<in> ?A" by blast
  qed simp
  moreover have "finite ?A" using assms by (simp add: finite_project_def)
  ultimately show ?thesis by (rule finite_subset)
qed

end
