(* ===== verification/Route_Files.thy ===== *)
theory Route_Files
  imports Manifest Btree_Map Module_Graph "HOL-Library.Product_Lexorder"
begin

text \<open>
  The files of a route tree: names, ids, layout and template chains, sibling modules
  (\<open>src/crates/ruvyxa_graph/src/discovery.rs\<close>).

  A path is its list of normal components, so joining is appending. The file system is a record of what the
  operating system answers, and of what the \<open>walkdir\<close> crate yields for a directory and a filter. A
  directory that cannot be read, an entry that cannot be read and an entry whose type cannot be read are
  answers of it.
\<close>

section \<open>The file system\<close>

datatype walk_kind = WalkFile | WalkDir | WalkOther

record walk_entry =
  walk_path :: path
  walk_kind :: walk_kind

record file_system =
  fs_exists :: "path \<Rightarrow> bool"
  fs_is_file :: "path \<Rightarrow> bool"
  fs_read_dir :: "path \<Rightarrow> (string \<times> bool option) option list option"
  fs_walk :: "path \<Rightarrow> (walk_entry \<Rightarrow> bool) \<Rightarrow> (path option + walk_entry) list"
  fs_canonical :: "path \<Rightarrow> path"

definition walk_name :: "walk_entry \<Rightarrow> string" where
  "walk_name e = (if walk_path e = [] then [] else last (walk_path e))"

definition unreadable_route_directory :: "path option \<Rightarrow> diagnostic" where
  "unreadable_route_directory p = Diagnostic ''RUV1021'' ''Route directory could not be read'' p []"

definition walk_item :: "path option + walk_entry \<Rightarrow> walk_entry result" where
  "walk_item item = (case item of Inl p \<Rightarrow> Inl (unreadable_route_directory p) | Inr e \<Rightarrow> Inr e)"

definition read_route_directory :: "file_system \<Rightarrow> path \<Rightarrow> (string \<times> bool option) list result" where
  "read_route_directory fs directory =
     (case fs_read_dir fs directory of
        None \<Rightarrow> Inl (unreadable_route_directory (Some directory))
      | Some entries \<Rightarrow>
          collect_results (map (\<lambda>e. case e of
              None \<Rightarrow> Inl (unreadable_route_directory (Some directory)) | Some x \<Rightarrow> Inr x) entries))"

definition entry_is_directory :: "path \<Rightarrow> string \<times> bool option \<Rightarrow> bool result" where
  "entry_is_directory directory entry =
     (case snd entry of
        None \<Rightarrow> Inl (unreadable_route_directory (Some (directory @ [fst entry])))
      | Some is_dir \<Rightarrow> Inr is_dir)"

definition strip_dir :: "path \<Rightarrow> path \<Rightarrow> path option" where
  "strip_dir base p = (if take (length base) p = base then Some (drop (length base) p) else None)"

lemma strip_dir_append [simp]: "strip_dir base (base @ p) = Some p"
  by (simp add: strip_dir_def)

lemma strip_dir_Some_iff: "strip_dir base p = Some r \<longleftrightarrow> p = base @ r"
  by (auto simp: strip_dir_def) (metis append_take_drop_id)

section \<open>File names\<close>

definition COMPONENT_EXTENSIONS :: "string list" where
  "COMPONENT_EXTENSIONS = [''tsx'', ''jsx'']"

definition PAGE_MARKUP_EXTENSIONS :: "string list" where
  "PAGE_MARKUP_EXTENSIONS = [''md'', ''mdx'']"

definition HANDLER_EXTENSIONS :: "string list" where
  "HANDLER_EXTENSIONS = [''ts'', ''js'']"

definition route_file_names :: "string \<Rightarrow> string list \<Rightarrow> string list" where
  "route_file_names stem extensions = map (\<lambda>e. stem @ ''.'' @ e) extensions"

definition is_route_file :: "string \<Rightarrow> string \<Rightarrow> string list \<Rightarrow> bool" where
  "is_route_file file_name stem extensions =
     (case strip_prefix file_name stem of
        None \<Rightarrow> False
      | Some rest \<Rightarrow> (case strip_prefix rest ''.'' of None \<Rightarrow> False | Some e \<Rightarrow> e \<in> set extensions))"

definition page_file_names :: "string list" where
  "page_file_names = route_file_names ''page'' COMPONENT_EXTENSIONS @ route_file_names ''page'' PAGE_MARKUP_EXTENSIONS"

definition is_page_file :: "string \<Rightarrow> bool" where
  "is_page_file file_name \<longleftrightarrow>
     is_route_file file_name ''page'' COMPONENT_EXTENSIONS \<or> is_route_file file_name ''page'' PAGE_MARKUP_EXTENSIONS"

lemma is_route_file_iff: "is_route_file n stem es \<longleftrightarrow> n \<in> set (route_file_names stem es)"
  by (auto simp: is_route_file_def route_file_names_def strip_prefix_Some_iff split: option.splits)
    (metis append_Cons append_Nil strip_prefix_Some_iff option.distinct(1))+

lemma is_page_file_iff: "is_page_file n \<longleftrightarrow> n \<in> set page_file_names"
  by (simp add: is_page_file_def page_file_names_def is_route_file_iff)

section \<open>Ids\<close>

text \<open>\<open>Path::with_extension("")\<close>.\<close>

definition without_extension :: "path \<Rightarrow> path" where
  "without_extension p =
     (if p = [] then []
      else butlast p @ [case file_extension (last p) of
                          None \<Rightarrow> last p
                        | Some e \<Rightarrow> take (length (last p) - length e - 1) (last p)])"

definition slash_component :: "string \<Rightarrow> string" where
  "slash_component s = map (\<lambda>c. if c = CHR 0x5C then CHR ''/'' else c) s"

definition route_id :: "path \<Rightarrow> path \<Rightarrow> string" where
  "route_id app file =
     (let relative = (case strip_dir app file of Some r \<Rightarrow> r | None \<Rightarrow> file) in
      ''app/'' @ join_with ''/'' (map slash_component (without_extension relative)))"

definition directory_id :: "path \<Rightarrow> path \<Rightarrow> string" where
  "directory_id app directory =
     (let relative = (case strip_dir app directory of Some r \<Rightarrow> r | None \<Rightarrow> directory) in
      if relative = [] then ''app'' else ''app/'' @ join_with ''/'' (map slash_component relative))"

section \<open>Chains\<close>

definition nested_file_id :: "file_system \<Rightarrow> path \<Rightarrow> path \<Rightarrow> string list \<Rightarrow> string option" where
  "nested_file_id fs app directory file_names =
     map_option (route_id app) (List.find (fs_is_file fs) (map (\<lambda>name. directory @ [name]) file_names))"

fun nested_levels :: "file_system \<Rightarrow> path \<Rightarrow> string list \<Rightarrow> path \<Rightarrow> string list \<Rightarrow> string list" where
  "nested_levels fs app file_names current [] = []"
| "nested_levels fs app file_names current (segment # segments) =
     (let current = current @ [segment] in
      (case nested_file_id fs app current file_names of Some i \<Rightarrow> [i] | None \<Rightarrow> []) @
      nested_levels fs app file_names current segments)"

definition nested_chain :: "file_system \<Rightarrow> path \<Rightarrow> path \<Rightarrow> string list \<Rightarrow> string list" where
  "nested_chain fs app route_dir file_names =
     (case nested_file_id fs app app file_names of Some i \<Rightarrow> [i] | None \<Rightarrow> []) @
     (case strip_dir app route_dir of
        Some relative \<Rightarrow> nested_levels fs app file_names app relative
      | None \<Rightarrow> [])"

definition layout_chain :: "file_system \<Rightarrow> path \<Rightarrow> path \<Rightarrow> string list" where
  "layout_chain fs app route_dir = nested_chain fs app route_dir (route_file_names ''layout'' COMPONENT_EXTENSIONS)"

definition template_chain :: "file_system \<Rightarrow> path \<Rightarrow> path \<Rightarrow> string list" where
  "template_chain fs app route_dir = nested_chain fs app route_dir (route_file_names ''template'' COMPONENT_EXTENSIONS)"

text \<open>\<open>PathBuf::from\<close> of an id: a relative path, so its components are its non-empty pieces.\<close>

definition path_from_id :: "string \<Rightarrow> path" where
  "path_from_id s = filter (\<lambda>c. c \<noteq> [] \<and> c \<noteq> ''.'') (split_on (CHR ''/'') s)"

definition with_suffix :: "path \<Rightarrow> string \<Rightarrow> path" where
  "with_suffix p ending = (if p = [] then [ending] else butlast p @ [last p @ ending])"

definition resolve_layout_file :: "file_system \<Rightarrow> path \<Rightarrow> string \<Rightarrow> path option" where
  "resolve_layout_file fs app layout_id =
     (let layout = path_from_id layout_id;
          project_root = (if app = [] then app else butlast app);
          app_relative = (case layout of c # cs \<Rightarrow> if c = ''app'' then cs else layout | [] \<Rightarrow> layout) in
      find_map (\<lambda>candidate.
          map_option (fs_canonical fs)
            (List.find (fs_is_file fs)
               (candidate # map (\<lambda>e. with_suffix candidate (''.'' @ e)) COMPONENT_EXTENSIONS)))
        [project_root @ layout, app @ app_relative])"

definition sibling_module :: "file_system \<Rightarrow> path \<Rightarrow> string list \<Rightarrow> path list" where
  "sibling_module fs route_dir names =
     (case List.find (fs_is_file fs) (map (\<lambda>name. route_dir @ [name]) names) of
        Some m \<Rightarrow> [m] | None \<Rightarrow> [])"

definition sibling_modules :: "file_system \<Rightarrow> path \<Rightarrow> string list \<Rightarrow> path list" where
  "sibling_modules fs route_dir names = filter (fs_is_file fs) (map (\<lambda>name. route_dir @ [name]) names)"

section \<open>A chain entry resolves to the file it came from\<close>

definition plain_component :: "string \<Rightarrow> bool" where
  "plain_component s \<longleftrightarrow> s \<noteq> [] \<and> s \<noteq> ''.'' \<and> CHR ''/'' \<notin> set s \<and> CHR 0x5C \<notin> set s"

text \<open>The file a level contributes: the first of the names that is there.\<close>

definition level_file :: "file_system \<Rightarrow> string \<Rightarrow> path \<Rightarrow> path option" where
  "level_file fs stem directory =
     List.find (fs_is_file fs) (map (\<lambda>n. directory @ [n]) (route_file_names stem COMPONENT_EXTENSIONS))"

definition chain_files :: "file_system \<Rightarrow> string \<Rightarrow> path \<Rightarrow> path \<Rightarrow> path list" where
  "chain_files fs stem app dir =
     List.map_filter (\<lambda>k. level_file fs stem (app @ take k dir)) [0..<Suc (length dir)]"

lemma slash_component_plain [simp]: "plain_component s \<Longrightarrow> slash_component s = s"
  unfolding slash_component_def by (rule map_idI) (auto simp: plain_component_def)

lemma file_extension_app:
  assumes "stem \<noteq> []" "CHR ''.'' \<notin> set e" "e \<noteq> []"
  shows "file_extension (stem @ ''.'' @ e) = Some e"
proof -
  have "takeWhile (\<lambda>c. c \<noteq> CHR ''.'') (rev e @ CHR ''.'' # rev stem) = rev e"
    using assms(2) by (subst takeWhile_append2) auto
  moreover have "stem @ ''.'' @ e \<noteq> ''..''"
    using assms by (cases stem; cases "tl stem"; cases e) auto
  ultimately show ?thesis using assms by (simp add: file_extension_def Let_def)
qed

lemma without_extension_component:
  "stem \<noteq> [] \<Longrightarrow> e \<in> set COMPONENT_EXTENSIONS \<Longrightarrow>
   without_extension (dir @ [stem @ ''.'' @ e]) = dir @ [stem]"
proof -
  assume "stem \<noteq> []" "e \<in> set COMPONENT_EXTENSIONS"
  moreover have "CHR ''.'' \<notin> set e" "e \<noteq> []" using calculation(2) by (auto simp: COMPONENT_EXTENSIONS_def)
  ultimately show ?thesis
    using file_extension_app [of stem e] by (simp add: without_extension_def)
qed

lemma route_id_component:
  assumes "list_all plain_component dir" "plain_component stem" "e \<in> set COMPONENT_EXTENSIONS"
  shows "route_id app (app @ dir @ [stem @ ''.'' @ e]) = ''app/'' @ join_with ''/'' (dir @ [stem])"
proof -
  have "without_extension (dir @ [stem @ ''.'' @ e]) = dir @ [stem]"
    using assms by (intro without_extension_component) (auto simp: plain_component_def)
  moreover have "map slash_component (dir @ [stem]) = dir @ [stem]"
    using assms by (auto simp: list_all_iff map_idI)
  ultimately show ?thesis by (simp add: route_id_def)
qed

lemma path_from_id_join:
  assumes "list_all plain_component (c # cs)"
  shows "path_from_id (join_with ''/'' (c # cs)) = c # cs"
proof -
  have "split_on (CHR ''/'') (join_with ''/'' (c # cs)) = c # cs"
    using assms by (intro split_on_join) (auto simp: plain_component_def list_all_iff)
  with assms show ?thesis by (auto simp: path_from_id_def plain_component_def list_all_iff filter_id_conv)
qed

lemma find_map_option: "List.find P (map f xs) = Some y \<Longrightarrow> \<exists>x\<in>set xs. y = f x"
  by (induction xs) (auto split: if_splits)

lemma level_file_id:
  assumes "list_all plain_component dir" "plain_component stem" "level_file fs stem (app @ dir) = Some f"
  shows "nested_file_id fs app (app @ dir) (route_file_names stem COMPONENT_EXTENSIONS) =
     Some (''app/'' @ join_with ''/'' (dir @ [stem]))"
proof -
  obtain e where "e \<in> set COMPONENT_EXTENSIONS" "f = app @ dir @ [stem @ ''.'' @ e]"
    using find_map_option [OF assms(3) [unfolded level_file_def]] by (auto simp: route_file_names_def)
  then show ?thesis
    using assms route_id_component by (simp add: nested_file_id_def level_file_def)
qed

lemma resolve_level:
  assumes "list_all plain_component dir" "plain_component stem" "app = root @ [''app'']"
    and "level_file fs stem (app @ dir) = Some f" "\<not> fs_is_file fs (app @ dir @ [stem])"
  shows "resolve_layout_file fs app (''app/'' @ join_with ''/'' (dir @ [stem])) = Some (fs_canonical fs f)"
proof -
  have "list_all plain_component (''app'' # dir @ [stem])"
    using assms(1,2) by (simp add: plain_component_def)
  from path_from_id_join [OF this] have id: "path_from_id (''app/'' @ join_with ''/'' (dir @ [stem])) = ''app'' # dir @ [stem]"
    by (cases dir) simp_all
  have ext: "map (\<lambda>e. with_suffix (app @ dir @ [stem]) (''.'' @ e)) COMPONENT_EXTENSIONS =
      map (\<lambda>n. (app @ dir) @ [n]) (route_file_names stem COMPONENT_EXTENSIONS)"
    by (simp add: with_suffix_def butlast_append route_file_names_def)
  have cand: "butlast app @ ''app'' # dir @ [stem] = app @ dir @ [stem]" by (simp add: assms(3))
  have "List.find (fs_is_file fs)
      ((app @ dir @ [stem]) # map (\<lambda>e. with_suffix (app @ dir @ [stem]) (''.'' @ e)) COMPONENT_EXTENSIONS) = Some f"
    using assms(4,5) unfolding ext level_file_def by simp
  moreover have "app \<noteq> []" by (simp add: assms(3))
  ultimately show ?thesis
    unfolding resolve_layout_file_def id Let_def by (simp add: cand)
qed

lemma nested_levels_files:
  "nested_levels fs app names cur segs =
     List.map_filter (\<lambda>k. nested_file_id fs app (cur @ take (Suc k) segs) names) [0..<length segs]"
proof (induction segs arbitrary: cur)
  case (Cons s segs)
  have "[0..<length (s # segs)] = 0 # map Suc [0..<length segs]"
    by (simp add: upt_conv_Cons map_Suc_upt del: upt_Suc)
  with Cons [of "cur @ [s]"] show ?case
    by (simp add: List.map_filter_simps List.map_filter_def Let_def comp_def filter_map split: option.splits)
qed (simp add: List.map_filter_simps)

lemma nested_chain_files:
  "nested_chain fs app (app @ dir) names =
     List.map_filter (\<lambda>k. nested_file_id fs app (app @ take k dir) names) [0..<Suc (length dir)]"
proof -
  have "[0..<Suc (length dir)] = 0 # map Suc [0..<length dir]"
    by (simp add: upt_conv_Cons map_Suc_upt del: upt_Suc)
  then show ?thesis
    by (simp add: nested_chain_def nested_levels_files List.map_filter_simps List.map_filter_def comp_def filter_map
        split: option.splits)
qed

lemma map_filter_image:
  "(\<And>x. x \<in> set xs \<Longrightarrow> (f x = None \<and> h x = None) \<or> (\<exists>i y. f x = Some i \<and> h x = Some y \<and> g i = k y)) \<Longrightarrow>
   map g (List.map_filter f xs) = map k (List.map_filter h xs)"
  by (induction xs) (force simp: List.map_filter_simps split: option.splits)+

text \<open>Every id of a layout chain resolves to the file it came from: for an application directory named
  \<open>app\<close> and ordinary folder names, resolving the chain of a route gives, level by level, the layout files that
  are there, each level's first by extension, provided no level holds a file named \<open>layout\<close> alone.\<close>

theorem layout_chain_resolves:
  assumes "app = root @ [''app'']" "list_all plain_component dir"
    and "\<forall>k \<le> length dir. \<not> fs_is_file fs (app @ take k dir @ [''layout''])"
  shows "map (resolve_layout_file fs app) (layout_chain fs app (app @ dir)) =
     map (\<lambda>f. Some (fs_canonical fs f)) (chain_files fs ''layout'' app dir)"
  unfolding layout_chain_def nested_chain_files chain_files_def
proof (rule map_filter_image)
  fix k
  assume "k \<in> set [0..<Suc (length dir)]"
  then have k: "\<not> fs_is_file fs (app @ take k dir @ [''layout''])" using assms(3) by (auto simp: less_Suc_eq_le)
  have plain: "list_all plain_component (take k dir)" "plain_component ''layout''"
    using assms(2) by (auto simp: list_all_iff plain_component_def dest: in_set_takeD)
  show "(nested_file_id fs app (app @ take k dir) (route_file_names ''layout'' COMPONENT_EXTENSIONS) = None \<and>
        level_file fs ''layout'' (app @ take k dir) = None) \<or>
      (\<exists>i y. nested_file_id fs app (app @ take k dir) (route_file_names ''layout'' COMPONENT_EXTENSIONS) = Some i \<and>
        level_file fs ''layout'' (app @ take k dir) = Some y \<and>
        resolve_layout_file fs app i = Some (fs_canonical fs y))"
  proof (cases "level_file fs ''layout'' (app @ take k dir)")
    case None
    then show ?thesis by (simp add: nested_file_id_def level_file_def)
  next
    case (Some y)
    then show ?thesis
      using level_file_id [OF plain] resolve_level [OF plain assms(1) Some k] by blast
  qed
qed

definition blog_tree :: file_system where
  "blog_tree =
     \<lparr>fs_exists = (\<lambda>_. True),
      fs_is_file = (\<lambda>p. p \<in> {[''site'', ''app'', ''layout.tsx''], [''site'', ''app'', ''layout.jsx''],
        [''site'', ''app'', ''blog'', ''layout.jsx'']}),
      fs_read_dir = (\<lambda>_. Some []), fs_walk = (\<lambda>_ _. []), fs_canonical = (\<lambda>p. p)\<rparr>"

theorem layout_chain_resolves_witness:
  "map (resolve_layout_file blog_tree [''site'', ''app''])
     (layout_chain blog_tree [''site'', ''app''] [''site'', ''app'', ''blog'', ''[slug]'']) =
   [Some [''site'', ''app'', ''layout.tsx''], Some [''site'', ''app'', ''blog'', ''layout.jsx'']]"
proof -
  have "map (resolve_layout_file blog_tree [''site'', ''app''])
      (layout_chain blog_tree [''site'', ''app''] ([''site'', ''app''] @ [''blog'', ''[slug]''])) =
     map (\<lambda>f. Some (fs_canonical blog_tree f))
      (chain_files blog_tree ''layout'' [''site'', ''app''] [''blog'', ''[slug]''])"
    by (rule layout_chain_resolves [of _ "[''site'']"]) (simp_all add: plain_component_def blog_tree_def)
  moreover have "chain_files blog_tree ''layout'' [''site'', ''app''] [''blog'', ''[slug]''] =
      [[''site'', ''app'', ''layout.tsx''], [''site'', ''app'', ''blog'', ''layout.jsx'']]"
    by code_simp
  ultimately show ?thesis by (simp add: blog_tree_def)
qed

end
