(* ===== verification/Parallel_Routes.thy ===== *)
theory Parallel_Routes
  imports Route_Files Route_Segments
begin

text \<open>
  Parallel-route slots and intercepting routes: \<open>src/crates/ruvyxa_graph/src/parallel.rs\<close>, and the checks of
  \<open>conflicts.rs\<close> that a manifest's interceptions and server components have to pass. A folder \<open>@name\<close> is a
  slot of the layout beside it; inside it, a folder that opens with a marker covers another URL.
\<close>

section \<open>Markers\<close>

definition INTERCEPTING_ROUTE_MARKERS :: "string list" where
  "INTERCEPTING_ROUTE_MARKERS = [''(..)(..)'', ''(...)'', ''(..)'', ''(.)'']"

definition intercepting_route_marker :: "string \<Rightarrow> string option" where
  "intercepting_route_marker segment = List.find (starts_with segment) INTERCEPTING_ROUTE_MARKERS"

definition intercept_climb :: "string \<Rightarrow> nat option" where
  "intercept_climb marker =
     (if marker = ''(.)'' then Some 0
      else if marker = ''(..)'' then Some 1
      else if marker = ''(..)(..)'' then Some 2
      else None)"

definition is_inside_slot :: "path \<Rightarrow> bool" where
  "is_inside_slot relative = list_ex (\<lambda>name. starts_with name ''@'') relative"

section \<open>Interceptions outside a slot\<close>

definition not_private_dir :: "path \<Rightarrow> walk_entry \<Rightarrow> bool" where
  "not_private_dir app e \<longleftrightarrow>
     walk_kind e \<noteq> WalkDir \<or> walk_path e = app \<or> \<not> starts_with (walk_name e) ''_''"

definition intercept_offender :: "path \<Rightarrow> walk_entry \<Rightarrow> bool" where
  "intercept_offender app e \<longleftrightarrow>
     walk_kind e = WalkDir \<and> intercepting_route_marker (walk_name e) \<noteq> None \<and>
     (case strip_dir app (walk_path e) of Some relative \<Rightarrow> \<not> is_inside_slot relative | None \<Rightarrow> False)"

definition reject_intercepting_routes :: "file_system \<Rightarrow> path \<Rightarrow> unit result" where
  "reject_intercepting_routes fs app =
     rbind (collect_results (map walk_item (fs_walk fs app (not_private_dir app)))) (\<lambda>entries.
       case sort_key walk_path (filter (intercept_offender app) entries) of
         [] \<Rightarrow> Inr ()
       | e # _ \<Rightarrow> Inl (Diagnostic ''RUV1005'' ''Intercepting route is outside a parallel-route slot''
                          (Some (walk_path e)) []))"

section \<open>Slots\<close>

fun named_loop :: "path \<Rightarrow> (string \<times> bool option) list \<Rightarrow> (string \<times> path) list result" where
  "named_loop level [] = Inr []"
| "named_loop level (entry # entries) =
     rbind (entry_is_directory level entry) (\<lambda>is_dir.
       rbind (named_loop level entries) (\<lambda>rest.
         Inr (if is_dir then
                (case strip_prefix (fst entry) ''@'' of
                   Some name \<Rightarrow> if name = [] then rest else (name, level @ [fst entry]) # rest
                 | None \<Rightarrow> rest)
              else rest)))"

definition named_slot_directories :: "file_system \<Rightarrow> path \<Rightarrow> (string \<times> path) list result" where
  "named_slot_directories fs level = rbind (read_route_directory fs level) (named_loop level)"

definition slot_page_for :: "file_system \<Rightarrow> path \<Rightarrow> string list \<Rightarrow> path option" where
  "slot_page_for fs slot_dir remaining =
     option_or (List.find (fs_is_file fs) (map (\<lambda>name. slot_dir @ remaining @ [name]) page_file_names))
       (List.find (fs_is_file fs)
          (map (\<lambda>name. slot_dir @ [name]) (route_file_names ''default'' COMPONENT_EXTENSIONS)))"

definition slots_at_level :: "file_system \<Rightarrow> path \<Rightarrow> path \<Rightarrow> string list \<Rightarrow> route_slot list result" where
  "slots_at_level fs app level remaining =
     rbind (named_slot_directories fs level) (\<lambda>named.
       Inr (List.map_filter (\<lambda>(name, slot_dir).
               map_option (\<lambda>file. \<lparr>slot_level = directory_id app level, slot_name = name, slot_file = file\<rparr>)
                 (slot_page_for fs slot_dir remaining))
             (sort_key fst named)))"

definition levels_of :: "path \<Rightarrow> path \<Rightarrow> (path \<times> string list) list" where
  "levels_of app segments = map (\<lambda>depth. (app @ take depth segments, drop depth segments)) [0..<Suc (length segments)]"

definition route_slots :: "file_system \<Rightarrow> path \<Rightarrow> path \<Rightarrow> route_slot list result" where
  "route_slots fs app route_dir =
     (case strip_dir app route_dir of
        None \<Rightarrow> Inr []
      | Some segments \<Rightarrow>
          rbind (collect_results (map (\<lambda>(level, remaining). slots_at_level fs app level remaining)
                   (levels_of app segments)))
            (\<lambda>slots. Inr (concat slots)))"

section \<open>Interceptions\<close>

text \<open>One entry of the walk below a slot: the page, its marker, and the segments it contributes.\<close>

definition intercept_page :: "path \<Rightarrow> walk_entry \<Rightarrow> (path \<times> string \<times> string list) option" where
  "intercept_page slot_dir e =
     (if walk_kind e \<noteq> WalkFile \<or> \<not> is_page_file (walk_name e) then None
      else
        (case strip_dir slot_dir (butlast (walk_path e)) of
           None \<Rightarrow> None
         | Some [] \<Rightarrow> None
         | Some (first # rest) \<Rightarrow>
             (case intercepting_route_marker first of
                None \<Rightarrow> None
              | Some marker \<Rightarrow>
                  (let head = drop (length marker) first in
                   if head = [] then None else Some (walk_path e, marker, head # rest)))))"

definition intercept_pages :: "file_system \<Rightarrow> path \<Rightarrow> (path \<times> string \<times> string list) list result" where
  "intercept_pages fs slot_dir =
     rbind (collect_results (map walk_item (fs_walk fs slot_dir (\<lambda>_. True)))) (\<lambda>entries.
       Inr (List.map_filter (intercept_page slot_dir) entries))"

definition path_parts :: "string \<Rightarrow> string list" where
  "path_parts p = filter (\<lambda>part. part \<noteq> []) (split_on (CHR ''/'') p)"

definition drop_route_segments :: "string \<Rightarrow> nat \<Rightarrow> string option" where
  "drop_route_segments p count =
     (let parts = path_parts p in
      if length parts < count then None else Some (''/'' @ join_with ''/'' (take (length parts - count) parts)))"

definition intercept_target_path :: "string \<Rightarrow> string \<Rightarrow> string list \<Rightarrow> string option" where
  "intercept_target_path level_path marker segments =
     (case (case intercept_climb marker of None \<Rightarrow> Some ''/'' | Some climb \<Rightarrow> drop_route_segments level_path climb) of
        None \<Rightarrow> None
      | Some base \<Rightarrow> Some (''/'' @ join_with ''/'' (path_parts base @ segments)))"

definition intercept_climbs_past_root :: "path \<Rightarrow> diagnostic" where
  "intercept_climbs_past_root file =
     Diagnostic ''RUV1018'' ''Intercepting route climbs above the app root'' (Some file) []"

definition slot_intercepts ::
  "file_system \<Rightarrow> path \<Rightarrow> path \<Rightarrow> string \<Rightarrow> string \<times> path \<Rightarrow> route_intercept list result" where
  "slot_intercepts fs app level level_path slot =
     rbind (intercept_pages fs (snd slot)) (\<lambda>pages.
       collect_results (map (\<lambda>(file, marker, segments).
           case intercept_target_path level_path marker segments of
             None \<Rightarrow> Inl (intercept_climbs_past_root file)
           | Some target \<Rightarrow>
               Inr \<lparr>intercept_level = directory_id app level, intercept_name = fst slot, intercept_target = target,
                    intercept_marker = marker, intercept_file = file\<rparr>) pages))"

definition intercepts_at_level :: "file_system \<Rightarrow> path \<Rightarrow> path \<Rightarrow> route_intercept list result" where
  "intercepts_at_level fs app level =
     (let relative = (case strip_dir app level of Some r \<Rightarrow> r | None \<Rightarrow> []) in
      rbind (route_path_from_dir relative) (\<lambda>level_path.
        rbind (named_slot_directories fs level) (\<lambda>slots.
          rbind (collect_results (map (slot_intercepts fs app level level_path) (sort_key fst slots)))
            (\<lambda>found. Inr (concat found)))))"

definition route_intercepts :: "file_system \<Rightarrow> path \<Rightarrow> path \<Rightarrow> route_intercept list result" where
  "route_intercepts fs app route_dir =
     (case strip_dir app route_dir of
        None \<Rightarrow> Inr []
      | Some segments \<Rightarrow>
          rbind (collect_results (map (\<lambda>(level, _). intercepts_at_level fs app level) (levels_of app segments)))
            (\<lambda>found. Inr (remdups_adj
               (sort_key (\<lambda>i. (intercept_level i, intercept_name i, intercept_target i)) (concat found)))))"

section \<open>Checks over the manifest\<close>

definition detect_unreachable_intercepts :: "route_entry list \<Rightarrow> unit result" where
  "detect_unreachable_intercepts rs =
     (let pages = set (map (\<lambda>r. route_match_shape (entry_path r)) (filter (\<lambda>r. entry_kind r = Page) rs));
          unreachable = sort_key (\<lambda>i. (intercept_file i, intercept_target i))
            (filter (\<lambda>i. route_match_shape (intercept_target i) \<notin> pages) (concat (map entry_intercepts rs))) in
      case unreachable of
        [] \<Rightarrow> Inr ()
      | i # _ \<Rightarrow> Inl (Diagnostic ''RUV1006'' ''Intercepting route has no route to intercept'' (Some (intercept_file i)) []))"

definition server_component_conflict :: "route_entry \<Rightarrow> diagnostic option" where
  "server_component_conflict r =
     (if strategy (entry_render r) = Csr then
        Some (Diagnostic ''RUV1011'' ''Page declares both `use client` and server components'' (Some (entry_file r)) [])
      else if strategy (entry_render r) = Ppr then
        Some (Diagnostic ''RUV1019'' ''Server components route also opts into partial pre-rendering''
                (Some (entry_file r)) [])
      else if entry_intercepts r \<noteq> [] then
        Some (Diagnostic ''RUV1020'' ''Server components route carries an intercepting route'' (Some (entry_file r)) [])
      else None)"

definition detect_server_component_conflicts :: "route_entry list \<Rightarrow> unit result" where
  "detect_server_component_conflicts rs =
     (case find_map server_component_conflict (filter (\<lambda>r. server_components (entry_render r)) rs) of
        None \<Rightarrow> Inr () | Some d \<Rightarrow> Inl d)"

section \<open>What the checks establish\<close>

lemma walk_items_Inr: "collect_results (map walk_item ws) = Inr es \<longleftrightarrow> ws = map Inr es"
proof (induction ws arbitrary: es)
  case (Cons w ws)
  then show ?case by (cases w; cases es) (auto simp: walk_item_def result_simps)
qed auto

lemma sort_key_Nil_iff [simp]: "sort_key f xs = [] \<longleftrightarrow> xs = []"
  by (metis length_0_conv length_sort)

lemma first_offender:
  "(case sort_key k xs of [] \<Rightarrow> Inr () | e # _ \<Rightarrow> Inl (d e)) = Inr () \<longleftrightarrow> xs = []"
proof (cases "sort_key k xs")
  case (Cons y ys)
  then have "xs \<noteq> []" by auto
  with Cons show ?thesis by simp
qed simp

text \<open>The refusal of stray interceptions is complete: the tree passes exactly when every directory of it was
  read and no folder outside a slot opens with an interception marker.\<close>

theorem reject_intercepting_routes_iff:
  "reject_intercepting_routes fs app = Inr () \<longleftrightarrow>
     (\<exists>entries. fs_walk fs app (not_private_dir app) = map Inr entries \<and>
        \<not> (\<exists>e\<in>set entries. intercept_offender app e))"
  unfolding reject_intercepting_routes_def rbind_Inr_iff walk_items_Inr first_offender filter_empty_conv by blast

lemma path_parts_join:
  "\<forall>v\<in>set vs. v \<noteq> [] \<and> CHR ''/'' \<notin> set v \<Longrightarrow> path_parts (''/'' @ join_with ''/'' vs) = vs"
proof (cases "vs = []")
  case False
  assume "\<forall>v\<in>set vs. v \<noteq> [] \<and> CHR ''/'' \<notin> set v"
  then have "split_on (CHR ''/'') (join_with ''/'' vs) = vs" "filter (\<lambda>p. p \<noteq> []) vs = vs"
    using False by (auto intro!: split_on_join simp: filter_id_conv)
  then show ?thesis by (simp add: path_parts_def)
qed (simp add: path_parts_def)

text \<open>The URL an interception covers: \<open>(.)\<close> names a segment below the level the slot is on,
  \<open>(..)\<close> and \<open>(..)(..)\<close> one and two levels up, any other marker a path from the root; a marker that climbs
  further than the level is deep has no target.\<close>

theorem intercept_target_path_spec:
  assumes "\<forall>v\<in>set level. v \<noteq> [] \<and> CHR ''/'' \<notin> set v"
  shows "intercept_target_path (''/'' @ join_with ''/'' level) marker segments =
     (case intercept_climb marker of
        None \<Rightarrow> Some (''/'' @ join_with ''/'' segments)
      | Some n \<Rightarrow>
          if n \<le> length level then Some (''/'' @ join_with ''/'' (take (length level - n) level @ segments))
          else None)"
proof -
  have parts: "path_parts (''/'' @ join_with ''/'' (take k level)) = take k level" for k
    using assms by (intro path_parts_join) (auto dest: in_set_takeD)
  have level: "path_parts (''/'' @ join_with ''/'' level) = level" using assms by (rule path_parts_join)
  have root: "path_parts ''/'' = []" by (simp add: path_parts_def)
  show ?thesis
  proof (cases "intercept_climb marker")
    case None
    with root show ?thesis by (simp add: intercept_target_path_def)
  next
    case (Some n)
    have "drop_route_segments (''/'' @ join_with ''/'' level) n =
        (if n \<le> length level then Some (''/'' @ join_with ''/'' (take (length level - n) level)) else None)"
      by (simp only: drop_route_segments_def level Let_def) auto
    with Some parts [of "length level - n"] show ?thesis
      by (simp only: intercept_target_path_def option.case) (auto split: if_splits)
  qed
qed

theorem intercept_target_path_spec_witness:
  "intercept_target_path ''/feed/list'' ''(..)'' [''photo'', ''[id]''] = Some ''/feed/photo/[id]''"
  using intercept_target_path_spec [of "[''feed'', ''list'']" "''(..)''" "[''photo'', ''[id]'']"]
  by (simp add: intercept_climb_def)

lemma detect_unreachable_intercepts_iff:
  "detect_unreachable_intercepts rs = Inr () \<longleftrightarrow>
     \<not> (\<exists>r\<in>set rs. \<exists>i\<in>set (entry_intercepts r).
          \<not> (\<exists>page\<in>set rs. entry_kind page = Page \<and>
               route_match_shape (entry_path page) = route_match_shape (intercept_target i)))"
proof -
  let ?pages = "set (map (\<lambda>r. route_match_shape (entry_path r)) (filter (\<lambda>r. entry_kind r = Page) rs))"
  let ?bad = "filter (\<lambda>i. route_match_shape (intercept_target i) \<notin> ?pages) (concat (map entry_intercepts rs))"
  have "detect_unreachable_intercepts rs = Inr () \<longleftrightarrow> ?bad = []"
    unfolding detect_unreachable_intercepts_def Let_def by (rule first_offender)
  also have "\<dots> \<longleftrightarrow> \<not> (\<exists>r\<in>set rs. \<exists>i\<in>set (entry_intercepts r).
          \<not> (\<exists>page\<in>set rs. entry_kind page = Page \<and>
               route_match_shape (entry_path page) = route_match_shape (intercept_target i)))"
    unfolding filter_empty_conv by (auto simp: image_iff) metis+
  finally show ?thesis .
qed

end
