(* ===== verification/Render_Strategy.thy ===== *)
theory Render_Strategy
  imports Route_Files
begin

text \<open>
  How a route is rendered: \<open>src/crates/ruvyxa_graph/src/render.rs\<close>. The exports of the page decide first;
  a static route with no such export is pre-rendered when no module it reaches, nor any its layouts reach, touches
  request data.

  Every function threads the module cache. \<open>None\<close> as an outer result is a walk that never ends; the
  lemmas show that a project with finitely many reachable modules never gives it.
\<close>

section \<open>Values of route exports\<close>

definition trim_chars :: "string \<Rightarrow> string \<Rightarrow> string" where
  "trim_chars cs s = rev (dropWhile (\<lambda>c. c \<in> set cs) (rev (dropWhile (\<lambda>c. c \<in> set cs) s)))"

definition single_double :: string where
  "single_double = [CHR 0x27, CHR 0x22]"

definition strip_suffix_or :: "string \<Rightarrow> string \<Rightarrow> string" where
  "strip_suffix_or s ending = (if ends_with s ending then take (length s - length ending) s else s)"

definition EDGE_UNAVAILABLE_BUILTINS :: "string list" where
  "EDGE_UNAVAILABLE_BUILTINS =
     [''child_process'', ''cluster'', ''dgram'', ''dns'', ''fs'', ''http2'', ''inspector'', ''module'', ''net'',
      ''os'', ''readline'', ''repl'', ''tls'', ''trace_events'', ''tty'', ''v8'', ''vm'', ''wasi'',
      ''worker_threads'']"

definition edge_forbidden_builtin :: "string \<Rightarrow> string option" where
  "edge_forbidden_builtin specifier =
     (let bare = (case strip_prefix specifier ''node:'' of Some b \<Rightarrow> b | None \<Rightarrow> specifier);
          head = hd (split_on (CHR ''/'') bare) in
      List.find (\<lambda>name. name = head) EDGE_UNAVAILABLE_BUILTINS)"

definition runtime_target_from_value :: "string \<Rightarrow> runtime_target option" where
  "runtime_target_from_value raw =
     (let value = trim (trim_semicolons raw);
          value = trim (strip_suffix_or value ''as const'');
          value = trim_chars (CHR 0x60 # single_double) value in
      if value = ''edge'' then Some Edge
      else if value = ''nodejs'' \<or> value = ''node'' then Some Node
      else None)"

definition parse_hydration_mode :: "string \<Rightarrow> string \<Rightarrow> hydration_mode" where
  "parse_hydration_mode source masked =
     (case export_const_value source masked ''hydrate'' of
        None \<Rightarrow> Load
      | Some v \<Rightarrow>
          (let value = trim (trim_semicolons v);
               value = trim (strip_suffix_or value ''as const'');
               value = trim_chars single_double value in
           if value = ''false'' \<or> value = ''none'' then NoHydration
           else if value = ''idle'' then Idle
           else if value = ''visible'' then Visible
           else Load))"

section \<open>Data markers\<close>

definition identifier_byte :: "char \<Rightarrow> bool" where
  "identifier_byte c \<longleftrightarrow> is_ascii_alphanumeric c \<or> c = CHR ''_'' \<or> c = CHR ''$''"

text \<open>\<open>match_indices\<close>: occurrences from the left that do not overlap; \<open>prev\<close> is the byte before the
  rest of the text.\<close>

function marker_loop :: "string \<Rightarrow> char option \<Rightarrow> string \<Rightarrow> bool" where
  "marker_loop marker prev [] = False"
| "marker_loop marker prev (c # cs) =
     (if marker \<noteq> [] \<and> starts_with (c # cs) marker then
        \<not> (case prev of Some p \<Rightarrow> identifier_byte p | None \<Rightarrow> False) \<or>
        marker_loop marker (Some (last marker)) (drop (length marker) (c # cs))
      else marker_loop marker (Some c) cs)"
  by pat_completeness auto
termination
  by (relation "measure (\<lambda>(m, p, s). length s)") auto

definition contains_marker_identifier :: "string \<Rightarrow> string \<Rightarrow> bool" where
  "contains_marker_identifier code marker = marker_loop marker None code"

definition DATA_MARKERS :: "string list" where
  "DATA_MARKERS =
     [''fetch('', ''headers('', ''cookies('', ''searchParams'', ''Date.now('', ''Math.random('', ''process.env.'']"

definition has_dynamic_data_markers :: "string \<Rightarrow> bool" where
  "has_dynamic_data_markers code = list_ex (contains_marker_identifier code) DATA_MARKERS"

definition route_has_dynamic_segments :: "string \<Rightarrow> bool" where
  "route_has_dynamic_segments route_path =
     list_ex (\<lambda>s. starts_with s ''['' \<and> ends_with s '']'') (split_on (CHR ''/'') route_path)"

section \<open>Reachable code\<close>

fun reachable_layouts ::
  "module_env \<Rightarrow> file_system \<Rightarrow> path \<Rightarrow> module_cache \<Rightarrow> path set \<Rightarrow> string list
     \<Rightarrow> (path set option \<times> module_cache) option" where
  "reachable_layouts env fs app c files [] = Some (Some files, c)"
| "reachable_layouts env fs app c files (layout # layouts) =
     (case resolve_layout_file fs app layout of
        None \<Rightarrow> Some (None, c)
      | Some f \<Rightarrow>
          (case collect_relative_graph env c f of
             None \<Rightarrow> None
           | Some (g, c) \<Rightarrow> reachable_layouts env fs app c (files \<union> g) layouts))"

fun masked_concat :: "module_env \<Rightarrow> module_cache \<Rightarrow> path list \<Rightarrow> string option \<times> module_cache" where
  "masked_concat env c [] = (Some [], c)"
| "masked_concat env c (p # ps) =
     (case masked_of env c p of
        (None, c) \<Rightarrow> (None, c)
      | (Some m, c) \<Rightarrow>
          (case masked_concat env c ps of
             (None, c) \<Rightarrow> (None, c)
           | (Some r, c) \<Rightarrow> (Some (m @ [CHR 0x0A] @ r), c)))"

definition render_reachable_code ::
  "module_env \<Rightarrow> file_system \<Rightarrow> module_cache \<Rightarrow> path \<Rightarrow> path \<Rightarrow> string list
     \<Rightarrow> (string option \<times> module_cache) option" where
  "render_reachable_code env fs c app file chain =
     (case collect_relative_graph env c file of
        None \<Rightarrow> None
      | Some (files, c) \<Rightarrow>
          (case reachable_layouts env fs app c files chain of
             None \<Rightarrow> None
           | Some (None, c) \<Rightarrow> Some (None, c)
           | Some (Some files, c) \<Rightarrow> Some (masked_concat env c (sorted_list_of_set files))))"

section \<open>Strategy\<close>

definition dynamic_export :: "string \<Rightarrow> string \<Rightarrow> string option" where
  "dynamic_export source code =
     map_option (\<lambda>v. trim_chars single_double (trim (trim_semicolons v))) (export_const_value source code ''dynamic'')"

text \<open>Rules 1 to 4: what the page's own text decides.\<close>

definition explicit_strategy :: "string \<Rightarrow> string \<Rightarrow> render_meta option" where
  "explicit_strategy source code =
     (if has_module_directive source ''use client'' then Some (render_meta_default\<lparr>strategy := Csr\<rparr>)
      else
        (let h = parse_hydration_mode source code in
         if dynamic_export source code = Some ''force-dynamic''
           then Some (render_meta_default\<lparr>hydration := h, force_dynamic := True\<rparr>)
         else if dynamic_export source code \<in> {Some ''force-static'', Some ''error''}
           then Some (render_meta_default
             \<lparr>strategy := Ssg, has_static_params := has_static_params_export code, hydration := h\<rparr>)
         else if has_export_const_bool source code ''ppr'' True
           then Some (render_meta_default\<lparr>strategy := Ppr, has_dynamic_slots := True, hydration := h\<rparr>)
         else
           (case parse_export_const_number source code ''revalidate'' of
              Some seconds \<Rightarrow>
                Some (render_meta_default
                  \<lparr>strategy := Isr, revalidate := Some seconds, has_static_params := has_static_params_export code,
                   hydration := h\<rparr>)
            | None \<Rightarrow>
                if has_static_params_export code
                then Some (render_meta_default\<lparr>strategy := Ssg, has_static_params := True, hydration := h\<rparr>)
                else None)))"

definition detect_render_meta ::
  "module_env \<Rightarrow> file_system \<Rightarrow> module_cache \<Rightarrow> path \<Rightarrow> path \<Rightarrow> string \<Rightarrow> string list
     \<Rightarrow> (render_meta \<times> module_cache) option" where
  "detect_render_meta env fs c app file route_path chain =
     (case module_of env c file of
        (None, c) \<Rightarrow> Some (render_meta_default, c)
      | (Some page, c) \<Rightarrow>
          (case masked_of env c file of
             (None, c) \<Rightarrow> Some (render_meta_default, c)
           | (Some code, c) \<Rightarrow>
               (let source = module_source page; h = parse_hydration_mode source code in
                case explicit_strategy source code of
                  Some meta \<Rightarrow> Some (meta, c)
                | None \<Rightarrow>
                    if route_has_dynamic_segments route_path then Some (render_meta_default\<lparr>hydration := h\<rparr>, c)
                    else
                      (case render_reachable_code env fs c app file chain of
                         None \<Rightarrow> None
                       | Some (reachable, c) \<Rightarrow>
                           (case reachable of
                              Some text \<Rightarrow>
                                if \<not> has_dynamic_data_markers text
                                then Some (render_meta_default\<lparr>strategy := Ssg, hydration := h\<rparr>, c)
                                else Some (render_meta_default\<lparr>hydration := h\<rparr>, c)
                            | None \<Rightarrow> Some (render_meta_default\<lparr>hydration := h\<rparr>, c))))))"

definition opts_into_server_components :: "module_env \<Rightarrow> module_cache \<Rightarrow> path \<Rightarrow> bool \<times> module_cache" where
  "opts_into_server_components env c file =
     (case module_of env c file of
        (None, c) \<Rightarrow> (False, c)
      | (Some page, c) \<Rightarrow>
          (case masked_of env c file of
             (None, c) \<Rightarrow> (False, c)
           | (Some code, c) \<Rightarrow> (has_export_const_bool (module_source page) code ''serverComponents'' True, c)))"

definition detect_render_strategy ::
  "module_env \<Rightarrow> file_system \<Rightarrow> module_cache \<Rightarrow> path \<Rightarrow> path \<Rightarrow> string \<Rightarrow> string list
     \<Rightarrow> (render_meta \<times> module_cache) option" where
  "detect_render_strategy env fs c app file route_path chain =
     (case detect_render_meta env fs c app file route_path chain of
        None \<Rightarrow> None
      | Some (meta, c) \<Rightarrow>
          (let (opts, c) = opts_into_server_components env c file in Some (meta\<lparr>server_components := opts\<rparr>, c)))"

definition detect_runtime_target :: "module_env \<Rightarrow> module_cache \<Rightarrow> path \<Rightarrow> runtime_target result \<times> module_cache" where
  "detect_runtime_target env c file =
     (case module_of env c file of
        (None, c) \<Rightarrow> (Inr Node, c)
      | (Some m, c) \<Rightarrow>
          (case masked_of env c file of
             (None, c) \<Rightarrow> (Inr Node, c)
           | (Some masked, c) \<Rightarrow>
               (case export_const_value (module_source m) masked ''runtime'' of
                  None \<Rightarrow> (Inr Node, c)
                | Some raw \<Rightarrow>
                    (case runtime_target_from_value raw of
                       Some target \<Rightarrow> (Inr target, c)
                     | None \<Rightarrow> (Inl (Diagnostic ''RUV1012'' ''Unknown route runtime'' (Some file) []), c)))))"

definition apply_rendering_defaults :: "render_meta \<Rightarrow> render_strategy option \<Rightarrow> nat option \<Rightarrow> render_meta" where
  "apply_rendering_defaults render default_strategy default_revalidate =
     (if strategy render \<noteq> Ssr then render
      else
        (case default_strategy of
           None \<Rightarrow> render
         | Some s \<Rightarrow>
             (let render = render\<lparr>strategy := s\<rparr> in
              if s = Isr then render\<lparr>revalidate := Some (case default_revalidate of Some n \<Rightarrow> n | None \<Rightarrow> 60)\<rparr>
              else render)))"

section \<open>Markers in joined text\<close>

lemma starts_with_newline:
  assumes "CHR 0x0A \<notin> set mk"
  shows "starts_with (s @ CHR 0x0A # r) mk \<longleftrightarrow> starts_with s mk"
proof (cases "length mk \<le> length s")
  case True
  then show ?thesis by (simp add: starts_with_def)
next
  case False
  then obtain k where "length mk - length s = Suc k" by (cases "length mk - length s") auto
  then have "CHR 0x0A \<in> set (take (length mk) (s @ CHR 0x0A # r))" by simp
  then have "\<not> starts_with (s @ CHR 0x0A # r) mk" using assms by (metis starts_with_def)
  moreover have "\<not> starts_with s mk" using False by (auto simp: starts_with_iff)
  ultimately show ?thesis by simp
qed

lemma marker_loop_newline:
  assumes "CHR 0x0A \<notin> set mk" "mk \<noteq> []"
  shows "marker_loop mk prev (m @ CHR 0x0A # r) \<longleftrightarrow> marker_loop mk prev m \<or> marker_loop mk (Some (CHR 0x0A)) r"
  using assms
proof (induction mk prev m rule: marker_loop.induct)
  case (1 mk prev)
  then have "\<not> starts_with (CHR 0x0A # r) mk" by (cases mk) (auto simp: starts_with_iff)
  then show ?case by simp
next
  case (2 mk prev c cs)
  show ?case
  proof (cases "starts_with (c # cs) mk")
    case True
    then have "length mk \<le> length (c # cs)" by (metis starts_with_iff length_append le_add1)
    then have "drop (length mk) ((c # cs) @ CHR 0x0A # r) = drop (length mk) (c # cs) @ CHR 0x0A # r"
      by (simp only: drop_append) simp
    moreover have "starts_with ((c # cs) @ CHR 0x0A # r) mk" using starts_with_newline True 2 by blast
    ultimately show ?thesis using 2 True by simp
  next
    case False
    moreover have "\<not> starts_with ((c # cs) @ CHR 0x0A # r) mk" using starts_with_newline False 2 by blast
    ultimately show ?thesis using 2 by simp
  qed
qed

lemma marker_loop_prev: "marker_loop mk (Some (CHR 0x0A)) s = marker_loop mk None s"
proof -
  have "\<not> identifier_byte (CHR 0x0A)" by (simp add: identifier_byte_def str_simps)
  then show ?thesis by (cases s) auto
qed

lemma markers_joined:
  "has_dynamic_data_markers (m @ [CHR 0x0A] @ r) \<longleftrightarrow> has_dynamic_data_markers m \<or> has_dynamic_data_markers r"
  by (simp add: has_dynamic_data_markers_def contains_marker_identifier_def DATA_MARKERS_def
      marker_loop_newline marker_loop_prev) blast

lemma no_markers_empty [simp]: "\<not> has_dynamic_data_markers []"
  by (simp add: has_dynamic_data_markers_def contains_marker_identifier_def DATA_MARKERS_def)

section \<open>The decision without the cache\<close>

definition masked_clean :: "module_env \<Rightarrow> path \<Rightarrow> bool" where
  "masked_clean env f = (case read_masked env f of None \<Rightarrow> False | Some code \<Rightarrow> \<not> has_dynamic_data_markers code)"

definition layout_modules :: "module_env \<Rightarrow> path list \<Rightarrow> path set" where
  "layout_modules env ls = (\<Union>l\<in>set ls. module_closure env l)"

text \<open>No module the route reaches, through the page or any of its layouts, touches request data; a layout or a
  module that cannot be read is not clean.\<close>

definition data_free :: "module_env \<Rightarrow> file_system \<Rightarrow> path \<Rightarrow> path \<Rightarrow> string list \<Rightarrow> bool" where
  "data_free env fs app file chain =
     (case those (map (resolve_layout_file fs app) chain) of
        None \<Rightarrow> False
      | Some ls \<Rightarrow> (\<forall>f\<in>module_closure env file \<union> layout_modules env ls. masked_clean env f))"

definition render_decision :: "module_env \<Rightarrow> file_system \<Rightarrow> path \<Rightarrow> path \<Rightarrow> string \<Rightarrow> string list \<Rightarrow> render_meta" where
  "render_decision env fs app file route_path chain =
     (case (read_module env file, read_masked env file) of
        (Some page, Some code) \<Rightarrow>
          (case explicit_strategy (module_source page) code of
             Some meta \<Rightarrow> meta
           | None \<Rightarrow>
               render_meta_default
                 \<lparr>strategy := (if \<not> route_has_dynamic_segments route_path \<and> data_free env fs app file chain
                               then Ssg else Ssr),
                  hydration := parse_hydration_mode (module_source page) code\<rparr>)
      | _ \<Rightarrow> render_meta_default)"

lemma masked_concat_pair:
  "cache_ok env c \<Longrightarrow>
   \<exists>r c'. masked_concat env c ps = (r, c') \<and> cache_ok env c' \<and>
     (case r of None \<Rightarrow> \<exists>p\<in>set ps. read_masked env p = None
      | Some text \<Rightarrow> (\<forall>p\<in>set ps. read_masked env p \<noteq> None) \<and>
          (has_dynamic_data_markers text \<longleftrightarrow> (\<exists>p\<in>set ps. \<not> masked_clean env p)))"
proof (induction ps arbitrary: c)
  case (Cons p ps)
  obtain c1 where c1: "masked_of env c p = (read_masked env p, c1)" "cache_ok env c1"
    using masked_of_pair [OF Cons.prems] by blast
  show ?case
  proof (cases "read_masked env p")
    case None
    with c1 show ?thesis by simp
  next
    case (Some m)
    obtain r c2 where r: "masked_concat env c1 ps = (r, c2)" "cache_ok env c2"
      "case r of None \<Rightarrow> \<exists>p\<in>set ps. read_masked env p = None
       | Some text \<Rightarrow> (\<forall>p\<in>set ps. read_masked env p \<noteq> None) \<and>
          (has_dynamic_data_markers text \<longleftrightarrow> (\<exists>p\<in>set ps. \<not> masked_clean env p))"
      using Cons.IH [OF c1(2)] by blast
    show ?thesis
    proof (cases r)
      case None
      with r c1 Some show ?thesis by simp
    next
      case (Some body)
      have "masked_clean env p \<longleftrightarrow> \<not> has_dynamic_data_markers m"
        using \<open>read_masked env p = Some m\<close> by (simp add: masked_clean_def)
      with Some r c1 \<open>read_masked env p = Some m\<close> markers_joined [of m body] show ?thesis
        by simp
    qed
  qed
qed simp

lemma reachable_layouts_pair:
  assumes "cache_ok env c"
    and "\<And>l f. l \<in> set chain \<Longrightarrow> resolve_layout_file fs app l = Some f \<Longrightarrow> finite (module_closure env f)"
  shows "\<exists>c'. cache_ok env c' \<and> reachable_layouts env fs app c files chain =
     Some (map_option (\<lambda>ls. files \<union> layout_modules env ls) (those (map (resolve_layout_file fs app) chain)), c')"
  using assms
proof (induction chain arbitrary: c files)
  case Nil
  then show ?case by (simp add: layout_modules_def)
next
  case (Cons l chain)
  show ?case
  proof (cases "resolve_layout_file fs app l")
    case None
    with Cons.prems show ?thesis by simp
  next
    case (Some f)
    obtain c1 where c1: "collect_relative_graph env c f = Some (module_closure env f, c1)" "cache_ok env c1"
      using collect_pair Cons.prems Some by (metis list.set_intros(1))
    obtain c2 where "cache_ok env c2" "reachable_layouts env fs app c1 (files \<union> module_closure env f) chain =
      Some (map_option (\<lambda>ls. (files \<union> module_closure env f) \<union> layout_modules env ls)
        (those (map (resolve_layout_file fs app) chain)), c2)"
      using Cons.IH [OF c1(2)] Cons.prems(2) by (metis list.set_intros(2))
    with Some c1 show ?thesis
      by (auto simp: layout_modules_def Un_assoc option.map_comp comp_def)
  qed
qed

lemma those_set: "those xs = Some ys \<Longrightarrow> y \<in> set ys \<Longrightarrow> Some y \<in> set xs"
  by (induction xs arbitrary: ys) (auto split: option.splits)

lemma reachable_code_pair:
  assumes ok: "cache_ok env c" and fin: "finite (module_closure env file)"
    and lay: "\<And>l f. l \<in> set chain \<Longrightarrow> resolve_layout_file fs app l = Some f \<Longrightarrow> finite (module_closure env f)"
  shows "\<exists>r c'. render_reachable_code env fs c app file chain = Some (r, c') \<and> cache_ok env c' \<and>
     ((case r of None \<Rightarrow> False | Some text \<Rightarrow> \<not> has_dynamic_data_markers text) \<longleftrightarrow> data_free env fs app file chain)"
proof -
  obtain c1 where c1: "collect_relative_graph env c file = Some (module_closure env file, c1)" "cache_ok env c1"
    using collect_pair [OF ok fin] by blast
  obtain c2 where c2: "cache_ok env c2" "reachable_layouts env fs app c1 (module_closure env file) chain =
     Some (map_option (\<lambda>ls. module_closure env file \<union> layout_modules env ls)
       (those (map (resolve_layout_file fs app) chain)), c2)"
    using reachable_layouts_pair [OF c1(2), of chain fs app] lay by blast
  show ?thesis
  proof (cases "those (map (resolve_layout_file fs app) chain)")
    case None
    with c1 c2 show ?thesis by (simp add: render_reachable_code_def data_free_def)
  next
    case (Some ls)
    let ?ms = "module_closure env file \<union> layout_modules env ls"
    have "finite (module_closure env l)" if "l \<in> set ls" for l
      using those_set [OF Some that] lay by auto
    then have "finite ?ms" using fin by (simp add: layout_modules_def)
    then have set: "set (sorted_list_of_set ?ms) = ?ms" by simp
    obtain r c3 where r: "masked_concat env c2 (sorted_list_of_set ?ms) = (r, c3)" "cache_ok env c3"
      "case r of None \<Rightarrow> \<exists>p\<in>?ms. read_masked env p = None
       | Some text \<Rightarrow> (\<forall>p\<in>?ms. read_masked env p \<noteq> None) \<and>
          (has_dynamic_data_markers text \<longleftrightarrow> (\<exists>p\<in>?ms. \<not> masked_clean env p))"
      using masked_concat_pair [OF c2(1), of "sorted_list_of_set ?ms"] unfolding set by blast
    have eq: "render_reachable_code env fs c app file chain = Some (r, c3)"
      using c1 c2 Some r(1) by (simp add: render_reachable_code_def)
    have "(case r of None \<Rightarrow> False | Some text \<Rightarrow> \<not> has_dynamic_data_markers text) \<longleftrightarrow> (\<forall>f\<in>?ms. masked_clean env f)"
      using r(3) by (cases r) (force simp: masked_clean_def)+
    with eq r(2) Some show ?thesis by (simp add: data_free_def)
  qed
qed

text \<open>C27. The rendering decision is the one the project's files call for: whatever was cached before, detection
  returns, and a route whose page states no strategy is pre-rendered exactly when it has no dynamic segment and
  no module reachable from the page or from one of its layouts touches request data.\<close>

theorem render_meta_decision:
  assumes "cache_ok env c" "finite (module_closure env file)"
    and "\<forall>l\<in>set chain. \<forall>f. resolve_layout_file fs app l = Some f \<longrightarrow> finite (module_closure env f)"
  shows "\<exists>c'. detect_render_meta env fs c app file route_path chain =
     Some (render_decision env fs app file route_path chain, c')"
proof -
  obtain c1 where c1: "module_of env c file = (read_module env file, c1)" "cache_ok env c1"
    using module_of_pair [OF assms(1)] by blast
  obtain c2 where c2: "masked_of env c1 file = (read_masked env file, c2)" "cache_ok env c2"
    using masked_of_pair [OF c1(2)] by blast
  obtain r c3 where r: "render_reachable_code env fs c2 app file chain = Some (r, c3)"
    "(case r of None \<Rightarrow> False | Some text \<Rightarrow> \<not> has_dynamic_data_markers text) \<longleftrightarrow> data_free env fs app file chain"
    using reachable_code_pair [OF c2(2) assms(2)] assms(3) by blast
  show ?thesis
    using c1 c2 r
    by (auto simp: detect_render_meta_def render_decision_def render_meta_default_def Let_def split: option.splits)
qed

text \<open>The cyclic project of \<open>Module_Graph\<close>, served at a static path, touches no request data.\<close>

lemma cyclic_clean: "render_decision cyclic_env blog_tree [''site'', ''app''] [''a.ts''] ''/about'' [] =
    render_meta_default\<lparr>strategy := Ssg\<rparr>"
proof -
  have "masked_clean cyclic_env f" if "f \<in> {[''a.ts''], [''b.ts''], [''c.ts'']}" for f
    using that by (elim insertE emptyE; simp only:; code_simp)
  then have free: "data_free cyclic_env blog_tree [''site'', ''app''] [''a.ts''] []"
    using cyclic_closure by (auto simp: data_free_def layout_modules_def)
  have page: "read_module cyclic_env [''a.ts''] = Some (parse_source cyclic_env [''a.ts''] ''a.ts'')"
    "read_masked cyclic_env [''a.ts''] = Some ''a.ts''"
    "module_source (parse_source cyclic_env [''a.ts''] ''a.ts'') = ''a.ts''"
    by (simp_all add: read_module_def read_masked_def cyclic_env_def parse_source_def is_markdown_route_def
        path_extension_def file_extension_def Let_def)
  have "explicit_strategy ''a.ts'' ''a.ts'' = None" "parse_hydration_mode ''a.ts'' ''a.ts'' = Load"
    "\<not> route_has_dynamic_segments ''/about''"
    by code_simp+
  with free page show ?thesis
    by (simp add: render_decision_def render_meta_default_def)
qed

theorem render_meta_decision_witness:
  "\<exists>c'. detect_render_meta cyclic_env blog_tree in_root [''site'', ''app''] [''a.ts''] ''/about'' [] =
     Some (render_meta_default\<lparr>strategy := Ssg\<rparr>, c')"
  using render_meta_decision [of cyclic_env in_root "[''a.ts'']" "[]" blog_tree "[''site'', ''app'']" "''/about''"]
    finite_subset [OF cyclic_closure] cyclic_clean
  by simp

text \<open>A page that asks to be rendered per request, and its masked text.\<close>

definition force_dynamic_page :: string where
  "force_dynamic_page = ''export const dynamic = '' @ [CHR 0x27] @ ''force-dynamic'' @ [CHR 0x27]"

definition force_dynamic_masked :: string where
  "force_dynamic_masked = ''export const dynamic =                ''"

text \<open>A configured default strategy overrides a page that asked to be rendered per request: the page is
  recognised as force-dynamic, and with \<open>ssg\<close> as the default it is scheduled for pre-rendering all the same.\<close>

theorem default_strategy_overrides_force_dynamic:
  "\<exists>meta. explicit_strategy force_dynamic_page force_dynamic_masked = Some meta \<and> force_dynamic meta \<and>
     strategy meta = Ssr \<and> strategy (apply_rendering_defaults meta (Some Ssg) default_revalidate) = Ssg"
proof -
  have "explicit_strategy force_dynamic_page force_dynamic_masked =
      Some (render_meta_default\<lparr>hydration := Load, force_dynamic := True\<rparr>)"
    by code_simp
  then show ?thesis by (simp add: render_meta_default_def apply_rendering_defaults_def)
qed

end
