(* ===== verification/Discovery.thy ===== *)
theory Discovery
  imports Parallel_Routes Render_Strategy Radix_Router
begin

text \<open>
  Route discovery: \<open>discover_routes\<close> of \<open>src/crates/ruvyxa_graph/src/discovery.rs\<close>, which composes the
  naming rules, the slots and interceptions, the rendering strategy and the manifest checks into one manifest.

  The outer option is a graph walk that never ends (\<open>Render_Strategy\<close>); the result inside is the
  code's. Modules beside a route are kept as paths where the code keeps their text.
\<close>

section \<open>Discovery\<close>

record discover_options =
  opt_app_dir :: path
  default_render_strategy :: "render_strategy option"
  default_revalidate :: "nat option"
  opt_i18n :: "i18n_routing option"

definition routable_entry :: "path \<Rightarrow> walk_entry \<Rightarrow> bool" where
  "routable_entry app e \<longleftrightarrow>
     walk_kind e \<noteq> WalkDir \<or> walk_path e = app \<or>
     (\<not> starts_with (walk_name e) ''_'' \<and> \<not> starts_with (walk_name e) ''@'')"

definition route_kind_of :: "walk_entry \<Rightarrow> route_kind option" where
  "route_kind_of e =
     (if walk_kind e \<noteq> WalkFile then None
      else if is_page_file (walk_name e) then Some Page
      else if is_route_file (walk_name e) ''route'' HANDLER_EXTENSIONS then Some Api
      else None)"

definition render_of ::
  "module_env \<Rightarrow> file_system \<Rightarrow> discover_options \<Rightarrow> module_cache \<Rightarrow> route_kind \<Rightarrow> path \<Rightarrow> string \<Rightarrow> string list
     \<Rightarrow> (render_meta \<times> module_cache) option" where
  "render_of env fs opts c kind file route_path chain =
     (if kind = Page then
        map_option (\<lambda>(meta, c).
            (apply_rendering_defaults meta (default_render_strategy opts) (default_revalidate opts), c))
          (detect_render_strategy env fs c (opt_app_dir opts) file route_path chain)
      else Some (render_meta_default, c))"

definition discover_route ::
  "module_env \<Rightarrow> file_system \<Rightarrow> discover_options \<Rightarrow> module_cache \<Rightarrow> route_kind \<Rightarrow> path
     \<Rightarrow> (route_entry \<times> module_cache) result option" where
  "discover_route env fs opts c kind file =
     (let app = opt_app_dir opts;
          route_dir = (if file = [] then app else butlast file);
          relative_dir = (case strip_dir app route_dir of Some r \<Rightarrow> r | None \<Rightarrow> route_dir) in
      case route_path_from_dir relative_dir of
        Inl d \<Rightarrow> Some (Inl d)
      | Inr route_path \<Rightarrow>
          (let chain = layout_chain fs app route_dir in
           case route_slots fs app route_dir of
             Inl d \<Rightarrow> Some (Inl d)
           | Inr slots \<Rightarrow>
               (case route_intercepts fs app route_dir of
                  Inl d \<Rightarrow> Some (Inl d)
                | Inr intercepts \<Rightarrow>
                    (case detect_runtime_target env c file of
                       (Inl d, c) \<Rightarrow> Some (Inl d)
                     | (Inr runtime, c) \<Rightarrow>
                         (case render_of env fs opts c kind file route_path chain of
                            None \<Rightarrow> None
                          | Some (render, c) \<Rightarrow>
                              Some (Inr
                                (\<lparr>entry_id = route_id app file, entry_path = route_path, entry_kind = kind,
                                  entry_file = file, entry_layout_chain = chain,
                                  entry_template_chain = template_chain fs app route_dir, entry_slots = slots,
                                  entry_intercepts = intercepts,
                                  entry_server_modules = sibling_modules fs route_dir
                                    [''server.ts'', ''server.js'', ''action.ts'', ''action.js''],
                                  entry_client_modules = sibling_module fs route_dir
                                    (route_file_names ''client'' COMPONENT_EXTENSIONS),
                                  entry_runtime = runtime, entry_render = render\<rparr>, c)))))))"

fun discover_loop ::
  "module_env \<Rightarrow> file_system \<Rightarrow> discover_options \<Rightarrow> module_cache \<Rightarrow> (path option + walk_entry) list
     \<Rightarrow> route_entry list result option" where
  "discover_loop env fs opts c [] = Some (Inr [])"
| "discover_loop env fs opts c (item # items) =
     (case walk_item item of
        Inl d \<Rightarrow> Some (Inl d)
      | Inr e \<Rightarrow>
          (case route_kind_of e of
             None \<Rightarrow> discover_loop env fs opts c items
           | Some kind \<Rightarrow>
               (case discover_route env fs opts c kind (walk_path e) of
                  None \<Rightarrow> None
                | Some (Inl d) \<Rightarrow> Some (Inl d)
                | Some (Inr (r, c)) \<Rightarrow>
                    map_option (\<lambda>rest. rbind rest (\<lambda>rs. Inr (r # rs))) (discover_loop env fs opts c items))))"

definition discover_routes :: "module_env \<Rightarrow> file_system \<Rightarrow> discover_options \<Rightarrow> route_manifest result option" where
  "discover_routes env fs opts =
     (let app = opt_app_dir opts in
      if \<not> fs_exists fs app then Some (Inl (Diagnostic ''RUV1001'' ''App directory was not found'' (Some app) []))
      else
        (case reject_intercepting_routes fs app of
           Inl d \<Rightarrow> Some (Inl d)
         | Inr _ \<Rightarrow>
             map_option (\<lambda>found. rbind found (\<lambda>rs.
                 let rs = sort_key (\<lambda>r. (entry_path r, entry_id r)) rs in
                 rbind (detect_conflicts rs) (\<lambda>_.
                 rbind (detect_unreachable_intercepts rs) (\<lambda>_.
                 rbind (detect_server_component_conflicts rs) (\<lambda>_.
                   Inr \<lparr>app_dir = app, routes = rs, i18n = opt_i18n opts\<rparr>)))))
               (discover_loop env fs opts in_root (fs_walk fs app (routable_entry app)))))"

section \<open>What a manifest holds\<close>

lemma list_all2_left: "list_all2 P xs ys \<Longrightarrow> x \<in> set xs \<Longrightarrow> \<exists>y\<in>set ys. P x y"
  by (induction rule: list_all2_induct) auto

lemma list_all2_right: "list_all2 P xs ys \<Longrightarrow> y \<in> set ys \<Longrightarrow> \<exists>x\<in>set xs. P x y"
  by (induction rule: list_all2_induct) auto

text \<open>The route a file stands for: its URL comes from its folder alone.\<close>

definition route_of_file :: "path \<Rightarrow> path \<Rightarrow> route_entry \<Rightarrow> bool" where
  "route_of_file app file r \<longleftrightarrow>
     entry_file r = file \<and> entry_id r = route_id app file \<and>
     route_path_from_dir (case strip_dir app (butlast file) of Some d \<Rightarrow> d | None \<Rightarrow> butlast file)
       = Inr (entry_path r)"

lemma discover_route_file:
  assumes "discover_route env fs opts c kind file = Some (Inr (r, c'))" "file \<noteq> []"
  shows "route_of_file (opt_app_dir opts) file r \<and> entry_kind r = kind"
  using assms
  by (auto simp: discover_route_def route_of_file_def Let_def split: sum.splits prod.splits option.splits)

lemma discover_loop_files:
  assumes "discover_loop env fs opts c items = Some (Inr rs)"
  shows "\<exists>es. items = map Inr es \<and>
     list_all2 (\<lambda>e r. route_kind_of e = Some (entry_kind r) \<and> route_of_file (opt_app_dir opts) (walk_path e) r)
       (filter (\<lambda>e. route_kind_of e \<noteq> None) es) rs"
  using assms
proof (induction items arbitrary: c rs)
  case (Cons item items)
  obtain e where e: "item = Inr e" using Cons.prems by (cases item) (auto simp: walk_item_def)
  show ?case
  proof (cases "route_kind_of e")
    case None
    with Cons.prems e have "discover_loop env fs opts c items = Some (Inr rs)" by (simp add: walk_item_def)
    from Cons.IH [OF this] obtain es where "items = map Inr es"
      "list_all2 (\<lambda>e r. route_kind_of e = Some (entry_kind r) \<and> route_of_file (opt_app_dir opts) (walk_path e) r)
         (filter (\<lambda>e. route_kind_of e \<noteq> None) es) rs" by blast
    with None e show ?thesis by (intro exI [of _ "e # es"]) simp
  next
    case (Some kind)
    then have "walk_path e \<noteq> []"
      by (auto simp: route_kind_of_def walk_name_def is_page_file_def is_route_file_def starts_with_def
          strip_prefix_def split: if_splits)
    moreover obtain r c' rs' where r: "discover_route env fs opts c kind (walk_path e) = Some (Inr (r, c'))"
      "discover_loop env fs opts c' items = Some (Inr rs')" "rs = r # rs'"
      using Cons.prems e Some by (auto simp: walk_item_def rbind_Inr_iff split: option.splits sum.splits)
    ultimately have head: "route_of_file (opt_app_dir opts) (walk_path e) r" "entry_kind r = kind"
      using discover_route_file by blast+
    from Cons.IH [OF r(2)] obtain es where "items = map Inr es"
      "list_all2 (\<lambda>e r. route_kind_of e = Some (entry_kind r) \<and> route_of_file (opt_app_dir opts) (walk_path e) r)
         (filter (\<lambda>e. route_kind_of e \<noteq> None) es) rs'" by blast
    with Some e r(3) head show ?thesis by (intro exI [of _ "e # es"]) simp
  qed
qed simp

lemma discover_routesE:
  assumes "discover_routes env fs opts = Some (Inr m)"
  obtains es rs where "fs_walk fs (opt_app_dir opts) (routable_entry (opt_app_dir opts)) = map Inr es"
    "list_all2 (\<lambda>e r. route_kind_of e = Some (entry_kind r) \<and> route_of_file (opt_app_dir opts) (walk_path e) r)
       (filter (\<lambda>e. route_kind_of e \<noteq> None) es) rs"
    "routes m = sort_key (\<lambda>r. (entry_path r, entry_id r)) rs"
    "detect_conflicts (routes m) = Inr ()" "detect_unreachable_intercepts (routes m) = Inr ()"
    "detect_server_component_conflicts (routes m) = Inr ()"
    "reject_intercepting_routes fs (opt_app_dir opts) = Inr ()"
proof -
  obtain rs where rs: "discover_loop env fs opts in_root
      (fs_walk fs (opt_app_dir opts) (routable_entry (opt_app_dir opts))) = Some (Inr rs)"
    and m: "routes m = sort_key (\<lambda>r. (entry_path r, entry_id r)) rs"
    "detect_conflicts (routes m) = Inr ()" "detect_unreachable_intercepts (routes m) = Inr ()"
    "detect_server_component_conflicts (routes m) = Inr ()"
    "reject_intercepting_routes fs (opt_app_dir opts) = Inr ()"
    using assms by (auto simp: discover_routes_def Let_def rbind_Inr_iff split: if_splits sum.splits)
  from discover_loop_files [OF rs] obtain es where
    "fs_walk fs (opt_app_dir opts) (routable_entry (opt_app_dir opts)) = map Inr es"
    "list_all2 (\<lambda>e r. route_kind_of e = Some (entry_kind r) \<and> route_of_file (opt_app_dir opts) (walk_path e) r)
       (filter (\<lambda>e. route_kind_of e \<noteq> None) es) rs" by blast
  from that [OF this m] show ?thesis .
qed

text \<open>C28. Discovery misses nothing and invents nothing: when it succeeds, the walk met no unreadable
  directory, the routes are exactly the page and handler files the walk found, one route per file with its kind and
  the URL of its folder, and the manifest lists them in the order of their URLs.\<close>

theorem discovery_exact:
  assumes "discover_routes env fs opts = Some (Inr m)"
  shows "\<exists>es. fs_walk fs (opt_app_dir opts) (routable_entry (opt_app_dir opts)) = map Inr es \<and>
     length (routes m) = length (filter (\<lambda>e. route_kind_of e \<noteq> None) es) \<and>
     (\<forall>e\<in>set es. \<forall>kind. route_kind_of e = Some kind \<longrightarrow>
        (\<exists>r\<in>set (routes m). entry_kind r = kind \<and> route_of_file (opt_app_dir opts) (walk_path e) r)) \<and>
     (\<forall>r\<in>set (routes m). \<exists>e\<in>set es. route_kind_of e = Some (entry_kind r) \<and>
        route_of_file (opt_app_dir opts) (walk_path e) r) \<and>
     sorted (map entry_path (routes m))"
proof -
  from assms obtain es rs where es: "fs_walk fs (opt_app_dir opts) (routable_entry (opt_app_dir opts)) = map Inr es"
    and rs: "list_all2 (\<lambda>e r. route_kind_of e = Some (entry_kind r) \<and> route_of_file (opt_app_dir opts) (walk_path e) r)
       (filter (\<lambda>e. route_kind_of e \<noteq> None) es) rs"
    and m: "routes m = sort_key (\<lambda>r. (entry_path r, entry_id r)) rs"
    by (rule discover_routesE)
  have "sorted (map (\<lambda>r. (entry_path r, entry_id r)) (routes m))" unfolding m by (rule sorted_sort_key)
  then have "sorted (map entry_path (routes m))"
    unfolding sorted_map by (rule sorted_wrt_mono_rel [rotated]) (auto simp: less_eq_prod_def)
  moreover have "\<exists>r\<in>set (routes m). entry_kind r = kind \<and> route_of_file (opt_app_dir opts) (walk_path e) r"
    if "e \<in> set es" "route_kind_of e = Some kind" for e kind
    using list_all2_left [OF rs, of e] that m by auto
  moreover have "\<exists>e\<in>set es. route_kind_of e = Some (entry_kind r) \<and> route_of_file (opt_app_dir opts) (walk_path e) r"
    if "r \<in> set (routes m)" for r
    using list_all2_right [OF rs, of r] that m by auto
  ultimately show ?thesis using es rs m list_all2_lengthD [OF rs] by auto
qed

text \<open>A project of four routes.\<close>

definition shop_walk :: "walk_entry list" where
  "shop_walk =
     [\<lparr>walk_path = [''site'', ''app''], walk_kind = WalkDir\<rparr>,
      \<lparr>walk_path = [''site'', ''app'', ''shop''], walk_kind = WalkDir\<rparr>,
      \<lparr>walk_path = [''site'', ''app'', ''shop'', ''[id]''], walk_kind = WalkDir\<rparr>,
      \<lparr>walk_path = [''site'', ''app'', ''shop'', ''[id]'', ''page.mdx''], walk_kind = WalkFile\<rparr>,
      \<lparr>walk_path = [''site'', ''app'', ''shop'', ''new''], walk_kind = WalkDir\<rparr>,
      \<lparr>walk_path = [''site'', ''app'', ''shop'', ''new'', ''page.jsx''], walk_kind = WalkFile\<rparr>,
      \<lparr>walk_path = [''site'', ''app'', ''page.tsx''], walk_kind = WalkFile\<rparr>,
      \<lparr>walk_path = [''site'', ''app'', ''shop'', ''route.ts''], walk_kind = WalkFile\<rparr>,
      \<lparr>walk_path = [''site'', ''app'', ''shop'', ''helpers.ts''], walk_kind = WalkFile\<rparr>]"

definition shop_fs :: file_system where
  "shop_fs =
     \<lparr>fs_exists = (\<lambda>_. True), fs_is_file = (\<lambda>p. p = [''site'', ''app'', ''layout.tsx'']),
      fs_read_dir = (\<lambda>_. Some []), fs_walk = (\<lambda>d keep. map Inr (filter keep shop_walk)),
      fs_canonical = (\<lambda>p. p)\<rparr>"

definition shop_env :: module_env where
  "shop_env =
     \<lparr>me_canonical = (\<lambda>p. p), me_read = (\<lambda>_. Some ''fetch(x)''),
      me_parse = (\<lambda>_. \<lparr>import_specifiers = [], fact_imports = [], env_reads = [], has_default_export = True\<rparr>),
      me_mask = (\<lambda>s. s), me_resolve = (\<lambda>_ _. None), me_alias = (\<lambda>_. None), me_mdx = (\<lambda>_. None)\<rparr>"

definition shop_options :: discover_options where
  "shop_options =
     \<lparr>opt_app_dir = [''site'', ''app''], default_render_strategy = None, default_revalidate = None, opt_i18n = None\<rparr>"

lemma shop_discovered:
  "case discover_routes shop_env shop_fs shop_options of
     Some (Inr m) \<Rightarrow> map entry_path (routes m) = [''/'', ''/shop'', ''/shop/[id]'', ''/shop/new''] \<and>
       map (strategy \<circ> entry_render) (routes m) = [Ssr, Ssr, Ssr, Ssr] \<and>
       (case find (compile m) m ''/shop/new'' of
          Some rm \<Rightarrow> entry_path (matched_route rm) = ''/shop/new'' | None \<Rightarrow> False)
   | _ \<Rightarrow> False"
  by code_simp

theorem discovery_exact_witness:
  "\<exists>m. discover_routes shop_env shop_fs shop_options = Some (Inr m) \<and> sorted (map entry_path (routes m))"
proof -
  obtain m where "discover_routes shop_env shop_fs shop_options = Some (Inr m)"
    using shop_discovered by (auto split: option.splits sum.splits)
  with discovery_exact [OF this] show ?thesis by blast
qed

end
