(* ===== verification/Validate.thy ===== *)
theory Validate
  imports Render_Strategy
begin

text \<open>
  Boundary validation of a project: \<open>src/crates/ruvyxa_graph/src/validate.rs\<close>. Every module a hydrated page
  reaches is checked as client code, every module a handler or a server module reaches as server code; the
  report lists the violations.

  The state of the loop is a record with the module cache in it. The outer option is a graph walk that never
  ends; \<open>Inl file\<close> is the error for a page file that cannot be read.
\<close>

section \<open>Checks of one module\<close>

definition is_server_only_specifier :: "string \<Rightarrow> bool" where
  "is_server_only_specifier s \<longleftrightarrow> s \<in> {''server-only'', ''@ruvyxa/auth'', ''@ruvyxa/database''}"

definition relative_starts_with_server :: "path \<Rightarrow> bool" where
  "relative_starts_with_server relative = (case relative of c # _ \<Rightarrow> c = ''server'' | [] \<Rightarrow> False)"

definition in_server_directory :: "module_env \<Rightarrow> path \<Rightarrow> path \<Rightarrow> bool" where
  "in_server_directory env root file =
     (case strip_dir root file of
        Some relative \<Rightarrow> relative_starts_with_server relative
      | None \<Rightarrow>
          (case strip_dir root (me_canonical env file) of
             Some relative \<Rightarrow> relative_starts_with_server relative
           | None \<Rightarrow> False))"

text \<open>One diagnostic per name, in the order of first reading.\<close>

fun first_seen :: "string set \<Rightarrow> string list \<Rightarrow> string list" where
  "first_seen seen [] = []"
| "first_seen seen (x # xs) = (if x \<in> seen then first_seen seen xs else x # first_seen (insert x seen) xs)"

definition client_diagnostics :: "module_env \<Rightarrow> path \<Rightarrow> path \<Rightarrow> parsed_module \<Rightarrow> diagnostic list" where
  "client_diagnostics env root file m =
     (if list_ex is_server_only_specifier (fact_imports (module_ast m))
      then [Diagnostic ''RUV1007'' ''Server-only module imported into client graph'' (Some file) []] else []) @
     map (\<lambda>_. Diagnostic ''RUV1008'' ''Private environment variable used in client graph'' (Some file) [])
       (first_seen {} (private_env_reads (module_ast m))) @
     (if in_server_directory env root file
      then [Diagnostic ''RUV1010'' ''Server directory module reached by client graph'' (Some file) []] else [])"

definition server_diagnostics :: "path \<Rightarrow> parsed_module \<Rightarrow> diagnostic list" where
  "server_diagnostics file m =
     (if list_ex (\<lambda>s. s = ''client-only'') (fact_imports (module_ast m))
      then [Diagnostic ''RUV1009'' ''Client-only module imported into server graph'' (Some file) []] else [])"

section \<open>The loop state\<close>

record validation =
  v_diagnostics :: "diagnostic list"
  v_client :: "path set"
  v_server :: "path set"
  v_inert :: "string list"
  v_validated_client :: "path set"
  v_validated_server :: "path set"
  v_cache :: module_cache

definition start_validation :: validation where
  "start_validation =
     \<lparr>v_diagnostics = [], v_client = {}, v_server = {}, v_inert = [], v_validated_client = {},
      v_validated_server = {}, v_cache = in_root\<rparr>"

definition push_diagnostics :: "validation \<Rightarrow> diagnostic list \<Rightarrow> validation" where
  "push_diagnostics v ds = v\<lparr>v_diagnostics := v_diagnostics v @ ds\<rparr>"

definition validate_client_module :: "module_env \<Rightarrow> path \<Rightarrow> validation \<Rightarrow> path \<Rightarrow> validation" where
  "validate_client_module env root v file =
     (case module_of env (v_cache v) file of
        (None, c) \<Rightarrow> v\<lparr>v_cache := c\<rparr>
      | (Some m, c) \<Rightarrow> push_diagnostics (v\<lparr>v_cache := c\<rparr>) (client_diagnostics env root file m))"

definition validate_server_module :: "module_env \<Rightarrow> validation \<Rightarrow> path \<Rightarrow> validation" where
  "validate_server_module env v file =
     (case module_of env (v_cache v) file of
        (None, c) \<Rightarrow> v\<lparr>v_cache := c\<rparr>
      | (Some m, c) \<Rightarrow> push_diagnostics (v\<lparr>v_cache := c\<rparr>) (server_diagnostics file m))"

definition visit_client :: "module_env \<Rightarrow> path \<Rightarrow> validation \<Rightarrow> path \<Rightarrow> validation" where
  "visit_client env root v m =
     (let v = v\<lparr>v_client := insert m (v_client v)\<rparr> in
      if m \<in> v_validated_client v then v
      else validate_client_module env root (v\<lparr>v_validated_client := insert m (v_validated_client v)\<rparr>) m)"

definition visit_server :: "module_env \<Rightarrow> validation \<Rightarrow> path \<Rightarrow> validation" where
  "visit_server env v m =
     (let v = v\<lparr>v_server := insert m (v_server v)\<rparr> in
      if m \<in> v_validated_server v then v
      else validate_server_module env (v\<lparr>v_validated_server := insert m (v_validated_server v)\<rparr>) m)"

definition is_client_boundary :: "module_env \<Rightarrow> module_cache \<Rightarrow> path \<Rightarrow> bool \<times> module_cache" where
  "is_client_boundary env c file =
     (case module_of env c file of
        (None, c) \<Rightarrow> (False, c)
      | (Some m, c) \<Rightarrow> (has_module_directive (module_source m) ''use client'', c))"

definition walk_from :: "module_env \<Rightarrow> validation \<Rightarrow> path \<Rightarrow> (path list \<times> validation) option" where
  "walk_from env v entry =
     map_option (\<lambda>(g, c). (sorted_list_of_set g, v\<lparr>v_cache := c\<rparr>)) (collect_relative_graph env (v_cache v) entry)"

text \<open>The page and its layouts: a layout that does not resolve is passed over.\<close>

fun walk_layouts ::
  "module_env \<Rightarrow> file_system \<Rightarrow> path \<Rightarrow> validation \<Rightarrow> path set \<Rightarrow> string list \<Rightarrow> (path set \<times> validation) option" where
  "walk_layouts env fs app v g [] = Some (g, v)"
| "walk_layouts env fs app v g (layout # layouts) =
     (case resolve_layout_file fs app layout of
        None \<Rightarrow> walk_layouts env fs app v g layouts
      | Some f \<Rightarrow>
          (case collect_relative_graph env (v_cache v) f of
             None \<Rightarrow> None
           | Some (g', c) \<Rightarrow> walk_layouts env fs app (v\<lparr>v_cache := c\<rparr>) (g \<union> g') layouts))"

definition walk_route :: "module_env \<Rightarrow> file_system \<Rightarrow> path \<Rightarrow> validation \<Rightarrow> route_entry \<Rightarrow> (path list \<times> validation) option" where
  "walk_route env fs app v r =
     (case collect_relative_graph env (v_cache v) (entry_file r) of
        None \<Rightarrow> None
      | Some (g, c) \<Rightarrow>
          map_option (\<lambda>(g, v). (sorted_list_of_set g, v))
            (walk_layouts env fs app (v\<lparr>v_cache := c\<rparr>) g (entry_layout_chain r)))"

section \<open>Routes\<close>

text \<open>One module of a page's graph; the flag records whether any was client code.\<close>

definition visit_page_module ::
  "module_env \<Rightarrow> path \<Rightarrow> bool \<Rightarrow> bool \<times> validation \<Rightarrow> path \<Rightarrow> (bool \<times> validation) option" where
  "visit_page_module env root sc acc m =
     (let (reaches, v) = acc;
          (boundary, c) = (if sc then is_client_boundary env (v_cache v) m else (True, v_cache v));
          v = v\<lparr>v_cache := c\<rparr> in
      if \<not> boundary then Some (reaches, visit_server env v m)
      else if sc then
        map_option (\<lambda>(ms, v). (True, foldl (visit_client env root) v ms)) (walk_from env v m)
      else Some (True, visit_client env root v m))"

fun visit_page_modules ::
  "module_env \<Rightarrow> path \<Rightarrow> bool \<Rightarrow> bool \<times> validation \<Rightarrow> path list \<Rightarrow> (bool \<times> validation) option" where
  "visit_page_modules env root sc acc [] = Some acc"
| "visit_page_modules env root sc acc (m # ms) =
     (case visit_page_module env root sc acc m of
        None \<Rightarrow> None | Some acc \<Rightarrow> visit_page_modules env root sc acc ms)"

definition validate_page :: "module_env \<Rightarrow> file_system \<Rightarrow> path \<Rightarrow> path \<Rightarrow> validation \<Rightarrow> route_entry \<Rightarrow> (path + validation) option" where
  "validate_page env fs root app v r =
     (case module_of env (v_cache v) (entry_file r) of
        (None, _) \<Rightarrow> Some (Inl (entry_file r))
      | (Some page, c) \<Rightarrow>
          (let v = v\<lparr>v_cache := c\<rparr>;
               sc = server_components (entry_render r);
               v = (if \<not> is_markdown_route (entry_file r) \<and> \<not> has_default_export (module_ast page)
                    then push_diagnostics v
                      [Diagnostic ''RUV1004'' ''Page is missing a default export'' (Some (entry_file r)) []]
                    else v) in
           case walk_route env fs app v r of
             None \<Rightarrow> None
           | Some (ms, v) \<Rightarrow>
               (case visit_page_modules env root sc (False, v) ms of
                  None \<Rightarrow> None
                | Some (reaches, v) \<Rightarrow>
                    Some (Inr (if sc \<and> ships_client_bundle (entry_render r) \<and> \<not> reaches \<and> entry_client_modules r = []
                               then v\<lparr>v_inert := v_inert v @ [entry_path r]\<rparr> else v)))))"

definition validate_api :: "module_env \<Rightarrow> validation \<Rightarrow> route_entry \<Rightarrow> validation option" where
  "validate_api env v r =
     map_option (\<lambda>(ms, v). foldl (visit_server env) v ms) (walk_from env v (entry_file r))"

definition edge_module :: "module_env \<Rightarrow> route_entry \<Rightarrow> validation \<Rightarrow> path \<Rightarrow> validation" where
  "edge_module env r v m =
     (case module_of env (v_cache v) m of
        (None, c) \<Rightarrow> v\<lparr>v_cache := c\<rparr>
      | (Some scanned, c) \<Rightarrow>
          push_diagnostics (v\<lparr>v_cache := c\<rparr>)
            (map (\<lambda>_. Diagnostic ''RUV1013'' ''Edge route reaches a Node built-in'' (Some m) [entry_id r])
              (filter (\<lambda>s. edge_forbidden_builtin s \<noteq> None) (import_specifiers (module_ast scanned)))))"

definition validate_edge :: "module_env \<Rightarrow> file_system \<Rightarrow> path \<Rightarrow> validation \<Rightarrow> route_entry \<Rightarrow> validation option" where
  "validate_edge env fs app v r =
     (if entry_runtime r \<noteq> Edge then Some v
      else map_option (\<lambda>(ms, v). foldl (edge_module env r) v ms) (walk_route env fs app v r))"

fun validate_server_siblings :: "module_env \<Rightarrow> validation \<Rightarrow> path list \<Rightarrow> validation option" where
  "validate_server_siblings env v [] = Some v"
| "validate_server_siblings env v (m # ms) =
     (case walk_from env v m of
        None \<Rightarrow> None
      | Some (g, v) \<Rightarrow> validate_server_siblings env (foldl (visit_server env) v g) ms)"

definition validate_route :: "module_env \<Rightarrow> file_system \<Rightarrow> path \<Rightarrow> path \<Rightarrow> validation \<Rightarrow> route_entry \<Rightarrow> (path + validation) option" where
  "validate_route env fs root app v r =
     (case (case entry_kind r of
              Page \<Rightarrow> validate_page env fs root app v r
            | Api \<Rightarrow> map_option Inr (validate_api env v r))
      of None \<Rightarrow> None
       | Some (Inl f) \<Rightarrow> Some (Inl f)
       | Some (Inr v) \<Rightarrow>
           (case validate_edge env fs app v r of
              None \<Rightarrow> None
            | Some v \<Rightarrow>
                (case validate_server_siblings env v (entry_server_modules r) of
                   None \<Rightarrow> None
                 | Some v \<Rightarrow> Some (Inr (foldl (visit_client env root) v (entry_client_modules r))))))"

fun validate_routes :: "module_env \<Rightarrow> file_system \<Rightarrow> path \<Rightarrow> path \<Rightarrow> validation \<Rightarrow> route_entry list \<Rightarrow> (path + validation) option" where
  "validate_routes env fs root app v [] = Some (Inr v)"
| "validate_routes env fs root app v (r # rs) =
     (case validate_route env fs root app v r of
        None \<Rightarrow> None
      | Some (Inl f) \<Rightarrow> Some (Inl f)
      | Some (Inr v) \<Rightarrow> validate_routes env fs root app v rs)"

record validation_report =
  report_routes :: nat
  report_page_routes :: nat
  report_api_routes :: nat
  report_client_modules :: nat
  report_server_modules :: nat
  report_inert_hydration_routes :: "string list"
  report_diagnostics :: "diagnostic list"

definition report_is_ok :: "validation_report \<Rightarrow> bool" where
  "report_is_ok rep \<longleftrightarrow> report_diagnostics rep = []"

definition validate_app :: "module_env \<Rightarrow> file_system \<Rightarrow> path \<Rightarrow> route_manifest \<Rightarrow> (path + validation_report) option" where
  "validate_app env fs root manifest =
     map_option (map_sum (\<lambda>f. f) (\<lambda>v.
         \<lparr>report_routes = length (routes manifest),
          report_page_routes = length (filter (\<lambda>r. entry_kind r = Page) (routes manifest)),
          report_api_routes = length (filter (\<lambda>r. entry_kind r = Api) (routes manifest)),
          report_client_modules = card (v_client v), report_server_modules = card (v_server v),
          report_inert_hydration_routes = v_inert v, report_diagnostics = v_diagnostics v\<rparr>))
       (validate_routes env fs (me_canonical env root) (app_dir manifest) start_validation (routes manifest))"

section \<open>Modules a build copies\<close>

definition reachable_entries :: "file_system \<Rightarrow> path \<Rightarrow> route_entry \<Rightarrow> path list" where
  "reachable_entries fs app r =
     entry_file r # List.map_filter (resolve_layout_file fs app) (entry_layout_chain r) @
     List.map_filter (resolve_layout_file fs app) (entry_template_chain r) @
     entry_server_modules r @ entry_client_modules r"

definition staged_module :: "path \<Rightarrow> path \<Rightarrow> path \<Rightarrow> bool" where
  "staged_module root app m \<longleftrightarrow>
     strip_dir app m = None \<and>
     (case strip_dir root m of Some relative \<Rightarrow> ''node_modules'' \<notin> set relative | None \<Rightarrow> False)"

definition reachable_project_modules :: "module_env \<Rightarrow> file_system \<Rightarrow> path \<Rightarrow> route_manifest \<Rightarrow> path set option" where
  "reachable_project_modules env fs root manifest =
     map_option (\<lambda>(gs, c).
         {m \<in> \<Union>(set gs). staged_module (me_canonical env root) (me_canonical env (app_dir manifest)) m})
       (collect_all env in_root (concat (map (reachable_entries fs (app_dir manifest)) (routes manifest))))"

section \<open>A clean report\<close>

text \<open>What the checks of one module look for; a module that cannot be read has nothing to report.\<close>

definition client_ok :: "module_env \<Rightarrow> path \<Rightarrow> path \<Rightarrow> bool" where
  "client_ok env root f =
     (case read_module env f of
        None \<Rightarrow> True
      | Some m \<Rightarrow>
          \<not> list_ex is_server_only_specifier (fact_imports (module_ast m)) \<and>
          \<not> list_ex env_read_is_private (env_reads (module_ast m)) \<and> \<not> in_server_directory env root f)"

definition server_ok :: "module_env \<Rightarrow> path \<Rightarrow> bool" where
  "server_ok env f =
     (case read_module env f of None \<Rightarrow> True | Some m \<Rightarrow> ''client-only'' \<notin> set (fact_imports (module_ast m)))"

text \<open>A module of an edge route may import no Node built-in; a page that is not Markdown exports a default.\<close>

definition edge_ok :: "module_env \<Rightarrow> path \<Rightarrow> bool" where
  "edge_ok env f =
     (case read_module env f of
        None \<Rightarrow> True
      | Some m \<Rightarrow> list_all (\<lambda>s. edge_forbidden_builtin s = None) (import_specifiers (module_ast m)))"

definition exports_default :: "module_env \<Rightarrow> path \<Rightarrow> bool" where
  "exports_default env f \<longleftrightarrow>
     is_markdown_route f \<or> (case read_module env f of None \<Rightarrow> True | Some m \<Rightarrow> has_default_export (module_ast m))"

definition boundary :: "module_env \<Rightarrow> path \<Rightarrow> bool" where
  "boundary env f =
     (case read_module env f of None \<Rightarrow> False | Some m \<Rightarrow> has_module_directive (module_source m) ''use client'')"

text \<open>The modules of a page: what the page file reaches and what its layouts reach.\<close>

definition route_graph :: "module_env \<Rightarrow> file_system \<Rightarrow> path \<Rightarrow> route_entry \<Rightarrow> path set" where
  "route_graph env fs app r =
     module_closure env (entry_file r) \<union>
     layout_modules env (List.map_filter (resolve_layout_file fs app) (entry_layout_chain r))"

text \<open>The modules that must be safe in a browser, and those that run on the server.\<close>

definition page_client :: "module_env \<Rightarrow> bool \<Rightarrow> path set \<Rightarrow> path set" where
  "page_client env sc g = (if sc then (\<Union>m\<in>{m \<in> g. boundary env m}. module_closure env m) else g)"

definition page_server :: "module_env \<Rightarrow> bool \<Rightarrow> path set \<Rightarrow> path set" where
  "page_server env sc g = (if sc then {m \<in> g. \<not> boundary env m} else {})"

definition client_lane :: "module_env \<Rightarrow> file_system \<Rightarrow> path \<Rightarrow> route_entry \<Rightarrow> path set" where
  "client_lane env fs app r =
     set (entry_client_modules r) \<union>
     (if entry_kind r = Page then page_client env (server_components (entry_render r)) (route_graph env fs app r) else {})"

definition server_lane :: "module_env \<Rightarrow> file_system \<Rightarrow> path \<Rightarrow> route_entry \<Rightarrow> path set" where
  "server_lane env fs app r =
     (\<Union>m\<in>set (entry_server_modules r). module_closure env m) \<union>
     (if entry_kind r = Page then page_server env (server_components (entry_render r)) (route_graph env fs app r)
      else module_closure env (entry_file r))"

definition route_rules_ok :: "module_env \<Rightarrow> file_system \<Rightarrow> path \<Rightarrow> route_entry \<Rightarrow> bool" where
  "route_rules_ok env fs app r \<longleftrightarrow>
     (entry_kind r = Page \<longrightarrow> exports_default env (entry_file r)) \<and>
     (entry_runtime r = Edge \<longrightarrow> (\<forall>m\<in>route_graph env fs app r. edge_ok env m))"

section \<open>The effect of a part of the loop\<close>

text \<open>A part of the loop reads through the cache, marks the modules of \<open>C\<close> and \<open>S\<close> as validated client and
  server code, and adds no diagnostic exactly if every newly marked module passes and its own rule \<open>P\<close> holds.
  Effects compose, so each step of the loop is stated once.\<close>

definition veff ::
  "module_env \<Rightarrow> path \<Rightarrow> validation \<Rightarrow> path set \<Rightarrow> path set \<Rightarrow> bool \<Rightarrow> validation \<Rightarrow> bool" where
  "veff env root v C S P v' \<longleftrightarrow>
     cache_ok env (v_cache v') \<and>
     v_validated_client v' = v_validated_client v \<union> C \<and> v_validated_server v' = v_validated_server v \<union> S \<and>
     (v_diagnostics v' = [] \<longleftrightarrow>
        v_diagnostics v = [] \<and> (\<forall>f\<in>C - v_validated_client v. client_ok env root f) \<and>
        (\<forall>f\<in>S - v_validated_server v. server_ok env f) \<and> P)"

lemma veff_refl: "cache_ok env (v_cache v) \<Longrightarrow> veff env root v {} {} True v"
  by (simp add: veff_def)

lemma veff_cache: "cache_ok env c \<Longrightarrow> veff env root v {} {} True (v\<lparr>v_cache := c\<rparr>)"
  by (simp add: veff_def)

lemma veff_cache_ok: "veff env root v C S P v' \<Longrightarrow> cache_ok env (v_cache v')"
  by (simp add: veff_def)

lemma veff_push: "cache_ok env (v_cache v) \<Longrightarrow> veff env root v {} {} (ds = []) (push_diagnostics v ds)"
  by (auto simp: veff_def push_diagnostics_def)

lemma veff_trans:
  assumes "veff env root v C S P v'" "veff env root v' C' S' P' v''"
  shows "veff env root v (C \<union> C') (S \<union> S') (P \<and> P') v''"
proof -
  have "(C \<union> C') - v_validated_client v = (C - v_validated_client v) \<union> (C' - v_validated_client v')"
    "(S \<union> S') - v_validated_server v = (S - v_validated_server v) \<union> (S' - v_validated_server v')"
    using assms(1) by (auto simp: veff_def)
  with assms show ?thesis
    unfolding veff_def by (simp add: ball_Un Un_assoc) argo
qed

lemma veff_from_cache: "veff env root (v\<lparr>v_cache := c\<rparr>) C S P v' \<Longrightarrow> veff env root v C S P v'"
  by (simp add: veff_def)

lemma first_seen_Nil [simp]: "first_seen {} xs = [] \<longleftrightarrow> xs = []"
  by (cases xs) simp_all

lemma client_diagnostics_Nil:
  "read_module env f = Some m \<Longrightarrow> client_diagnostics env root f m = [] \<longleftrightarrow> client_ok env root f"
  by (auto simp: client_diagnostics_def client_ok_def private_env_reads_def filter_empty_conv list_ex_iff)

lemma server_diagnostics_Nil:
  "read_module env f = Some m \<Longrightarrow> server_diagnostics f m = [] \<longleftrightarrow> server_ok env f"
  by (auto simp: server_diagnostics_def server_ok_def list_ex_iff)

lemma visit_client_effect:
  assumes "cache_ok env (v_cache v)"
  shows "veff env root v {m} {} True (visit_client env root v m)"
proof (cases "m \<in> v_validated_client v")
  case True
  with assms show ?thesis by (auto simp: visit_client_def veff_def)
next
  case False
  obtain c where c: "module_of env (v_cache v) m = (read_module env m, c)" "cache_ok env c"
    using module_of_pair [OF assms] by blast
  show ?thesis
  proof (cases "read_module env m")
    case None
    then have "client_ok env root m" by (simp add: client_ok_def)
    with None False c show ?thesis
      by (auto simp: visit_client_def validate_client_module_def veff_def)
  next
    case (Some p)
    with client_diagnostics_Nil [OF Some, of root] False c show ?thesis
      by (auto simp: visit_client_def validate_client_module_def push_diagnostics_def veff_def)
  qed
qed

lemma visit_server_effect:
  assumes "cache_ok env (v_cache v)"
  shows "veff env root v {} {m} True (visit_server env v m)"
proof (cases "m \<in> v_validated_server v")
  case True
  with assms show ?thesis by (auto simp: visit_server_def veff_def)
next
  case False
  obtain c where c: "module_of env (v_cache v) m = (read_module env m, c)" "cache_ok env c"
    using module_of_pair [OF assms] by blast
  show ?thesis
  proof (cases "read_module env m")
    case None
    then have "server_ok env m" by (simp add: server_ok_def)
    with None False c show ?thesis
      by (auto simp: visit_server_def validate_server_module_def veff_def)
  next
    case (Some p)
    with server_diagnostics_Nil [OF Some] False c show ?thesis
      by (auto simp: visit_server_def validate_server_module_def push_diagnostics_def veff_def)
  qed
qed

lemma visit_clients_effect:
  "cache_ok env (v_cache v) \<Longrightarrow> veff env root v (set ms) {} True (foldl (visit_client env root) v ms)"
proof (induction ms arbitrary: v)
  case (Cons m ms)
  note step = visit_client_effect [OF Cons.prems, of root m]
  from veff_trans [OF step Cons.IH [OF veff_cache_ok [OF step]]] show ?case by simp
qed (simp add: veff_refl)

lemma visit_servers_effect:
  "cache_ok env (v_cache v) \<Longrightarrow> veff env root v {} (set ms) True (foldl (visit_server env) v ms)"
proof (induction ms arbitrary: v)
  case (Cons m ms)
  note step = visit_server_effect [OF Cons.prems, of root m]
  from veff_trans [OF step Cons.IH [OF veff_cache_ok [OF step]]] show ?case by simp
qed (simp add: veff_refl)

lemma walk_from_step:
  assumes "finite_project env" "cache_ok env (v_cache v)"
  shows "\<exists>c. walk_from env v f = Some (sorted_list_of_set (module_closure env f), v\<lparr>v_cache := c\<rparr>) \<and> cache_ok env c"
proof -
  obtain c where "collect_relative_graph env (v_cache v) f = Some (module_closure env f, c)" "cache_ok env c"
    using collect_pair [OF assms(2) finite_module_closure [OF assms(1)]] by blast
  then show ?thesis by (auto simp: walk_from_def)
qed

lemma walk_layouts_step:
  assumes "finite_project env" "cache_ok env (v_cache v)"
  shows "\<exists>c. walk_layouts env fs app v g ls =
     Some (g \<union> layout_modules env (List.map_filter (resolve_layout_file fs app) ls), v\<lparr>v_cache := c\<rparr>) \<and> cache_ok env c"
  using assms(2)
proof (induction ls arbitrary: v g)
  case Nil
  then show ?case by (auto simp: layout_modules_def List.map_filter_simps intro: exI [of _ "v_cache v"])
next
  case (Cons l ls)
  show ?case
  proof (cases "resolve_layout_file fs app l")
    case None
    with Cons show ?thesis by (simp add: List.map_filter_simps)
  next
    case (Some f)
    obtain c where c: "collect_relative_graph env (v_cache v) f = Some (module_closure env f, c)" "cache_ok env c"
      using collect_pair [OF Cons.prems finite_module_closure [OF assms(1)]] by blast
    obtain c' where "walk_layouts env fs app (v\<lparr>v_cache := c\<rparr>) (g \<union> module_closure env f) ls =
        Some (g \<union> module_closure env f \<union> layout_modules env (List.map_filter (resolve_layout_file fs app) ls),
          v\<lparr>v_cache := c'\<rparr>)" "cache_ok env c'"
      using Cons.IH [of "v\<lparr>v_cache := c\<rparr>" "g \<union> module_closure env f"] c(2) by auto
    with Some c show ?thesis by (auto simp: layout_modules_def List.map_filter_simps Un_assoc)
  qed
qed

lemma finite_route_graph: "finite_project env \<Longrightarrow> finite (route_graph env fs app r)"
  by (simp add: route_graph_def layout_modules_def finite_module_closure)

lemma walk_route_step:
  assumes "finite_project env" "cache_ok env (v_cache v)"
  shows "\<exists>c. walk_route env fs app v r = Some (sorted_list_of_set (route_graph env fs app r), v\<lparr>v_cache := c\<rparr>) \<and>
     cache_ok env c"
proof -
  obtain c where c: "collect_relative_graph env (v_cache v) (entry_file r) = Some (module_closure env (entry_file r), c)"
    "cache_ok env c"
    using collect_pair [OF assms(2) finite_module_closure [OF assms(1)]] by blast
  obtain c' where "walk_layouts env fs app (v\<lparr>v_cache := c\<rparr>) (module_closure env (entry_file r)) (entry_layout_chain r) =
      Some (route_graph env fs app r, v\<lparr>v_cache := c'\<rparr>)" "cache_ok env c'"
    using walk_layouts_step [OF assms(1), of "v\<lparr>v_cache := c\<rparr>" fs app "module_closure env (entry_file r)" "entry_layout_chain r"]
      c(2) unfolding route_graph_def by auto
  with c show ?thesis by (auto simp: walk_route_def)
qed

lemma is_client_boundary_step:
  assumes "cache_ok env c"
  shows "\<exists>c'. is_client_boundary env c f = (boundary env f, c') \<and> cache_ok env c'"
proof -
  obtain c' where "module_of env c f = (read_module env f, c')" "cache_ok env c'"
    using module_of_pair [OF assms] by blast
  then show ?thesis by (cases "read_module env f") (auto simp: is_client_boundary_def boundary_def)
qed

section \<open>Effects of the routes\<close>

lemma visit_page_module_effect:
  assumes fin: "finite_project env" and inv: "cache_ok env (v_cache v)"
  shows "\<exists>b v'. visit_page_module env root sc (a, v) m = Some (b, v') \<and>
     veff env root v (page_client env sc {m}) (page_server env sc {m}) True v'"
proof (cases sc)
  case False
  with visit_client_effect [OF inv, of root m] show ?thesis
    by (auto simp: visit_page_module_def page_client_def page_server_def)
next
  case True
  obtain c where c: "is_client_boundary env (v_cache v) m = (boundary env m, c)" "cache_ok env c"
    using is_client_boundary_step [OF inv] by blast
  let ?v = "v\<lparr>v_cache := c\<rparr>"
  show ?thesis
  proof (cases "boundary env m")
    case False
    have "page_client env sc {m} = {}" "page_server env sc {m} = {m}"
      using True False by (auto simp: page_client_def page_server_def)
    moreover have "veff env root v {} {m} True (visit_server env ?v m)"
      using c(2) by (intro veff_from_cache [of _ _ c v] visit_server_effect) simp
    ultimately show ?thesis
      using True False c(1) by (simp add: visit_page_module_def)
  next
    case bd: True
    obtain d where d: "walk_from env ?v m = Some (sorted_list_of_set (module_closure env m), ?v\<lparr>v_cache := d\<rparr>)" "cache_ok env d"
      using walk_from_step [OF fin, of ?v m] c(2) by auto
    have "page_client env sc {m} = module_closure env m" "page_server env sc {m} = {}"
      using True bd by (auto simp: page_client_def page_server_def)
    moreover have "veff env root v (module_closure env m) {} True
        (foldl (visit_client env root) (v\<lparr>v_cache := d\<rparr>) (sorted_list_of_set (module_closure env m)))"
      using visit_clients_effect [of env "v\<lparr>v_cache := d\<rparr>" root "sorted_list_of_set (module_closure env m)"] d(2)
        finite_module_closure [OF fin, of m] by (intro veff_from_cache [of _ _ d v]) simp
    ultimately show ?thesis
      using True bd c(1) d(1) by (auto simp: visit_page_module_def)
  qed
qed

lemma page_lanes_insert:
  "page_client env sc {m} \<union> page_client env sc g = page_client env sc (insert m g)"
  "page_server env sc {m} \<union> page_server env sc g = page_server env sc (insert m g)"
  by (auto simp: page_client_def page_server_def)

lemma visit_page_modules_effect:
  assumes "finite_project env"
  shows "cache_ok env (v_cache v) \<Longrightarrow> \<exists>b v'. visit_page_modules env root sc (a, v) ms = Some (b, v') \<and>
     veff env root v (page_client env sc (set ms)) (page_server env sc (set ms)) True v'"
proof (induction ms arbitrary: a v)
  case Nil
  then show ?case by (simp add: page_client_def page_server_def veff_refl)
next
  case (Cons m ms)
  obtain b v1 where v1: "visit_page_module env root sc (a, v) m = Some (b, v1)"
    "veff env root v (page_client env sc {m}) (page_server env sc {m}) True v1"
    using visit_page_module_effect [OF assms Cons.prems] by blast
  obtain b' v2 where v2: "visit_page_modules env root sc (b, v1) ms = Some (b', v2)"
    "veff env root v1 (page_client env sc (set ms)) (page_server env sc (set ms)) True v2"
    using Cons.IH [OF veff_cache_ok [OF v1(2)]] by blast
  from veff_trans [OF v1(2) v2(2)] v1(1) v2(1) show ?case by (simp add: page_lanes_insert)
qed

lemma validate_page_effect:
  assumes fin: "finite_project env" and inv: "cache_ok env (v_cache v)" and page: "read_module env (entry_file r) = Some page"
  shows "\<exists>v'. validate_page env fs root app v r = Some (Inr v') \<and>
     veff env root v (page_client env (server_components (entry_render r)) (route_graph env fs app r))
       (page_server env (server_components (entry_render r)) (route_graph env fs app r))
       (exports_default env (entry_file r)) v'"
proof -
  let ?sc = "server_components (entry_render r)"
  let ?g = "sorted_list_of_set (route_graph env fs app r)"
  obtain c where c: "module_of env (v_cache v) (entry_file r) = (Some page, c)" "cache_ok env c"
    using module_of_pair [OF inv, of "entry_file r"] page by auto
  define ds where "ds = (if \<not> is_markdown_route (entry_file r) \<and> \<not> has_default_export (module_ast page)
      then [Diagnostic ''RUV1004'' ''Page is missing a default export'' (Some (entry_file r)) []] else [])"
  define v1 where "v1 = push_diagnostics (v\<lparr>v_cache := c\<rparr>) ds"
  have v1: "veff env root v {} {} (exports_default env (entry_file r)) v1"
    using veff_push [of env "v\<lparr>v_cache := c\<rparr>" root ds] c(2) page
    by (auto simp: v1_def ds_def exports_default_def intro: veff_from_cache)
  obtain d where d: "walk_route env fs app v1 r = Some (?g, v1\<lparr>v_cache := d\<rparr>)" "cache_ok env d"
    using walk_route_step [OF fin veff_cache_ok [OF v1]] by blast
  obtain b v3 where v3: "visit_page_modules env root ?sc (False, v1\<lparr>v_cache := d\<rparr>) ?g = Some (b, v3)"
    "veff env root (v1\<lparr>v_cache := d\<rparr>) (page_client env ?sc (set ?g)) (page_server env ?sc (set ?g)) True v3"
    using visit_page_modules_effect [OF fin, of "v1\<lparr>v_cache := d\<rparr>" root ?sc False ?g] d(2) by auto
  let ?v = "if ?sc \<and> ships_client_bundle (entry_render r) \<and> \<not> b \<and> entry_client_modules r = []
      then v3\<lparr>v_inert := v_inert v3 @ [entry_path r]\<rparr> else v3"
  have "(if \<not> is_markdown_route (entry_file r) \<and> \<not> has_default_export (module_ast page)
      then push_diagnostics (v\<lparr>v_cache := c\<rparr>)
        [Diagnostic ''RUV1004'' ''Page is missing a default export'' (Some (entry_file r)) []]
      else v\<lparr>v_cache := c\<rparr>) = v1"
    by (simp add: v1_def ds_def push_diagnostics_def)
  then have "validate_page env fs root app v r = Some (Inr ?v)"
    using c(1) d(1) v3(1) by (simp add: validate_page_def Let_def)
  moreover have "veff env root v (page_client env ?sc (set ?g)) (page_server env ?sc (set ?g))
      (exports_default env (entry_file r)) ?v"
    using veff_trans [OF v1 veff_from_cache [OF v3(2)]] by (simp add: veff_def)
  ultimately show ?thesis using finite_route_graph [OF fin] by auto
qed

lemma validate_page_unreadable:
  assumes "cache_ok env (v_cache v)" "read_module env (entry_file r) = None"
  shows "validate_page env fs root app v r = Some (Inl (entry_file r))"
  using module_of_pair [OF assms(1), of "entry_file r"] assms(2) by (auto simp: validate_page_def)

lemma validate_api_effect:
  assumes fin: "finite_project env" and inv: "cache_ok env (v_cache v)"
  shows "\<exists>v'. validate_api env v r = Some v' \<and> veff env root v {} (module_closure env (entry_file r)) True v'"
proof -
  let ?g = "sorted_list_of_set (module_closure env (entry_file r))"
  obtain d where d: "walk_from env v (entry_file r) = Some (?g, v\<lparr>v_cache := d\<rparr>)" "cache_ok env d"
    using walk_from_step [OF fin inv] by blast
  have "veff env root v {} (set ?g) True (foldl (visit_server env) (v\<lparr>v_cache := d\<rparr>) ?g)"
    using d(2) by (intro veff_from_cache [of _ _ d v] visit_servers_effect) simp
  with d(1) show ?thesis using finite_module_closure [OF fin] by (auto simp: validate_api_def)
qed

lemma edge_module_effect:
  assumes "cache_ok env (v_cache v)"
  shows "veff env root v {} {} (edge_ok env m) (edge_module env r v m)"
proof -
  obtain c where c: "module_of env (v_cache v) m = (read_module env m, c)" "cache_ok env c"
    using module_of_pair [OF assms] by blast
  show ?thesis
  proof (cases "read_module env m")
    case None
    with c show ?thesis by (simp add: edge_module_def edge_ok_def veff_def)
  next
    case (Some p)
    let ?bad = "filter (\<lambda>s. edge_forbidden_builtin s \<noteq> None) (import_specifiers (module_ast p))"
    have "edge_ok env m \<longleftrightarrow> ?bad = []"
      using Some by (auto simp: edge_ok_def list_all_iff filter_empty_conv)
    with Some c show ?thesis by (auto simp: edge_module_def push_diagnostics_def veff_def)
  qed
qed

lemma edge_modules_effect:
  "cache_ok env (v_cache v) \<Longrightarrow> veff env root v {} {} (\<forall>m\<in>set ms. edge_ok env m) (foldl (edge_module env r) v ms)"
proof (induction ms arbitrary: v)
  case (Cons m ms)
  note step = edge_module_effect [OF Cons.prems, of root m r]
  from veff_trans [OF step Cons.IH [OF veff_cache_ok [OF step]]] show ?case by simp
qed (simp add: veff_refl)

lemma validate_edge_effect:
  assumes fin: "finite_project env" and inv: "cache_ok env (v_cache v)"
  shows "\<exists>v'. validate_edge env fs app v r = Some v' \<and>
     veff env root v {} {} (entry_runtime r = Edge \<longrightarrow> (\<forall>m\<in>route_graph env fs app r. edge_ok env m)) v'"
proof (cases "entry_runtime r = Edge")
  case True
  let ?g = "sorted_list_of_set (route_graph env fs app r)"
  obtain d where d: "walk_route env fs app v r = Some (?g, v\<lparr>v_cache := d\<rparr>)" "cache_ok env d"
    using walk_route_step [OF fin inv] by blast
  have "veff env root v {} {} (\<forall>m\<in>set ?g. edge_ok env m) (foldl (edge_module env r) (v\<lparr>v_cache := d\<rparr>) ?g)"
    using d(2) by (intro veff_from_cache [of _ _ d v] edge_modules_effect) simp
  with True d(1) show ?thesis using finite_route_graph [OF fin] by (auto simp: validate_edge_def)
qed (simp add: validate_edge_def veff_refl inv)

lemma validate_server_siblings_effect:
  assumes fin: "finite_project env"
  shows "cache_ok env (v_cache v) \<Longrightarrow> \<exists>v'. validate_server_siblings env v ms = Some v' \<and>
     veff env root v {} (\<Union>m\<in>set ms. module_closure env m) True v'"
proof (induction ms arbitrary: v)
  case (Cons m ms)
  let ?g = "sorted_list_of_set (module_closure env m)"
  obtain d where d: "walk_from env v m = Some (?g, v\<lparr>v_cache := d\<rparr>)" "cache_ok env d"
    using walk_from_step [OF fin Cons.prems] by blast
  let ?v = "foldl (visit_server env) (v\<lparr>v_cache := d\<rparr>) ?g"
  have v1: "veff env root v {} (set ?g) True ?v"
    using d(2) by (intro veff_from_cache [of _ _ d v] visit_servers_effect) simp
  obtain v2 where v2: "validate_server_siblings env ?v ms = Some v2"
    "veff env root ?v {} (\<Union>m\<in>set ms. module_closure env m) True v2"
    using Cons.IH [OF veff_cache_ok [OF v1]] by blast
  from veff_trans [OF v1 v2(2)] d(1) v2(1) show ?case
    using finite_module_closure [OF fin] by simp
qed (simp add: veff_refl)

lemma validate_route_effect:
  assumes fin: "finite_project env" and inv: "cache_ok env (v_cache v)"
    and page: "entry_kind r = Page \<Longrightarrow> read_module env (entry_file r) \<noteq> None"
  shows "\<exists>v'. validate_route env fs root app v r = Some (Inr v') \<and>
     veff env root v (client_lane env fs app r) (server_lane env fs app r) (route_rules_ok env fs app r) v'"
proof -
  let ?sc = "server_components (entry_render r)"
  let ?C = "if entry_kind r = Page then page_client env ?sc (route_graph env fs app r) else {}"
  let ?S = "if entry_kind r = Page then page_server env ?sc (route_graph env fs app r) else module_closure env (entry_file r)"
  obtain v1 where v1: "(case entry_kind r of Page \<Rightarrow> validate_page env fs root app v r
         | Api \<Rightarrow> map_option Inr (validate_api env v r)) = Some (Inr v1)"
    "veff env root v ?C ?S (entry_kind r = Page \<longrightarrow> exports_default env (entry_file r)) v1"
  proof (cases "entry_kind r")
    case Page
    with page obtain p where "read_module env (entry_file r) = Some p" by auto
    from that Page validate_page_effect [OF fin inv this, of fs root app] show thesis by auto
  next
    case Api
    with that validate_api_effect [OF fin inv, of r root] show thesis by auto
  qed
  obtain v2 where v2: "validate_edge env fs app v1 r = Some v2"
    "veff env root v1 {} {} (entry_runtime r = Edge \<longrightarrow> (\<forall>m\<in>route_graph env fs app r. edge_ok env m)) v2"
    using validate_edge_effect [OF fin veff_cache_ok [OF v1(2)]] by blast
  obtain v3 where v3: "validate_server_siblings env v2 (entry_server_modules r) = Some v3"
    "veff env root v2 {} (\<Union>m\<in>set (entry_server_modules r). module_closure env m) True v3"
    using validate_server_siblings_effect [OF fin veff_cache_ok [OF v2(2)]] by blast
  let ?v = "foldl (visit_client env root) v3 (entry_client_modules r)"
  have v4: "veff env root v3 (set (entry_client_modules r)) {} True ?v"
    using veff_cache_ok [OF v3(2)] by (rule visit_clients_effect)
  have "validate_route env fs root app v r = Some (Inr ?v)"
    using v1(1) v2(1) v3(1) by (simp add: validate_route_def)
  moreover have "veff env root v (client_lane env fs app r) (server_lane env fs app r) (route_rules_ok env fs app r) ?v"
    using veff_trans [OF veff_trans [OF veff_trans [OF v1(2) v2(2)] v3(2)] v4]
    by (simp add: client_lane_def server_lane_def route_rules_ok_def Un_commute)
  ultimately show ?thesis by blast
qed

lemma validate_routes_effect:
  assumes fin: "finite_project env"
  shows "cache_ok env (v_cache v) \<Longrightarrow>
     (\<And>r. r \<in> set rs \<Longrightarrow> entry_kind r = Page \<Longrightarrow> read_module env (entry_file r) \<noteq> None) \<Longrightarrow>
     \<exists>v'. validate_routes env fs root app v rs = Some (Inr v') \<and>
       veff env root v (\<Union>r\<in>set rs. client_lane env fs app r) (\<Union>r\<in>set rs. server_lane env fs app r)
         (\<forall>r\<in>set rs. route_rules_ok env fs app r) v'"
proof (induction rs arbitrary: v)
  case (Cons r rs)
  obtain v1 where v1: "validate_route env fs root app v r = Some (Inr v1)"
    "veff env root v (client_lane env fs app r) (server_lane env fs app r) (route_rules_ok env fs app r) v1"
    using validate_route_effect [OF fin Cons.prems(1)] Cons.prems(2) by (metis list.set_intros(1))
  obtain v2 where v2: "validate_routes env fs root app v1 rs = Some (Inr v2)"
    "veff env root v1 (\<Union>r\<in>set rs. client_lane env fs app r) (\<Union>r\<in>set rs. server_lane env fs app r)
       (\<forall>r\<in>set rs. route_rules_ok env fs app r) v2"
    using Cons.IH [OF veff_cache_ok [OF v1(2)]] Cons.prems(2) by auto
  from veff_trans [OF v1(2) v2(2)] v1(1) v2(1) show ?case by simp
qed (simp add: veff_refl)

section \<open>What a report says\<close>

lemma start_cache_ok [simp]: "cache_ok env (v_cache start_validation)"
  by (simp add: start_validation_def)


text \<open>A project of five files: \<open>gallery.tsx\<close> and the sibling \<open>client.tsx\<close> both import \<open>secret.ts\<close>,
  which imports \<open>server-only\<close>; \<open>page.tsx\<close> imports nothing.\<close>

definition gallery_env :: module_env where
  "gallery_env =
     \<lparr>me_canonical = (\<lambda>p. p),
      me_read = (\<lambda>p. if p \<in> {[''page.tsx''], [''gallery.tsx''], [''client.tsx''], [''secret.ts'']} then Some (hd p) else None),
      me_parse = (\<lambda>s.
        let specifiers = (if s \<in> {''gallery.tsx'', ''client.tsx''} then [''./secret'']
                          else if s = ''secret.ts'' then [''server-only''] else []) in
        \<lparr>import_specifiers = specifiers, fact_imports = specifiers, env_reads = [], has_default_export = True\<rparr>),
      me_mask = (\<lambda>s. s),
      me_resolve = (\<lambda>d s. if s = ''./secret'' then Some [''secret.ts''] else None),
      me_alias = (\<lambda>_. None), me_mdx = (\<lambda>_. None)\<rparr>"

definition gallery_fs :: file_system where
  "gallery_fs =
     \<lparr>fs_exists = (\<lambda>_. False), fs_is_file = (\<lambda>_. False), fs_read_dir = (\<lambda>_. None), fs_walk = (\<lambda>_ _. []),
      fs_canonical = (\<lambda>p. p)\<rparr>"

definition gallery_manifest :: "path \<Rightarrow> path list \<Rightarrow> route_manifest" where
  "gallery_manifest page clients =
     \<lparr>app_dir = [''app''],
      routes =
        [\<lparr>entry_id = ''page:/'', entry_path = ''/'', entry_kind = Page, entry_file = page, entry_layout_chain = [],
          entry_template_chain = [], entry_slots = [], entry_intercepts = [], entry_server_modules = [],
          entry_client_modules = clients, entry_runtime = Node, entry_render = render_meta_default\<rparr>],
      i18n = None\<rparr>"

lemma gallery_finite: "finite_project gallery_env"
  unfolding finite_project_def gallery_env_def
  by (auto intro: finite_subset [of _ "{[''page.tsx''], [''gallery.tsx''], [''client.tsx''], [''secret.ts'']}"] split: if_splits)

lemma gallery_reaches:
  assumes "f \<in> {[''gallery.tsx''], [''client.tsx'']}"
  shows "[''secret.ts''] \<in> module_closure gallery_env f"
proof -
  have "[''secret.ts''] \<in> set (module_imports gallery_env f)" using assms by (elim insertE emptyE) (simp, code_simp)+
  moreover have "me_canonical gallery_env f = f" by (simp add: gallery_env_def)
  ultimately show ?thesis
    unfolding module_closure_def using reach_step [OF reach_refl] by metis
qed

lemma gallery_secret: "\<not> client_ok gallery_env [] [''secret.ts'']"
  by code_simp


text \<open>The closure of a sibling client module is not walked. The explanation of \<open>RUV1007\<close> speaks of a module
  reachable from a hydrated page or a client module, but of a sibling \<open>client.tsx\<close> only the file itself is
  checked: here it imports \<open>secret.ts\<close>, which imports \<open>server-only\<close>, and the report is clean.\<close>

theorem client_sibling_closure_unchecked:
  "[''client.tsx''] \<in> set (entry_client_modules (hd (routes (gallery_manifest [''page.tsx''] [[''client.tsx'']])))) \<and>
   [''secret.ts''] \<in> module_closure gallery_env [''client.tsx''] \<and> \<not> client_ok gallery_env [] [''secret.ts''] \<and>
   (case validate_app gallery_env gallery_fs [] (gallery_manifest [''page.tsx''] [[''client.tsx'']]) of
      Some (Inr rep) \<Rightarrow> report_is_ok rep | _ \<Rightarrow> False)"
proof (intro conjI)
  show "case validate_app gallery_env gallery_fs [] (gallery_manifest [''page.tsx''] [[''client.tsx'']]) of
      Some (Inr rep) \<Rightarrow> report_is_ok rep | _ \<Rightarrow> False"
    by code_simp
qed (simp_all add: gallery_manifest_def gallery_reaches gallery_secret)

text \<open>A route without the files that wrap and accompany its page.\<close>

definition erase_shell :: "route_entry \<Rightarrow> route_entry" where
  "erase_shell r = r\<lparr>entry_template_chain := [], entry_slots := []\<rparr>"

lemma validate_route_erase [simp]: "validate_route env fs root app v (erase_shell r) = validate_route env fs root app v r"
proof -
  have same: "entry_file (erase_shell r) = entry_file r" "entry_kind (erase_shell r) = entry_kind r"
    "entry_layout_chain (erase_shell r) = entry_layout_chain r" "entry_render (erase_shell r) = entry_render r"
    "entry_client_modules (erase_shell r) = entry_client_modules r" "entry_path (erase_shell r) = entry_path r"
    "entry_server_modules (erase_shell r) = entry_server_modules r" "entry_runtime (erase_shell r) = entry_runtime r"
    "entry_id (erase_shell r) = entry_id r"
    by (simp_all add: erase_shell_def)
  have "edge_module env (erase_shell r) = edge_module env r"
    by (intro ext) (simp only: edge_module_def same)
  then show ?thesis
    by (simp only: validate_route_def validate_page_def validate_api_def validate_edge_def walk_route_def same)
qed

lemma validate_routes_erase [simp]:
  "validate_routes env fs root app v (map erase_shell rs) = validate_routes env fs root app v rs"
  by (induction rs arbitrary: v) (auto split: option.split sum.split)

text \<open>Templates and parallel slots are outside the validation: the report of \<open>validate_app\<close> does not depend on
  a route's template chain or on its slots, although a hydrated page mounts both in the browser.\<close>

theorem validate_ignores_templates_and_slots:
  "validate_app env fs root (m\<lparr>routes := map erase_shell (routes m)\<rparr>) = validate_app env fs root m"
proof -
  have "filter (\<lambda>r. entry_kind r = k) (map erase_shell rs) = map erase_shell (filter (\<lambda>r. entry_kind r = k) rs)" for k rs
    by (simp add: filter_map erase_shell_def comp_def)
  then show ?thesis by (simp add: validate_app_def)
qed

end
