(* ===== verification/Recency_List.thy ===== *)
theory Recency_List
  imports Prelude
begin

text \<open>
  The recency order of the render cache, \<open>RecencyList\<close> of
  \<open>src/crates/ruvyxa_dev_server/src/render_cache.rs\<close>: a doubly linked list whose nodes are addressed by key
  through a hash map. The hash map is a map, so its length is the size of its domain.

  The result \<open>None\<close> of an operation is a panic (an \<open>expect\<close> on a broken link, an index of a missing key)
  or a loop that does not end; the lemmas show that neither happens on a list that is linked, and that each
  operation is the operation on the list of keys it stands for. The locale \<open>simulation\<close> carries such a
  correspondence from single operations to runs.
\<close>

section \<open>Machines and their specifications\<close>

text \<open>An operation of a machine either fails (\<open>None\<close>) or answers and moves on.\<close>

fun run_ops :: "('op \<Rightarrow> 's \<Rightarrow> ('r \<times> 's) option) \<Rightarrow> 'op list \<Rightarrow> 's \<Rightarrow> ('r list \<times> 's) option" where
  "run_ops step [] s = Some ([], s)"
| "run_ops step (op # ops) s =
     (case step op s of
        None \<Rightarrow> None
      | Some (r, s') \<Rightarrow> map_option (\<lambda>(rs, s''). (r # rs, s'')) (run_ops step ops s'))"

fun run_spec :: "('op \<Rightarrow> 'a \<Rightarrow> 'r \<times> 'a) \<Rightarrow> 'op list \<Rightarrow> 'a \<Rightarrow> 'r list \<times> 'a" where
  "run_spec spec [] a = ([], a)"
| "run_spec spec (op # ops) a =
     (let (r, a') = spec op a; (rs, a'') = run_spec spec ops a' in (r # rs, a''))"

fun allowed_run :: "('op \<Rightarrow> 'a \<Rightarrow> bool) \<Rightarrow> ('op \<Rightarrow> 'a \<Rightarrow> 'r \<times> 'a) \<Rightarrow> 'op list \<Rightarrow> 'a \<Rightarrow> bool" where
  "allowed_run pre spec [] a = True"
| "allowed_run pre spec (op # ops) a = (pre op a \<and> allowed_run pre spec ops (snd (spec op a)))"

locale simulation =
  fixes R :: "'s \<Rightarrow> 'a \<Rightarrow> bool"
    and step :: "'op \<Rightarrow> 's \<Rightarrow> ('r \<times> 's) option"
    and spec :: "'op \<Rightarrow> 'a \<Rightarrow> 'r \<times> 'a"
    and pre :: "'op \<Rightarrow> 'a \<Rightarrow> bool"
  assumes simulates: "R s a \<Longrightarrow> pre op a \<Longrightarrow> \<exists>s'. step op s = Some (fst (spec op a), s') \<and> R s' (snd (spec op a))"
begin

lemma run_simulates:
  "R s a \<Longrightarrow> allowed_run pre spec ops a \<Longrightarrow>
   \<exists>s'. run_ops step ops s = Some (fst (run_spec spec ops a), s') \<and> R s' (snd (run_spec spec ops a))"
proof (induction ops arbitrary: s a)
  case (Cons op ops)
  obtain s1 where s1: "step op s = Some (fst (spec op a), s1)" "R s1 (snd (spec op a))"
    using simulates [OF Cons.prems(1), of op] Cons.prems(2) by auto
  obtain s2 where "run_ops step ops s1 = Some (fst (run_spec spec ops (snd (spec op a))), s2)"
    "R s2 (snd (run_spec spec ops (snd (spec op a))))"
    using Cons.IH [OF s1(2)] Cons.prems(2) by auto
  with s1(1) show ?case by (auto simp: case_prod_beta Let_def)
qed simp

end

section \<open>The linked list\<close>

type_synonym cache_key = string

record recency_links =
  link_prev :: "cache_key option"
  link_next :: "cache_key option"

record recency_list =
  order_links :: "cache_key \<rightharpoonup> recency_links"
  order_head :: "cache_key option"
  order_tail :: "cache_key option"

definition empty_order :: recency_list where
  "empty_order = \<lparr>order_links = Map.empty, order_head = None, order_tail = None\<rparr>"

definition order_len :: "recency_list \<Rightarrow> nat" where
  "order_len l = card (dom (order_links l))"

text \<open>\<open>get_mut(key).expect(..)\<close> followed by an assignment to a field of the node.\<close>

definition relink :: "cache_key \<Rightarrow> (recency_links \<Rightarrow> recency_links) \<Rightarrow> recency_list \<Rightarrow> recency_list option" where
  "relink key f l =
     map_option (\<lambda>links. l\<lparr>order_links := (order_links l)(key \<mapsto> f links)\<rparr>) (order_links l key)"

definition push_back :: "cache_key \<Rightarrow> recency_list \<Rightarrow> recency_list option" where
  "push_back key l =
     (let links = \<lparr>link_prev = order_tail l, link_next = None\<rparr> in
      map_option (\<lambda>l. l\<lparr>order_tail := Some key, order_links := (order_links l)(key \<mapsto> links)\<rparr>)
        (case order_tail l of
           Some tail \<Rightarrow> relink tail (\<lambda>n. n\<lparr>link_next := Some key\<rparr>) l
         | None \<Rightarrow> Some (l\<lparr>order_head := Some key\<rparr>)))"

definition unlink :: "recency_links \<Rightarrow> recency_list \<Rightarrow> recency_list option" where
  "unlink links l =
     (case (case link_prev links of
              Some prev \<Rightarrow> relink prev (\<lambda>n. n\<lparr>link_next := link_next links\<rparr>) l
            | None \<Rightarrow> Some (l\<lparr>order_head := link_next links\<rparr>))
      of None \<Rightarrow> None
       | Some l \<Rightarrow>
           (case link_next links of
              Some nxt \<Rightarrow> relink nxt (\<lambda>n. n\<lparr>link_prev := link_prev links\<rparr>) l
            | None \<Rightarrow> Some (l\<lparr>order_tail := link_prev links\<rparr>)))"

definition take_key :: "cache_key \<Rightarrow> recency_list \<Rightarrow> (cache_key option \<times> recency_list) option" where
  "take_key key l =
     (case order_links l key of
        None \<Rightarrow> Some (None, l)
      | Some links \<Rightarrow> map_option (Pair (Some key)) (unlink links (l\<lparr>order_links := (order_links l)(key := None)\<rparr>)))"

definition remove_key :: "cache_key \<Rightarrow> recency_list \<Rightarrow> (bool \<times> recency_list) option" where
  "remove_key key l = map_option (\<lambda>(k, l). (k \<noteq> None, l)) (take_key key l)"

definition promote :: "cache_key \<Rightarrow> recency_list \<Rightarrow> recency_list option" where
  "promote key l =
     (case take_key key l of
        None \<Rightarrow> None
      | Some (None, l) \<Rightarrow> Some l
      | Some (Some owned, l) \<Rightarrow> push_back owned l)"

definition pop_front :: "recency_list \<Rightarrow> (cache_key option \<times> recency_list) option" where
  "pop_front l = (case order_head l of None \<Rightarrow> Some (None, l) | Some head \<Rightarrow> take_key head l)"

definition clear_order :: "recency_list \<Rightarrow> recency_list" where
  "clear_order l = l\<lparr>order_links := Map.empty, order_head := None, order_tail := None\<rparr>"

partial_function (option) retain_loop ::
  "(cache_key \<Rightarrow> bool) \<Rightarrow> cache_key option \<Rightarrow> recency_list \<Rightarrow> recency_list option" where
  "retain_loop keep cursor l =
     (case cursor of
        None \<Rightarrow> Some l
      | Some key \<Rightarrow>
          (let cursor = (case order_links l key of None \<Rightarrow> None | Some links \<Rightarrow> link_next links) in
           if keep key then retain_loop keep cursor l
           else case take_key key l of None \<Rightarrow> None | Some (_, l) \<Rightarrow> retain_loop keep cursor l))"

definition retain :: "(cache_key \<Rightarrow> bool) \<Rightarrow> recency_list \<Rightarrow> recency_list option" where
  "retain keep l = retain_loop keep (order_head l) l"

partial_function (option) front_to_back_loop :: "recency_list \<Rightarrow> cache_key option \<Rightarrow> cache_key list option" where
  "front_to_back_loop l cursor =
     (case cursor of
        None \<Rightarrow> Some []
      | Some key \<Rightarrow>
          (case order_links l key of
             None \<Rightarrow> None
           | Some links \<Rightarrow>
               Option.bind (front_to_back_loop l (link_next links)) (\<lambda>keys. Some (key # keys))))"

definition keys_front_to_back :: "recency_list \<Rightarrow> cache_key list option" where
  "keys_front_to_back l = front_to_back_loop l (order_head l)"

declare retain_loop.simps [code]
declare front_to_back_loop.simps [code]

section \<open>The keys a list stands for\<close>

definition first_of :: "'k list \<Rightarrow> 'k option \<Rightarrow> 'k option" where
  "first_of xs n = (case xs of [] \<Rightarrow> n | x # _ \<Rightarrow> Some x)"

definition last_of :: "'k list \<Rightarrow> 'k option \<Rightarrow> 'k option" where
  "last_of xs p = (if xs = [] then p else Some (last xs))"

lemma first_last_simps [simp]:
  "first_of [] n = n" "first_of (x # xs) n = Some x" "last_of [] p = p" "last_of (xs @ [x]) p = Some x"
  "last_of [x] p = Some x" "last_of (x # y # ys) p = last_of (y # ys) q"
  by (simp_all add: first_of_def last_of_def)

text \<open>The segment \<open>xs\<close> of the list, entered from \<open>p\<close> and left to \<open>n\<close>.\<close>

fun segment :: "(cache_key \<rightharpoonup> recency_links) \<Rightarrow> cache_key option \<Rightarrow> cache_key list \<Rightarrow> cache_key option \<Rightarrow> bool" where
  "segment h p [] n = True"
| "segment h p (x # xs) n = (h x = Some \<lparr>link_prev = p, link_next = first_of xs n\<rparr> \<and> segment h (Some x) xs n)"

definition represents :: "recency_list \<Rightarrow> cache_key list \<Rightarrow> bool" where
  "represents l xs \<longleftrightarrow>
     distinct xs \<and> dom (order_links l) = set xs \<and> order_head l = first_of xs None \<and>
     order_tail l = last_of xs None \<and> segment (order_links l) None xs None"

lemma segment_append:
  "segment h p (xs @ ys) n \<longleftrightarrow> segment h p xs (first_of ys n) \<and> segment h (last_of xs p) ys n"
proof (induction xs arbitrary: p)
  case (Cons x xs)
  then show ?case by (cases xs) (auto simp: last_of_def)
qed simp

lemma segment_other [simp]: "k \<notin> set xs \<Longrightarrow> segment (h(k := v)) p xs n = segment h p xs n"
  by (induction xs arbitrary: p) auto

lemma segment_dom: "segment h p xs n \<Longrightarrow> k \<in> set xs \<Longrightarrow> h k \<noteq> None"
  by (induction xs arbitrary: p) auto

lemma segment_change_last:
  "segment h p (xs @ [x]) n \<Longrightarrow> x \<notin> set xs \<Longrightarrow>
   \<exists>links. h x = Some links \<and> segment (h(x \<mapsto> links\<lparr>link_next := n'\<rparr>)) p (xs @ [x]) n'"
  by (auto simp: segment_append)

lemma segment_change_first:
  "segment h p (x # xs) n \<Longrightarrow> x \<notin> set xs \<Longrightarrow>
   \<exists>links. h x = Some links \<and> segment (h(x \<mapsto> links\<lparr>link_prev := p'\<rparr>)) p' (x # xs) n"
  by auto

lemma empty_represents [simp]: "represents empty_order []"
  by (simp add: represents_def empty_order_def)

lemma clear_represents [simp]: "represents (clear_order l) []"
  by (simp add: represents_def clear_order_def)

lemma represents_len: "represents l xs \<Longrightarrow> order_len l = length xs"
  by (simp add: represents_def order_len_def distinct_card)

section \<open>Each operation on the keys\<close>

lemma push_back_represents:
  assumes "represents l xs" "k \<notin> set xs"
  shows "\<exists>l'. push_back k l = Some l' \<and> represents l' (xs @ [k])"
proof (cases xs rule: rev_cases)
  case Nil
  with assms show ?thesis by (auto simp: push_back_def represents_def Let_def)
next
  case (snoc ys y)
  from assms snoc have seg: "segment (order_links l) None (ys @ [y]) None" and y: "y \<notin> set ys" "k \<noteq> y" "k \<notin> set ys"
    and l: "order_tail l = Some y" "order_head l = first_of (ys @ [y]) None" "dom (order_links l) = set (ys @ [y])"
    by (auto simp: represents_def)
  obtain links where links: "order_links l y = Some links"
    "segment ((order_links l)(y \<mapsto> links\<lparr>link_next := Some k\<rparr>)) None (ys @ [y]) (Some k)"
    using segment_change_last [OF seg y(1)] by blast
  let ?l = "l\<lparr>order_links := (order_links l)(y \<mapsto> links\<lparr>link_next := Some k\<rparr>, k \<mapsto> \<lparr>link_prev = Some y, link_next = None\<rparr>),
      order_tail := Some k\<rparr>"
  have push: "push_back k l = Some ?l"
    using links(1) l(1) by (simp add: push_back_def relink_def)
  have seg': "segment (order_links ?l) None (ys @ [y]) (Some k)" using links(2) y by simp
  have "segment (order_links ?l) None ((ys @ [y]) @ [k]) None"
    unfolding segment_append [of _ _ "ys @ [y]"] using seg' by simp
  moreover have "order_head ?l = first_of (xs @ [k]) None"
    using l(2) snoc by (cases ys) simp_all
  ultimately have "represents ?l (xs @ [k])"
    using snoc y l(3) assms by (auto simp: represents_def last_of_def)
  with push show ?thesis by blast
qed

lemma take_key_absent: "represents l xs \<Longrightarrow> k \<notin> set xs \<Longrightarrow> take_key k l = Some (None, l)"
  by (auto simp: take_key_def represents_def domIff split: option.split)

lemma remove1_split: "k \<notin> set as \<Longrightarrow> remove1 k (as @ k # bs) = as @ bs"
  by (simp add: remove1_append)

lemma unlink_fields:
  "unlink \<lparr>link_prev = p, link_next = n\<rparr> l =
     (case (case p of Some prev \<Rightarrow> relink prev (\<lambda>m. m\<lparr>link_next := n\<rparr>) l | None \<Rightarrow> Some (l\<lparr>order_head := n\<rparr>))
      of None \<Rightarrow> None
       | Some l \<Rightarrow> (case n of Some nxt \<Rightarrow> relink nxt (\<lambda>m. m\<lparr>link_prev := p\<rparr>) l | None \<Rightarrow> Some (l\<lparr>order_tail := p\<rparr>)))"
  by (simp only: unlink_def recency_links.select_convs)

text \<open>Unlinking a node joins its neighbours: first on the left, then on the right.\<close>

lemma unlink_represents:
  assumes "segment h None (as @ k # bs) None" "distinct (as @ k # bs)" "dom h = set (as @ k # bs)"
    and "order_head l = first_of (as @ k # bs) None" "order_tail l = last_of (as @ k # bs) None"
    and "order_links l = h(k := None)"
  shows "\<exists>l'. unlink \<lparr>link_prev = last_of as None, link_next = first_of bs None\<rparr> l = Some l' \<and> represents l' (as @ bs)"
proof -
  from assms(1) have seg: "segment h None as (Some k)" "segment h (Some k) bs None"
    by (auto simp: segment_append)
  from assms(2) have k: "k \<notin> set as" "k \<notin> set bs" "distinct as" "distinct bs" "set as \<inter> set bs = {}"
    by auto
  let ?n = "first_of bs None" and ?p = "last_of as None"
  have left: "\<exists>l1. (case ?p of Some prev \<Rightarrow> relink prev (\<lambda>n. n\<lparr>link_next := ?n\<rparr>) l
             | None \<Rightarrow> Some (l\<lparr>order_head := ?n\<rparr>)) = Some l1 \<and>
      segment (order_links l1) None as ?n \<and> segment (order_links l1) (Some k) bs None \<and>
      dom (order_links l1) = set as \<union> set bs \<and> order_head l1 = first_of (as @ bs) None \<and> order_tail l1 = order_tail l"
  proof (cases as rule: rev_cases)
    case Nil
    with assms seg k show ?thesis by auto
  next
    case (snoc cs c)
    with k have c: "c \<notin> set cs" "c \<noteq> k" "c \<notin> set bs" by auto
    obtain links where links: "h c = Some links" "segment (h(c \<mapsto> links\<lparr>link_next := ?n\<rparr>)) None as ?n"
      using segment_change_last [of h None cs c "Some k" ?n] seg(1) snoc c by auto
    let ?l = "l\<lparr>order_links := (order_links l)(c \<mapsto> links\<lparr>link_next := ?n\<rparr>)\<rparr>"
    have "order_links ?l = (h(c \<mapsto> links\<lparr>link_next := ?n\<rparr>))(k := None)" using assms(6) c(2) by auto
    then have "segment (order_links ?l) None as ?n" "segment (order_links ?l) (Some k) bs None"
      "dom (order_links ?l) = set as \<union> set bs"
      using links(2) seg(2) k c assms(3) snoc by auto
    moreover have "order_head ?l = first_of (as @ bs) None" using assms(4) snoc by (cases cs) simp_all
    ultimately show ?thesis using snoc links(1) assms(6) c(2) by (simp add: relink_def)
  qed
  then obtain l1 where l1: "(case ?p of Some prev \<Rightarrow> relink prev (\<lambda>n. n\<lparr>link_next := ?n\<rparr>) l
             | None \<Rightarrow> Some (l\<lparr>order_head := ?n\<rparr>)) = Some l1"
      "segment (order_links l1) None as ?n" "segment (order_links l1) (Some k) bs None"
      "dom (order_links l1) = set as \<union> set bs" "order_head l1 = first_of (as @ bs) None" "order_tail l1 = order_tail l"
    by blast
  show ?thesis
  proof (cases bs)
    case Nil
    with l1 k have "represents (l1\<lparr>order_tail := ?p\<rparr>) (as @ bs)" by (simp add: represents_def)
    then show ?thesis unfolding unlink_fields l1(1) using Nil by simp
  next
    case (Cons d ds)
    with k have d: "d \<notin> set ds" "d \<notin> set as" by auto
    obtain links where links: "order_links l1 d = Some links"
      "segment ((order_links l1)(d \<mapsto> links\<lparr>link_prev := ?p\<rparr>)) ?p bs None"
      using segment_change_first [of "order_links l1" "Some k" d ds None ?p] l1(3) Cons d by auto
    let ?l = "l1\<lparr>order_links := (order_links l1)(d \<mapsto> links\<lparr>link_prev := ?p\<rparr>)\<rparr>"
    have "segment (order_links ?l) None (as @ bs) None"
      using links(2) l1(2) d by (simp add: segment_append)
    moreover have "order_tail ?l = last_of (as @ bs) None"
      using l1(6) assms(5) Cons by (simp add: last_of_def)
    ultimately have "represents ?l (as @ bs)"
      using l1(4,5) Cons k d by (auto simp: represents_def)
    then show ?thesis unfolding unlink_fields l1(1) using Cons links(1) by (simp add: relink_def)
  qed
qed

lemma take_key_represents:
  assumes "represents l xs" "k \<in> set xs"
  shows "\<exists>l'. take_key k l = Some (Some k, l') \<and> represents l' (remove1 k xs)"
proof -
  from assms(2) obtain as bs where xs: "xs = as @ k # bs" "k \<notin> set as" by (metis split_list_first)
  from assms(1) xs have seg: "segment (order_links l) None (as @ k # bs) None" by (simp add: represents_def)
  then have "order_links l k = Some \<lparr>link_prev = last_of as None, link_next = first_of bs None\<rparr>"
    by (simp add: segment_append)
  moreover obtain l' where
    "unlink \<lparr>link_prev = last_of as None, link_next = first_of bs None\<rparr> (l\<lparr>order_links := (order_links l)(k := None)\<rparr>) = Some l'"
    "represents l' (as @ bs)"
    using unlink_represents [OF seg, of "l\<lparr>order_links := (order_links l)(k := None)\<rparr>"] assms(1) xs
    by (auto simp: represents_def)
  ultimately show ?thesis using xs by (simp add: take_key_def remove1_split)
qed

lemma remove_key_represents:
  assumes "represents l xs"
  shows "\<exists>l'. remove_key k l = Some (k \<in> set xs, l') \<and> represents l' (remove1 k xs)"
proof (cases "k \<in> set xs")
  case True
  with take_key_represents [OF assms] show ?thesis by (force simp: remove_key_def)
next
  case False
  with take_key_absent [OF assms] assms show ?thesis by (simp add: remove_key_def remove1_idem)
qed

definition moved_back :: "'k \<Rightarrow> 'k list \<Rightarrow> 'k list" where
  "moved_back k xs = (if k \<in> set xs then remove1 k xs @ [k] else xs)"

lemma promote_represents:
  assumes "represents l xs"
  shows "\<exists>l'. promote k l = Some l' \<and> represents l' (moved_back k xs)"
proof (cases "k \<in> set xs")
  case True
  obtain l1 where l1: "take_key k l = Some (Some k, l1)" "represents l1 (remove1 k xs)"
    using take_key_represents [OF assms True] by blast
  have "distinct xs" using assms by (simp add: represents_def)
  then have "k \<notin> set (remove1 k xs)" by simp
  from push_back_represents [OF l1(2) this] l1(1) True show ?thesis by (simp add: promote_def moved_back_def)
next
  case False
  with take_key_absent [OF assms] assms show ?thesis by (simp add: promote_def moved_back_def)
qed

lemma pop_front_represents:
  assumes "represents l xs"
  shows "\<exists>l'. pop_front l = Some (first_of xs None, l') \<and> represents l' (tl xs)"
proof (cases xs)
  case Nil
  with assms show ?thesis by (auto simp: pop_front_def represents_def)
next
  case (Cons x ys)
  moreover have "order_head l = Some x" using assms Cons by (simp add: represents_def)
  ultimately show ?thesis using take_key_represents [OF assms, of x] by (simp add: pop_front_def)
qed

lemma represents_next:
  "represents l (as @ k # bs) \<Longrightarrow> \<exists>p. order_links l k = Some \<lparr>link_prev = p, link_next = first_of bs None\<rparr>"
  by (auto simp: represents_def segment_append)

lemma retain_loop_represents:
  "represents l (as @ bs) \<Longrightarrow>
   \<exists>l'. retain_loop keep (first_of bs None) l = Some l' \<and> represents l' (as @ filter keep bs)"
proof (induction bs arbitrary: as l)
  case Nil
  then show ?case by (simp add: retain_loop.simps)
next
  case (Cons k bs)
  obtain p where links: "order_links l k = Some \<lparr>link_prev = p, link_next = first_of bs None\<rparr>"
    using represents_next [OF Cons.prems] by blast
  show ?case
  proof (cases "keep k")
    case True
    have "represents l ((as @ [k]) @ bs)" using Cons.prems by simp
    from Cons.IH [OF this] True links show ?thesis
      by (simp add: retain_loop.simps [of keep "Some k"])
  next
    case False
    have "k \<notin> set as" using Cons.prems by (simp add: represents_def)
    then obtain l1 where l1: "take_key k l = Some (Some k, l1)" "represents l1 (as @ bs)"
      using take_key_represents [OF Cons.prems, of k] by (auto simp: remove1_split)
    from Cons.IH [OF l1(2)] False links l1(1) show ?thesis
      by (simp add: retain_loop.simps [of keep "Some k"])
  qed
qed

lemma retain_represents:
  assumes "represents l xs"
  shows "\<exists>l'. retain keep l = Some l' \<and> represents l' (filter keep xs)"
proof -
  have "order_head l = first_of xs None" using assms by (simp add: represents_def)
  with retain_loop_represents [of l "[]" xs keep] assms show ?thesis by (simp add: retain_def)
qed

lemma front_to_back_loop_represents:
  "segment (order_links l) p bs None \<Longrightarrow> front_to_back_loop l (first_of bs None) = Some bs"
  by (induction bs arbitrary: p) (auto simp: front_to_back_loop.simps)

lemma keys_front_to_back_represents: "represents l xs \<Longrightarrow> keys_front_to_back l = Some xs"
  unfolding keys_front_to_back_def represents_def using front_to_back_loop_represents by metis

section \<open>Runs of operations\<close>

datatype order_op = PushBack cache_key | Remove cache_key | Promote cache_key | PopFront | Retain "cache_key \<Rightarrow> bool" | Clear

datatype order_answer = Done | Found bool | Popped "cache_key option"

fun order_step :: "order_op \<Rightarrow> recency_list \<Rightarrow> (order_answer \<times> recency_list) option" where
  "order_step (PushBack k) l = map_option (Pair Done) (push_back k l)"
| "order_step (Remove k) l = map_option (\<lambda>(b, l). (Found b, l)) (remove_key k l)"
| "order_step (Promote k) l = map_option (Pair Done) (promote k l)"
| "order_step PopFront l = map_option (\<lambda>(k, l). (Popped k, l)) (pop_front l)"
| "order_step (Retain keep) l = map_option (Pair Done) (retain keep l)"
| "order_step Clear l = Some (Done, clear_order l)"

fun order_spec :: "order_op \<Rightarrow> cache_key list \<Rightarrow> order_answer \<times> cache_key list" where
  "order_spec (PushBack k) xs = (Done, xs @ [k])"
| "order_spec (Remove k) xs = (Found (k \<in> set xs), remove1 k xs)"
| "order_spec (Promote k) xs = (Done, moved_back k xs)"
| "order_spec PopFront xs = (Popped (first_of xs None), tl xs)"
| "order_spec (Retain keep) xs = (Done, filter keep xs)"
| "order_spec Clear xs = (Done, [])"

text \<open>The contract of \<open>push_back\<close>, which the code asserts in debug builds.\<close>

fun order_pre :: "order_op \<Rightarrow> cache_key list \<Rightarrow> bool" where
  "order_pre (PushBack k) xs = (k \<notin> set xs)"
| "order_pre _ xs = True"

interpretation recency: simulation represents order_step order_spec order_pre
proof
  fix l xs op
  assume "represents l xs" "order_pre op xs"
  then show "\<exists>l'. order_step op l = Some (fst (order_spec op xs), l') \<and> represents l' (snd (order_spec op xs))"
    by (cases op) (auto dest: push_back_represents remove_key_represents promote_represents pop_front_represents retain_represents)
qed

text \<open>The recency list is a list of keys. Any run of operations that pushes only unlinked keys ends without
  a panic, answers as the plain list of keys does, and reading the links from front to back afterwards yields
  that list, with as many nodes as keys.\<close>

theorem recency_list_refines:
  assumes "allowed_run order_pre order_spec ops []"
  shows "\<exists>l. run_ops order_step ops empty_order = Some (fst (run_spec order_spec ops []), l) \<and>
     keys_front_to_back l = Some (snd (run_spec order_spec ops [])) \<and>
     order_len l = length (snd (run_spec order_spec ops []))"
proof -
  obtain l where l: "run_ops order_step ops empty_order = Some (fst (run_spec order_spec ops []), l)"
    "represents l (snd (run_spec order_spec ops []))"
    using recency.run_simulates [OF empty_represents assms] by blast
  with keys_front_to_back_represents [OF l(2)] represents_len [OF l(2)] show ?thesis by simp
qed

theorem recency_list_refines_witness:
  "\<exists>l. run_ops order_step [PushBack ''a'', PushBack ''b'', PushBack ''c'', Promote ''a'', PopFront, Remove ''z''] empty_order =
     Some ([Done, Done, Done, Done, Popped (Some ''b''), Found False], l) \<and>
     keys_front_to_back l = Some [''c'', ''a''] \<and> order_len l = length [''c'', ''a'']"
proof -
  let ?ops = "[PushBack ''a'', PushBack ''b'', PushBack ''c'', Promote ''a'', PopFront, Remove ''z'']"
  have "allowed_run order_pre order_spec ?ops []" by (simp add: moved_back_def)
  from recency_list_refines [OF this]
  have "\<exists>l. run_ops order_step ?ops empty_order = Some (fst (run_spec order_spec ?ops []), l) \<and>
     keys_front_to_back l = Some (snd (run_spec order_spec ?ops [])) \<and>
     order_len l = length (snd (run_spec order_spec ?ops []))" .
  moreover have "run_spec order_spec ?ops [] = ([Done, Done, Done, Done, Popped (Some ''b''), Found False], [''c'', ''a''])"
    by (simp add: moved_back_def)
  ultimately show ?thesis by (simp only: fst_conv snd_conv)
qed

end
