(* ===== verification/Render_Cache.thy ===== *)
theory Render_Cache
  imports Recency_List Radix_Router
begin

text \<open>
  The render cache of \<open>src/crates/ruvyxa_dev_server/src/render_cache.rs\<close>: rendered documents under a bounded
  least-recently-used policy, the keys they are stored under, and the claims that force a path to be rendered
  again.

  Each operation of the cache takes its locks for a section at a time; the model has one function per section
  and composes them as the code does, so a sequence of sections is an interleaving of requests. \<open>promote\<close> takes
  the order lock alone, between two writes of a section that holds both locks it may be moved before the
  section, because it touches no entry. Instants are natural numbers, and \<open>elapsed\<close> saturates at zero as in the
  standard library. The compressed copy of a document is not modelled.
\<close>

section \<open>Forced revalidations\<close>

definition MAX_FORCED_REVALIDATIONS :: nat where "MAX_FORCED_REVALIDATIONS = 1024"

definition FORCED_REVALIDATION_HIGH_WATER :: nat where
  "FORCED_REVALIDATION_HIGH_WATER = MAX_FORCED_REVALIDATIONS * 3 div 4"

datatype mark_outcome = Recorded | HighWater | FailedClosed

record forced_revalidations =
  forced_paths :: "string \<rightharpoonup> nat"
  next_generation :: nat
  bypass_prerendered :: bool
  warned_high_water :: bool

datatype revalidation_claim = Exact nat | AllPaths

definition no_forced :: forced_revalidations where
  "no_forced = \<lparr>forced_paths = Map.empty, next_generation = 0, bypass_prerendered = False, warned_high_water = False\<rparr>"

definition fail_closed :: "forced_revalidations \<Rightarrow> forced_revalidations" where
  "fail_closed f = f\<lparr>forced_paths := Map.empty, bypass_prerendered := True, warned_high_water := True\<rparr>"

text \<open>The counter is a \<open>u64\<close>: \<open>checked_add\<close> refuses its largest value.\<close>

definition mark :: "string \<Rightarrow> forced_revalidations \<Rightarrow> mark_outcome \<times> forced_revalidations" where
  "mark p f =
     (if bypass_prerendered f then (Recorded, f)
      else if forced_paths f p = None \<and> MAX_FORCED_REVALIDATIONS \<le> card (dom (forced_paths f)) then (FailedClosed, fail_closed f)
      else if next_generation f = 2 ^ 64 - 1 then (FailedClosed, fail_closed f)
      else
        (let generation = next_generation f + 1;
             f = f\<lparr>next_generation := generation, forced_paths := (forced_paths f)(p \<mapsto> generation)\<rparr> in
         if \<not> warned_high_water f \<and> FORCED_REVALIDATION_HIGH_WATER \<le> card (dom (forced_paths f))
         then (HighWater, f\<lparr>warned_high_water := True\<rparr>) else (Recorded, f)))"

definition claim :: "forced_revalidations \<Rightarrow> string \<Rightarrow> revalidation_claim option" where
  "claim f p = (if bypass_prerendered f then Some AllPaths else map_option Exact (forced_paths f p))"

definition acknowledge :: "string \<Rightarrow> revalidation_claim \<Rightarrow> forced_revalidations \<Rightarrow> forced_revalidations" where
  "acknowledge p c f =
     (case c of
        AllPaths \<Rightarrow> f
      | Exact generation \<Rightarrow>
          (if forced_paths f p = Some generation then f\<lparr>forced_paths := (forced_paths f)(p := None)\<rparr> else f))"

section \<open>Keys\<close>

text \<open>\<open>serde_json::to_string\<close> is the parameter \<open>ser\<close>.\<close>

definition RENDER_NAMESPACES :: "string list" where
  "RENDER_NAMESPACES = [''ssg:'', ''isr:'', ''ppr:'', ''csr:'']"

definition page_cache_key :: "(route_params \<Rightarrow> string) \<Rightarrow> string \<Rightarrow> string \<Rightarrow> route_params \<Rightarrow> cache_key" where
  "page_cache_key ser namespace request_path params =
     (if params = Map.empty then namespace @ ''ssr:'' @ request_path
      else namespace @ ''ssr:'' @ request_path @ ''?'' @ ser params)"

definition client_cache_key :: "(route_params \<Rightarrow> string) \<Rightarrow> string \<Rightarrow> route_params \<Rightarrow> cache_key" where
  "client_cache_key ser request_path params =
     (if params = Map.empty then ''client:'' @ request_path
      else ''client:'' @ request_path @ ''?'' @ ser params)"

fun first_stripped :: "string \<Rightarrow> string list \<Rightarrow> string option" where
  "first_stripped s [] = None"
| "first_stripped s (p # ps) = (case strip_prefix s p of Some t \<Rightarrow> Some t | None \<Rightarrow> first_stripped s ps)"

definition without_namespace :: "cache_key \<Rightarrow> string" where
  "without_namespace key = (case first_stripped key RENDER_NAMESPACES of Some t \<Rightarrow> t | None \<Rightarrow> key)"

definition cache_key_request_path :: "cache_key \<Rightarrow> string option" where
  "cache_key_request_path key =
     map_option (takeWhile (\<lambda>c. c \<noteq> CHR ''?'')) (first_stripped (without_namespace key) [''client:'', ''ssr:''])"

definition cache_key_matches_path :: "string \<Rightarrow> cache_key \<Rightarrow> bool" where
  "cache_key_matches_path request_path key =
     (case cache_key_request_path key of None \<Rightarrow> False | Some keyed \<Rightarrow> keyed = request_path)"

definition dynamic_mark :: "char \<Rightarrow> bool" where
  "dynamic_mark c \<longleftrightarrow> c \<in> {CHR '':'', CHR ''*'', CHR ''[''}"

definition cache_key_matches_route :: "string \<Rightarrow> cache_key \<Rightarrow> bool" where
  "cache_key_matches_route route_path key =
     (let request_path = (case cache_key_request_path key of Some p \<Rightarrow> p | None \<Rightarrow> key) in
      if list_ex dynamic_mark route_path
      then starts_with request_path (takeWhile (\<lambda>c. \<not> dynamic_mark c) route_path)
      else request_path = route_path)"

section \<open>The cache\<close>

record cache_entry =
  ce_value :: string
  ce_created :: nat

record render_cache =
  cache_entries :: "cache_key \<rightharpoonup> cache_entry"
  cache_order :: recency_list
  cache_forced :: forced_revalidations
  cache_capacity :: nat
  cache_ttl :: nat
  cache_hits :: nat
  cache_misses :: nat

definition new_cache :: "nat \<Rightarrow> nat \<Rightarrow> render_cache" where
  "new_cache capacity ttl =
     \<lparr>cache_entries = Map.empty, cache_order = empty_order, cache_forced = no_forced, cache_capacity = capacity,
      cache_ttl = ttl, cache_hits = 0, cache_misses = 0\<rparr>"

definition MAX_ENV_RENDER_CACHE_CAPACITY :: nat where "MAX_ENV_RENDER_CACHE_CAPACITY = 16384"

definition render_cache_capacity :: "string option \<Rightarrow> nat \<Rightarrow> nat" where
  "render_cache_capacity value fallback =
     (case Option.bind value (parse_unsigned (2 ^ 64)) of
        Some capacity \<Rightarrow> min (nat capacity) MAX_ENV_RENDER_CACHE_CAPACITY | None \<Rightarrow> fallback)"

definition count_hit :: "render_cache \<Rightarrow> render_cache" where
  "count_hit c = c\<lparr>cache_hits := (cache_hits c + 1) mod 2 ^ 64\<rparr>"

definition count_miss :: "render_cache \<Rightarrow> render_cache" where
  "count_miss c = c\<lparr>cache_misses := (cache_misses c + 1) mod 2 ^ 64\<rparr>"

definition expired :: "render_cache \<Rightarrow> nat \<Rightarrow> cache_entry \<Rightarrow> bool" where
  "expired c now e \<longleftrightarrow> cache_ttl c < now - ce_created e"

definition peek :: "cache_key \<Rightarrow> nat \<Rightarrow> render_cache \<Rightarrow> string option" where
  "peek key now c =
     (case cache_entries c key of
        None \<Rightarrow> None | Some e \<Rightarrow> if \<not> expired c now e then Some (ce_value e) else None)"

definition promote_entry :: "cache_key \<Rightarrow> render_cache \<Rightarrow> render_cache option" where
  "promote_entry key c = map_option (\<lambda>l. c\<lparr>cache_order := l\<rparr>) (promote key (cache_order c))"

definition remove_if_expired :: "cache_key \<Rightarrow> nat \<Rightarrow> render_cache \<Rightarrow> render_cache option" where
  "remove_if_expired key now c =
     (case cache_entries c key of
        None \<Rightarrow> Some c
      | Some e \<Rightarrow>
          (if expired c now e
           then map_option (\<lambda>(_, l). c\<lparr>cache_entries := (cache_entries c)(key := None), cache_order := l\<rparr>)
             (remove_key key (cache_order c))
           else Some c))"

text \<open>Two clock readings: one under the read lock, one under the write lock.\<close>

definition get_document :: "cache_key \<Rightarrow> nat \<Rightarrow> nat \<Rightarrow> render_cache \<Rightarrow> (string option \<times> render_cache) option" where
  "get_document key now later c =
     (case peek key now c of
        Some v \<Rightarrow> map_option (Pair (Some v)) (promote_entry key (count_hit c))
      | None \<Rightarrow>
          map_option (\<lambda>c. (None, count_miss c))
            (if cache_entries c key \<noteq> None then remove_if_expired key later c else Some c))"

definition get_stale_with_age :: "cache_key \<Rightarrow> nat \<Rightarrow> render_cache \<Rightarrow> ((string \<times> nat) option \<times> render_cache) option" where
  "get_stale_with_age key now c =
     (case cache_entries c key of
        None \<Rightarrow> Some (None, c)
      | Some e \<Rightarrow>
          map_option (Pair (Some (ce_value e, now - ce_created e))) (promote_entry key (count_hit c)))"

partial_function (option) evict_loop ::
  "nat \<Rightarrow> (cache_key \<rightharpoonup> cache_entry) \<Rightarrow> recency_list \<Rightarrow> ((cache_key \<rightharpoonup> cache_entry) \<times> recency_list) option" where
  "evict_loop capacity entries order =
     (if card (dom entries) < capacity then Some (entries, order)
      else case pop_front order of
             None \<Rightarrow> None
           | Some (None, order) \<Rightarrow> Some (Map.empty, order)
           | Some (Some oldest, order) \<Rightarrow> evict_loop capacity (entries(oldest := None)) order)"

definition put :: "cache_key \<Rightarrow> string \<Rightarrow> nat \<Rightarrow> render_cache \<Rightarrow> (string \<times> render_cache) option" where
  "put key value now c =
     (if cache_capacity c = 0 then Some (value, c)
      else
        (case (if cache_entries c key \<noteq> None
               then map_option (\<lambda>(_, l). (cache_entries c, l)) (remove_key key (cache_order c))
               else evict_loop (cache_capacity c) (cache_entries c) (cache_order c))
         of None \<Rightarrow> None
          | Some (entries, order) \<Rightarrow>
              map_option (\<lambda>l. (value, c\<lparr>cache_entries := entries(key \<mapsto> \<lparr>ce_value = value, ce_created = now\<rparr>), cache_order := l\<rparr>))
                (push_back key order)))"

definition retain_matching :: "(cache_key \<Rightarrow> bool) \<Rightarrow> render_cache \<Rightarrow> (nat \<times> render_cache) option" where
  "retain_matching discard c =
     (let entries = cache_entries c |` {k. \<not> discard k} in
      map_option (\<lambda>l. (card (dom (cache_entries c)) - card (dom entries), c\<lparr>cache_entries := entries, cache_order := l\<rparr>))
        (retain (\<lambda>k. \<not> discard k) (cache_order c)))"

definition invalidate_all :: "render_cache \<Rightarrow> (nat \<times> render_cache) option" where
  "invalidate_all c = retain_matching (\<lambda>_. True) c"

definition invalidate_route :: "string \<Rightarrow> render_cache \<Rightarrow> (nat \<times> render_cache) option" where
  "invalidate_route route_path c = retain_matching (cache_key_matches_route route_path) c"

definition mark_forced :: "string \<Rightarrow> render_cache \<Rightarrow> render_cache" where
  "mark_forced p c = c\<lparr>cache_forced := snd (mark p (cache_forced c))\<rparr>"

definition revalidate_path :: "string \<Rightarrow> render_cache \<Rightarrow> (nat \<times> render_cache) option" where
  "revalidate_path p c = map_option (map_prod (\<lambda>n. n) (mark_forced p)) (retain_matching (cache_key_matches_path p) c)"

definition revalidate_all_paths :: "render_cache \<Rightarrow> nat \<times> render_cache" where
  "revalidate_all_paths c =
     (card (dom (cache_entries c)),
      c\<lparr>cache_entries := Map.empty, cache_order := clear_order (cache_order c), cache_forced := fail_closed (cache_forced c)\<rparr>)"

definition forced_claim :: "render_cache \<Rightarrow> string \<Rightarrow> revalidation_claim option" where
  "forced_claim c p = claim (cache_forced c) p"

definition acknowledge_forced :: "string \<Rightarrow> revalidation_claim \<Rightarrow> render_cache \<Rightarrow> render_cache" where
  "acknowledge_forced p k c = c\<lparr>cache_forced := acknowledge p k (cache_forced c)\<rparr>"

definition MAX_REVALIDATED_PATHS :: nat where "MAX_REVALIDATED_PATHS = 64"

definition MAX_REVALIDATED_PATH_LEN :: nat where "MAX_REVALIDATED_PATH_LEN = 2048"

text \<open>\<open>apply_revalidations\<close> of \<open>render_pipeline.rs\<close>; the length in UTF-16 units is the parameter \<open>utf16_len\<close>.\<close>

fun apply_each :: "(string \<Rightarrow> nat) \<Rightarrow> string list \<Rightarrow> render_cache \<Rightarrow> render_cache option" where
  "apply_each utf16_len [] c = Some c"
| "apply_each utf16_len (p # ps) c =
     (if \<not> starts_with p ''/'' \<or> MAX_REVALIDATED_PATH_LEN < utf16_len p then apply_each utf16_len ps c
      else case revalidate_path p c of None \<Rightarrow> None | Some (_, c) \<Rightarrow> apply_each utf16_len ps c)"

definition apply_revalidations :: "(string \<Rightarrow> nat) \<Rightarrow> string list option \<Rightarrow> render_cache \<Rightarrow> render_cache option" where
  "apply_revalidations utf16_len paths c =
     (case paths of
        None \<Rightarrow> Some c
      | Some ps \<Rightarrow>
          (if MAX_REVALIDATED_PATHS < length ps then Some (snd (revalidate_all_paths c))
           else apply_each utf16_len ps c))"

section \<open>The cache as a list\<close>

text \<open>What the cache promises: a list of entries from least to most recently used, at most \<open>capacity\<close> long.
  The remaining fields are those of the cache.\<close>

type_synonym lru = "(cache_key \<times> cache_entry) list \<times> render_cache"

definition cache_rest :: "render_cache \<Rightarrow> render_cache" where
  "cache_rest c = c\<lparr>cache_entries := Map.empty, cache_order := empty_order\<rparr>"

definition in_step :: "render_cache \<Rightarrow> lru \<Rightarrow> bool" where
  "in_step c a \<longleftrightarrow>
     represents (cache_order c) (map fst (fst a)) \<and> cache_entries c = map_of (fst a) \<and>
     length (fst a) \<le> cache_capacity c \<and> snd a = cache_rest c"

definition without_key :: "cache_key \<Rightarrow> (cache_key \<times> cache_entry) list \<Rightarrow> (cache_key \<times> cache_entry) list" where
  "without_key key xs = filter (\<lambda>(k, _). k \<noteq> key) xs"

definition touched :: "cache_key \<Rightarrow> (cache_key \<times> cache_entry) list \<Rightarrow> (cache_key \<times> cache_entry) list" where
  "touched key xs = (case map_of xs key of None \<Rightarrow> xs | Some e \<Rightarrow> without_key key xs @ [(key, e)])"

definition inserted :: "nat \<Rightarrow> cache_key \<Rightarrow> cache_entry \<Rightarrow> (cache_key \<times> cache_entry) list \<Rightarrow> (cache_key \<times> cache_entry) list" where
  "inserted capacity key e xs =
     (if capacity = 0 then xs
      else if map_of xs key \<noteq> None then without_key key xs @ [(key, e)]
      else drop (Suc (length xs) - capacity) xs @ [(key, e)])"

lemma map_of_without_key: "map_of (without_key key xs) = (map_of xs)(key := None)"
  unfolding without_key_def by (induction xs) auto

lemma map_of_filter_keys: "map_of (filter (\<lambda>x. P (fst x)) xs) = map_of xs |` {k. P k}"
  by (induction xs) (auto simp: restrict_map_def fun_eq_iff)

lemma fst_without_key: "distinct (map fst xs) \<Longrightarrow> map fst (without_key key xs) = remove1 key (map fst xs)"
proof (induction xs)
  case (Cons x xs)
  have "key \<notin> fst ` set xs \<Longrightarrow> without_key key xs = xs"
    unfolding without_key_def by (rule filter_True) (auto simp: image_iff)
  with Cons show ?case by (auto simp: without_key_def split: prod.splits)
qed (simp add: without_key_def)

lemma length_without_key:
  "map_of xs key \<noteq> None \<Longrightarrow> length (without_key key xs) < length xs"
proof -
  assume "map_of xs key \<noteq> None"
  then obtain e where "(key, e) \<in> set xs" by (auto dest: map_of_SomeD)
  then show ?thesis unfolding without_key_def by (rule length_filter_less) simp
qed

lemma in_step_distinct: "in_step c a \<Longrightarrow> distinct (map fst (fst a))"
  by (simp add: in_step_def represents_def)

lemma map_of_remove_front:
  "distinct (map fst ((k, e) # xs)) \<Longrightarrow> (map_of ((k, e) # xs))(k := None) = map_of xs"
  by (auto simp: fun_eq_iff) (metis map_of_eq_None_iff)

lemma card_dom_map_of: "distinct (map fst xs) \<Longrightarrow> card (dom (map_of xs)) = length xs"
  by (simp add: dom_map_of_conv_image_fst distinct_card flip: set_map)

lemma evict_loop_drops:
  "represents l (map fst xs) \<Longrightarrow> 0 < capacity \<Longrightarrow>
   \<exists>l'. evict_loop capacity (map_of xs) l = Some (map_of (drop (Suc (length xs) - capacity) xs), l') \<and>
     represents l' (map fst (drop (Suc (length xs) - capacity) xs))"
proof (induction xs arbitrary: l)
  case Nil
  then show ?case by (simp add: evict_loop.simps)
next
  case (Cons x xs)
  obtain k e where x: "x = (k, e)" by (cases x)
  have d: "distinct (map fst (x # xs))" using Cons.prems(1) by (simp add: represents_def)
  then have card: "card (dom (map_of (x # xs))) = Suc (length xs)" using card_dom_map_of [of "x # xs"] by simp
  show ?case
  proof (cases "Suc (length xs) < capacity")
    case True
    then have "evict_loop capacity (map_of (x # xs)) l = Some (map_of (x # xs), l)"
      using card by (subst evict_loop.simps) (simp del: map_of.simps)
    moreover have "drop (Suc (length (x # xs)) - capacity) (x # xs) = x # xs" using True by simp
    ultimately show ?thesis using Cons.prems(1) by metis
  next
    case False
    obtain l1 where l1: "pop_front l = Some (Some k, l1)" "represents l1 (map fst xs)"
      using pop_front_represents [OF Cons.prems(1)] x by auto
    have "evict_loop capacity (map_of (x # xs)) l = evict_loop capacity (map_of xs) l1"
      using False card l1(1) map_of_remove_front [of k e xs] d x by (subst evict_loop.simps) simp
    moreover have "drop (Suc (length (x # xs)) - capacity) (x # xs) = drop (Suc (length xs) - capacity) xs"
      using False Cons.prems(2) by (simp add: Suc_diff_le)
    ultimately show ?thesis using Cons.IH [OF l1(2) Cons.prems(2)] by metis
  qed
qed

text \<open>The locked sections and the operations made of them.\<close>

datatype cache_op =
    PeekEntry cache_key nat
  | PromoteEntry cache_key
  | DropExpired cache_key nat
  | GetDocument cache_key nat nat
  | GetStale cache_key nat
  | Put cache_key string nat
  | DiscardKeys "cache_key \<Rightarrow> bool"
  | RevalidatePath string
  | RevalidateAllPaths
  | AcknowledgeForced string revalidation_claim
  | CountHit
  | CountMiss

datatype cache_answer = NoAnswer | Document "string option" | Stale "(string \<times> nat) option" | Dropped nat

fun cache_step :: "cache_op \<Rightarrow> render_cache \<Rightarrow> (cache_answer \<times> render_cache) option" where
  "cache_step (PeekEntry k now) c = Some (Document (peek k now c), c)"
| "cache_step (PromoteEntry k) c = map_option (Pair NoAnswer) (promote_entry k c)"
| "cache_step (DropExpired k now) c = map_option (Pair NoAnswer) (remove_if_expired k now c)"
| "cache_step (GetDocument k now later) c = map_option (\<lambda>(d, c). (Document d, c)) (get_document k now later c)"
| "cache_step (GetStale k now) c = map_option (\<lambda>(d, c). (Stale d, c)) (get_stale_with_age k now c)"
| "cache_step (Put k v now) c = map_option (\<lambda>(d, c). (Document (Some d), c)) (put k v now c)"
| "cache_step (DiscardKeys p) c = map_option (\<lambda>(n, c). (Dropped n, c)) (retain_matching p c)"
| "cache_step (RevalidatePath p) c = map_option (\<lambda>(n, c). (Dropped n, c)) (revalidate_path p c)"
| "cache_step RevalidateAllPaths c = Some (case revalidate_all_paths c of (n, c) \<Rightarrow> (Dropped n, c))"
| "cache_step (AcknowledgeForced p k) c = Some (NoAnswer, acknowledge_forced p k c)"
| "cache_step CountHit c = Some (NoAnswer, count_hit c)"
| "cache_step CountMiss c = Some (NoAnswer, count_miss c)"

definition lru_fresh :: "lru \<Rightarrow> cache_key \<Rightarrow> nat \<Rightarrow> string option" where
  "lru_fresh a k now =
     (case map_of (fst a) k of
        None \<Rightarrow> None | Some e \<Rightarrow> if now - ce_created e \<le> cache_ttl (snd a) then Some (ce_value e) else None)"

definition lru_expire :: "cache_key \<Rightarrow> nat \<Rightarrow> lru \<Rightarrow> lru" where
  "lru_expire k now a =
     (case map_of (fst a) k of
        None \<Rightarrow> a
      | Some e \<Rightarrow> if cache_ttl (snd a) < now - ce_created e then (without_key k (fst a), snd a) else a)"

definition lru_discard :: "(cache_key \<Rightarrow> bool) \<Rightarrow> lru \<Rightarrow> nat \<times> lru" where
  "lru_discard p a =
     (length (filter (\<lambda>x. p (fst x)) (fst a)), (filter (\<lambda>x. \<not> p (fst x)) (fst a), snd a))"

fun lru_spec :: "cache_op \<Rightarrow> lru \<Rightarrow> cache_answer \<times> lru" where
  "lru_spec (PeekEntry k now) a = (Document (lru_fresh a k now), a)"
| "lru_spec (PromoteEntry k) (xs, c) = (NoAnswer, (touched k xs, c))"
| "lru_spec (DropExpired k now) a = (NoAnswer, lru_expire k now a)"
| "lru_spec (GetDocument k now later) (xs, c) =
     (case lru_fresh (xs, c) k now of
        Some v \<Rightarrow> (Document (Some v), (touched k xs, count_hit c))
      | None \<Rightarrow> (Document None, map_prod (\<lambda>ys. ys) count_miss (lru_expire k later (xs, c))))"
| "lru_spec (GetStale k now) (xs, c) =
     (case map_of xs k of
        None \<Rightarrow> (Stale None, (xs, c))
      | Some e \<Rightarrow> (Stale (Some (ce_value e, now - ce_created e)), (touched k xs, count_hit c)))"
| "lru_spec (Put k v now) (xs, c) =
     (Document (Some v), (inserted (cache_capacity c) k \<lparr>ce_value = v, ce_created = now\<rparr> xs, c))"
| "lru_spec (DiscardKeys p) a = map_prod Dropped (\<lambda>a. a) (lru_discard p a)"
| "lru_spec (RevalidatePath p) a =
     map_prod Dropped (map_prod (\<lambda>ys. ys) (mark_forced p)) (lru_discard (cache_key_matches_path p) a)"
| "lru_spec RevalidateAllPaths (xs, c) = (Dropped (length xs), ([], c\<lparr>cache_forced := fail_closed (cache_forced c)\<rparr>))"
| "lru_spec (AcknowledgeForced p k) (xs, c) = (NoAnswer, (xs, acknowledge_forced p k c))"
| "lru_spec CountHit (xs, c) = (NoAnswer, (xs, count_hit c))"
| "lru_spec CountMiss (xs, c) = (NoAnswer, (xs, count_miss c))"

lemma in_stepE:
  assumes "in_step c a"
  obtains xs where "a = (xs, cache_rest c)" "represents (cache_order c) (map fst xs)" "cache_entries c = map_of xs"
    "length xs \<le> cache_capacity c" "distinct (map fst xs)"
  using assms in_step_distinct [OF assms] by (cases a) (auto simp: in_step_def)

lemma in_step_new: "in_step (new_cache cap ttl) ([], new_cache cap ttl)"
  by (simp add: in_step_def new_cache_def cache_rest_def)

lemma in_stepI:
  "represents l (map fst ys) \<Longrightarrow> length ys \<le> cache_capacity c \<Longrightarrow>
   in_step (c\<lparr>cache_entries := map_of ys, cache_order := l\<rparr>) (ys, cache_rest c)"
  by (simp add: in_step_def cache_rest_def)

text \<open>Changes of the other fields are changes of the specification's copy of them.\<close>

lemma in_step_count_hit: "in_step c a \<Longrightarrow> in_step (count_hit c) (fst a, count_hit (snd a))"
  by (auto simp: in_step_def count_hit_def cache_rest_def)

lemma in_step_count_miss: "in_step c a \<Longrightarrow> in_step (count_miss c) (fst a, count_miss (snd a))"
  by (auto simp: in_step_def count_miss_def cache_rest_def)

lemma in_step_mark: "in_step c a \<Longrightarrow> in_step (mark_forced p c) (fst a, mark_forced p (snd a))"
  by (auto simp: in_step_def mark_forced_def cache_rest_def)

lemma in_step_ack: "in_step c a \<Longrightarrow> in_step (acknowledge_forced p k c) (fst a, acknowledge_forced p k (snd a))"
  by (auto simp: in_step_def acknowledge_forced_def cache_rest_def)

lemma fst_touched:
  assumes "distinct (map fst xs)"
  shows "map fst (touched k xs) = moved_back k (map fst xs)"
proof (cases "map_of xs k")
  case None
  with map_of_eq_None_iff [of xs k] show ?thesis by (simp add: touched_def moved_back_def)
next
  case (Some e)
  then have "k \<in> set (map fst xs)" by (metis list.set_map map_of_eq_None_iff option.distinct(1))
  with Some assms show ?thesis by (simp add: touched_def moved_back_def fst_without_key)
qed

lemma map_of_touched: "distinct (map fst xs) \<Longrightarrow> map_of (touched k xs) = map_of xs"
  by (auto simp: touched_def map_of_without_key fun_eq_iff map_add_def split: option.splits)

lemma length_touched: "length (touched k xs) \<le> length xs"
  using length_without_key [of xs k] by (auto simp: touched_def split: option.splits)

lemma promote_entry_step:
  assumes "in_step c (xs, r)"
  shows "\<exists>c'. promote_entry k c = Some c' \<and> in_step c' (touched k xs, r)"
proof -
  from assms have c: "represents (cache_order c) (map fst xs)" "cache_entries c = map_of xs"
    "length xs \<le> cache_capacity c" "r = cache_rest c" "distinct (map fst xs)"
    by (auto simp: in_step_def represents_def)
  obtain l where l: "promote k (cache_order c) = Some l" "represents l (map fst (touched k xs))"
    using promote_represents [OF c(1)] fst_touched [OF c(5)] by metis
  have "in_step (c\<lparr>cache_order := l\<rparr>) (touched k xs, r)"
    using l(2) c map_of_touched [OF c(5)] length_touched [of k xs] by (simp add: in_step_def cache_rest_def)
  with l(1) show ?thesis by (simp add: promote_entry_def)
qed

lemma remove_if_expired_step:
  assumes "in_step c a"
  shows "\<exists>c'. remove_if_expired k now c = Some c' \<and> in_step c' (lru_expire k now a)"
proof -
  obtain xs where c: "a = (xs, cache_rest c)" "represents (cache_order c) (map fst xs)" "cache_entries c = map_of xs"
    "length xs \<le> cache_capacity c" "distinct (map fst xs)"
    using assms by (rule in_stepE)
  have ttl: "cache_ttl (cache_rest c) = cache_ttl c" by (simp add: cache_rest_def)
  obtain b l where l: "remove_key k (cache_order c) = Some (b, l)" "represents l (map fst (without_key k xs))"
    using remove_key_represents [OF c(2), of k] fst_without_key [OF c(5)] by metis
  have "length (without_key k xs) \<le> cache_capacity c" using c(4) le_trans length_filter_le unfolding without_key_def by blast
  with l(2) have "in_step (c\<lparr>cache_entries := (map_of xs)(k := None), cache_order := l\<rparr>) (without_key k xs, cache_rest c)"
    using in_stepI [OF l(2)] map_of_without_key [of k xs] by metis
  with l(1) c ttl assms show ?thesis
    by (auto simp: remove_if_expired_def lru_expire_def expired_def split: option.split)
qed

lemma retain_matching_step:
  assumes "in_step c a"
  shows "\<exists>c'. retain_matching p c = Some (fst (lru_discard p a), c') \<and> in_step c' (snd (lru_discard p a))"
proof -
  obtain xs where c: "a = (xs, cache_rest c)" "represents (cache_order c) (map fst xs)" "cache_entries c = map_of xs"
    "length xs \<le> cache_capacity c" "distinct (map fst xs)"
    using assms by (rule in_stepE)
  let ?ys = "filter (\<lambda>x. \<not> p (fst x)) xs"
  have fst_ys: "map fst ?ys = filter (\<lambda>k. \<not> p k) (map fst xs)" by (simp add: filter_map comp_def)
  obtain l where l: "retain (\<lambda>k. \<not> p k) (cache_order c) = Some l" "represents l (map fst ?ys)"
    using retain_represents [OF c(2), of "\<lambda>k. \<not> p k"] fst_ys by metis
  have entries: "cache_entries c |` {k. \<not> p k} = map_of ?ys" using c(3) map_of_filter_keys [of "\<lambda>k. \<not> p k" xs] by simp
  have "distinct (map fst ?ys)" using l(2) by (simp add: represents_def)
  then have "card (dom (cache_entries c)) - card (dom (map_of ?ys)) = length (filter (\<lambda>x. p (fst x)) xs)"
    using card_dom_map_of [OF c(5)] card_dom_map_of [of ?ys] sum_length_filter_compl [of "\<lambda>x. p (fst x)" xs] c(3) by simp
  moreover have "in_step (c\<lparr>cache_entries := map_of ?ys, cache_order := l\<rparr>) (?ys, cache_rest c)"
    using l(2) c(4) le_trans length_filter_le by (intro in_stepI) blast+
  ultimately show ?thesis using l(1) c(1) entries by (simp add: retain_matching_def lru_discard_def)
qed

lemma put_step:
  assumes "in_step c (xs, r)"
  shows "\<exists>c'. put k v now c = Some (v, c') \<and>
     in_step c' (inserted (cache_capacity r) k \<lparr>ce_value = v, ce_created = now\<rparr> xs, r)"
proof (cases "cache_capacity c = 0")
  case True
  moreover from assms have "cache_capacity r = 0" using True by (simp add: in_step_def cache_rest_def)
  ultimately show ?thesis using assms by (simp add: put_def inserted_def)
next
  case False
  let ?e = "\<lparr>ce_value = v, ce_created = now\<rparr>"
  from assms have c: "represents (cache_order c) (map fst xs)" "cache_entries c = map_of xs"
    "length xs \<le> cache_capacity c" "r = cache_rest c" "distinct (map fst xs)" "cache_capacity r = cache_capacity c"
    by (auto simp: in_step_def represents_def cache_rest_def)
  define ys where "ys = (if map_of xs k \<noteq> None then without_key k xs else drop (Suc (length xs) - cache_capacity c) xs)"
  define es where "es = (if map_of xs k \<noteq> None then map_of xs else map_of ys)"
  obtain l where l: "(if cache_entries c k \<noteq> None then map_option (\<lambda>(_, l). (cache_entries c, l)) (remove_key k (cache_order c))
        else evict_loop (cache_capacity c) (cache_entries c) (cache_order c)) = Some (es, l)" "represents l (map fst ys)"
  proof (cases "map_of xs k = None")
    case True
    with that evict_loop_drops [OF c(1), of "cache_capacity c"] False c(2) show thesis by (auto simp: ys_def es_def)
  next
    case False
    with that remove_key_represents [OF c(1), of k] fst_without_key [OF c(5), of k] c(2) show thesis
      by (auto simp: ys_def es_def)
  qed
  have "k \<notin> set (map fst ys)"
    by (auto simp: ys_def without_key_def map_of_eq_None_iff split: if_splits dest!: in_set_dropD)
  then obtain l' where l': "push_back k l = Some l'" "represents l' (map fst (ys @ [(k, ?e)]))"
    using push_back_represents [OF l(2)] by auto
  have entries: "es(k \<mapsto> ?e) = map_of (ys @ [(k, ?e)])"
  proof
    fix x
    have "map_of ys k = None" using \<open>k \<notin> set (map fst ys)\<close> by (simp add: map_of_eq_None_iff)
    then show "(es(k \<mapsto> ?e)) x = map_of (ys @ [(k, ?e)]) x"
      by (auto simp: es_def ys_def map_of_without_key map_add_def split: option.split)
  qed
  have "length (ys @ [(k, ?e)]) \<le> cache_capacity c"
    using False c(3) length_without_key [of xs k] by (auto simp: ys_def)
  then have "in_step (c\<lparr>cache_entries := es(k \<mapsto> ?e), cache_order := l'\<rparr>) (ys @ [(k, ?e)], r)"
    using in_stepI [OF l'(2)] c(4) entries by simp
  moreover have "put k v now c = Some (v, c\<lparr>cache_entries := es(k \<mapsto> ?e), cache_order := l'\<rparr>)"
    using False l(1) l'(1) by (simp add: put_def)
  moreover have "inserted (cache_capacity r) k ?e xs = ys @ [(k, ?e)]"
    using False c(6) by (auto simp: inserted_def ys_def)
  ultimately show ?thesis by simp
qed

lemma peek_fresh:
  assumes "in_step c a"
  shows "peek k now c = lru_fresh a k now"
proof -
  have "cache_ttl (snd a) = cache_ttl c" using assms by (simp add: in_step_def cache_rest_def)
  with assms show ?thesis
    by (auto simp: peek_def lru_fresh_def expired_def in_step_def split: option.split)
qed

lemma get_document_step:
  assumes "in_step c (xs, r)"
  shows "\<exists>c'. cache_step (GetDocument k now later) c = Some (fst (lru_spec (GetDocument k now later) (xs, r)), c') \<and>
     in_step c' (snd (lru_spec (GetDocument k now later) (xs, r)))"
proof (cases "lru_fresh (xs, r) k now")
  case (Some v)
  from promote_entry_step [of "count_hit c" xs "count_hit r" k] in_step_count_hit [OF assms] Some
  show ?thesis by (auto simp: get_document_def peek_fresh [OF assms])
next
  case None
  obtain c' where c': "remove_if_expired k later c = Some c'" "in_step c' (lru_expire k later (xs, r))"
    using remove_if_expired_step [OF assms] by blast
  have "in_step (count_miss c') (map_prod (\<lambda>ys. ys) count_miss (lru_expire k later (xs, r)))"
    using in_step_count_miss [OF c'(2)] by (cases "lru_expire k later (xs, r)") simp
  moreover have "(if cache_entries c k \<noteq> None then remove_if_expired k later c else Some c) = Some c'"
    using c'(1) by (auto simp: remove_if_expired_def)
  ultimately show ?thesis using None by (simp add: get_document_def peek_fresh [OF assms])
qed

lemma cache_step_simulates:
  assumes "in_step c a"
  shows "\<exists>c'. cache_step op c = Some (fst (lru_spec op a), c') \<and> in_step c' (snd (lru_spec op a))"
proof -
  obtain xs r where a: "a = (xs, r)" by (cases a)
  have entries: "cache_entries c = map_of xs" "r = cache_rest c" "distinct (map fst xs)"
    using assms a in_step_distinct by (auto simp: in_step_def)
  show ?thesis
  proof (cases op)
    case (PeekEntry k now)
    with assms peek_fresh [OF assms] show ?thesis by simp
  next
    case (PromoteEntry k)
    with promote_entry_step [of c xs r k] assms a show ?thesis by auto
  next
    case (DropExpired k now)
    with remove_if_expired_step [OF assms, of k now] show ?thesis by auto
  next
    case (GetDocument k now later)
    with get_document_step [of c xs r k now later] assms a show ?thesis by blast
  next
    case (GetStale k now)
    with promote_entry_step [of "count_hit c" xs "count_hit r" k] in_step_count_hit [OF assms] assms a entries(1)
    show ?thesis by (auto simp: get_stale_with_age_def split: option.split)
  next
    case (Put k v now)
    with put_step [of c xs r k v now] assms a show ?thesis by auto
  next
    case (DiscardKeys p)
    with retain_matching_step [OF assms, of p] show ?thesis by auto
  next
    case (RevalidatePath p)
    obtain c' where c': "retain_matching (cache_key_matches_path p) c = Some (fst (lru_discard (cache_key_matches_path p) a), c')"
      "in_step c' (snd (lru_discard (cache_key_matches_path p) a))"
      using retain_matching_step [OF assms] by blast
    with in_step_mark [OF c'(2), of p] RevalidatePath show ?thesis
      by (auto simp: revalidate_path_def lru_discard_def)
  next
    case RevalidateAllPaths
    with assms a entries card_dom_map_of [OF entries(3)] show ?thesis
      by (auto simp: revalidate_all_paths_def in_step_def cache_rest_def)
  next
    case (AcknowledgeForced p k)
    with in_step_ack [OF assms, of p k] a show ?thesis by simp
  next
    case CountHit
    with in_step_count_hit [OF assms] a show ?thesis by simp
  next
    case CountMiss
    with in_step_count_miss [OF assms] a show ?thesis by simp
  qed
qed

interpretation lru_cache: simulation in_step cache_step lru_spec "\<lambda>_ _. True"
  by unfold_locales (rule cache_step_simulates)

lemma allowed_run_True [simp]: "allowed_run (\<lambda>_ _. True) spec ops a"
  by (induction ops arbitrary: a) simp_all

text \<open>C4. The render cache is a least-recently-used list. Any interleaving of its locked sections, from a new
  cache, ends without a panic and answers as a plain list of entries ordered by use would: \<open>put\<close> appends and
  drops from the front what exceeds the capacity, a hit moves its entry to the back, an expired entry is a
  miss. The map and the linked order stay in step, and there are never more entries than the capacity.\<close>

theorem cache_refines_lru:
  "\<exists>c. run_ops cache_step ops (new_cache cap ttl) = Some (fst (run_spec lru_spec ops ([], new_cache cap ttl)), c) \<and>
     in_step c (snd (run_spec lru_spec ops ([], new_cache cap ttl)))"
  by (rule lru_cache.run_simulates [OF in_step_new allowed_run_True])

section \<open>Revalidation\<close>

definition forced_ok :: "forced_revalidations \<Rightarrow> bool" where
  "forced_ok f \<longleftrightarrow>
     finite (dom (forced_paths f)) \<and> card (dom (forced_paths f)) \<le> MAX_FORCED_REVALIDATIONS \<and>
     (\<forall>g\<in>ran (forced_paths f). g \<le> next_generation f) \<and> next_generation f < 2 ^ 64"

lemma no_forced_ok: "forced_ok no_forced"
  by (simp add: forced_ok_def no_forced_def)

lemma fail_closed_ok: "forced_ok f \<Longrightarrow> forced_ok (fail_closed f)"
  by (simp add: forced_ok_def fail_closed_def)

lemma mark_ok:
  assumes "forced_ok f"
  shows "forced_ok (snd (mark p f))"
proof -
  let ?f = "f\<lparr>next_generation := next_generation f + 1, forced_paths := (forced_paths f)(p \<mapsto> next_generation f + 1)\<rparr>"
  have new: "forced_ok ?f" "forced_ok (?f\<lparr>warned_high_water := True\<rparr>)"
    if "forced_paths f p = None \<Longrightarrow> \<not> MAX_FORCED_REVALIDATIONS \<le> card (dom (forced_paths f))"
      "next_generation f \<noteq> 2 ^ 64 - 1"
  proof -
    have "card (insert p (dom (forced_paths f))) \<le> MAX_FORCED_REVALIDATIONS"
      using assms that(1) by (cases "forced_paths f p") (auto simp: forced_ok_def domIff card_insert_if)
    moreover have "g \<le> next_generation f + 1" if "g \<in> ran ((forced_paths f)(p \<mapsto> next_generation f + 1))" for g
    proof -
      have "g = next_generation f + 1 \<or> g \<in> ran (forced_paths f)" using that by (auto simp: ran_def split: if_splits)
      with assms show ?thesis by (auto simp: forced_ok_def)
    qed
    ultimately show "forced_ok ?f" "forced_ok (?f\<lparr>warned_high_water := True\<rparr>)"
      using assms that(2) by (auto simp: forced_ok_def)
  qed
  show ?thesis
    using assms new fail_closed_ok [OF assms] by (auto simp: mark_def Let_def)
qed

lemma acknowledge_ok:
  assumes "forced_ok f"
  shows "forced_ok (acknowledge p k f)"
proof -
  have "card (dom (forced_paths f) - {p}) \<le> card (dom (forced_paths f))" by (rule card_Diff1_le)
  with assms show ?thesis
    by (auto simp: acknowledge_def forced_ok_def ran_def split: revalidation_claim.split if_splits)
qed

text \<open>What a marked path needs: the process bypasses every artifact, or the path carries a generation newer
  than any claim handed out before it was marked.\<close>

definition newer :: "nat \<Rightarrow> string \<Rightarrow> forced_revalidations \<Rightarrow> bool" where
  "newer g p f \<longleftrightarrow> bypass_prerendered f \<or> (\<exists>g'. forced_paths f p = Some g' \<and> g < g')"

lemma mark_newer:
  assumes "forced_ok f"
  shows "newer (next_generation f) p (snd (mark p f))"
  using assms by (auto simp: newer_def mark_def fail_closed_def Let_def)

lemma mark_keeps_newer:
  assumes "forced_ok f" "newer g p f"
  shows "newer g p (snd (mark q f))"
proof (cases "q = p")
  case True
  have "bypass_prerendered f \<or> g < next_generation f"
    using assms by (force simp: newer_def forced_ok_def ran_def)
  with mark_newer [OF assms(1), of p] True assms(2) show ?thesis
    by (auto simp: newer_def mark_def)
next
  case False
  with assms(2) show ?thesis by (auto simp: newer_def mark_def fail_closed_def Let_def)
qed

datatype forced_op = MarkPath string | FailClosed | Acknowledge string revalidation_claim

fun forced_step :: "forced_revalidations \<Rightarrow> forced_op \<Rightarrow> forced_revalidations" where
  "forced_step f (MarkPath p) = snd (mark p f)"
| "forced_step f FailClosed = fail_closed f"
| "forced_step f (Acknowledge p k) = acknowledge p k f"

text \<open>An acknowledgement of \<open>p\<close> by a render that took its claim when no generation above \<open>g\<close> existed.\<close>

fun stale_ack :: "nat \<Rightarrow> string \<Rightarrow> forced_op \<Rightarrow> bool" where
  "stale_ack g p (Acknowledge q (Exact g')) = (q = p \<longrightarrow> g' \<le> g)"
| "stale_ack g p _ = True"

lemma forced_step_newer:
  assumes "forced_ok f" "newer g p f" "stale_ack g p op"
  shows "forced_ok (forced_step f op) \<and> newer g p (forced_step f op)"
proof (cases op)
  case (MarkPath q)
  with assms mark_ok mark_keeps_newer show ?thesis by simp
next
  case FailClosed
  with assms fail_closed_ok show ?thesis by (simp add: newer_def fail_closed_def)
next
  case (Acknowledge q k)
  have "newer g p (acknowledge q k f)"
    using assms(2,3) Acknowledge by (cases k) (auto simp: newer_def acknowledge_def)
  with Acknowledge acknowledge_ok [OF assms(1), of q k] show ?thesis by simp
qed

lemma forced_run_newer:
  "forced_ok f \<Longrightarrow> newer g p f \<Longrightarrow> list_all (stale_ack g p) ops \<Longrightarrow>
   forced_ok (foldl forced_step f ops) \<and> newer g p (foldl forced_step f ops)"
proof (induction ops arbitrary: f)
  case (Cons op ops)
  from forced_step_newer [OF Cons.prems(1,2), of op] Cons.prems(3) Cons.IH show ?case by simp
qed simp

lemma forced_run_ok: "forced_ok (foldl forced_step no_forced ops)"
proof (induction ops rule: rev_induct)
  case (snoc op ops)
  then show ?case by (cases op) (simp_all add: mark_ok fail_closed_ok acknowledge_ok)
qed (simp add: no_forced_ok)

text \<open>A revalidation is not lost to an older render. From a fresh state, after any run of operations a path
  is marked; whatever happens next, as long as the path is acknowledged only by renders that took their claim
  before the mark, the path still has a claim, so it is not served from its prerendered document. Overflow of
  the set of paths and of the generation counter are included: they bypass every document.\<close>

theorem revalidation_not_lost:
  assumes "f = foldl forced_step no_forced before"
    and "list_all (stale_ack (next_generation f) p) later"
  shows "claim (foldl forced_step (snd (mark p f)) later) p \<noteq> None"
proof -
  have ok: "forced_ok f" using assms(1) forced_run_ok by simp
  have "newer (next_generation f) p (foldl forced_step (snd (mark p f)) later)"
    using forced_run_newer [OF mark_ok [OF ok] mark_newer [OF ok] assms(2)] by blast
  then show ?thesis by (auto simp: newer_def claim_def)
qed

theorem revalidation_not_lost_witness:
  "claim (foldl forced_step (snd (mark ''/a'' (foldl forced_step no_forced [MarkPath ''/a'', MarkPath ''/b''])))
     [Acknowledge ''/a'' (Exact 1), Acknowledge ''/b'' (Exact 2)]) ''/a'' \<noteq> None"
proof (rule revalidation_not_lost [OF refl])
  have "next_generation (foldl forced_step no_forced [MarkPath ''/a'', MarkPath ''/b'']) = 2"
    by (simp add: mark_def no_forced_def MAX_FORCED_REVALIDATIONS_def FORCED_REVALIDATION_HIGH_WATER_def Let_def)
  then show "list_all (stale_ack (next_generation (foldl forced_step no_forced [MarkPath ''/a'', MarkPath ''/b''])) ''/a'')
     [Acknowledge ''/a'' (Exact 1), Acknowledge ''/b'' (Exact 2)]" by simp
qed

section \<open>Which renders a revalidation reaches\<close>

lemma take_until_query: "CHR ''?'' \<notin> set p \<Longrightarrow> takeWhile (\<lambda>c. c \<noteq> CHR ''?'') (p @ CHR ''?'' # s) = p"
  by (induction p) auto

lemma take_all_query: "CHR ''?'' \<notin> set p \<Longrightarrow> takeWhile (\<lambda>c. c \<noteq> CHR ''?'') p = p"
  by (induction p) auto

lemma page_key_request_path:
  assumes "CHR ''?'' \<notin> set p" "ns \<in> set ([] # RENDER_NAMESPACES)"
  shows "cache_key_request_path (page_cache_key ser ns p params) = Some p"
proof -
  have "without_namespace (ns @ ''ssr:'' @ t) = ''ssr:'' @ t" for t
    using assms(2) by (auto simp: without_namespace_def RENDER_NAMESPACES_def strip_prefix_def starts_with_def)
  then show ?thesis
    using assms(1) take_until_query [of p] take_all_query [of p]
    by (auto simp: page_cache_key_def cache_key_request_path_def strip_prefix_def starts_with_def)
qed

lemma client_key_request_path:
  assumes "CHR ''?'' \<notin> set p"
  shows "cache_key_request_path (client_cache_key ser p params) = Some p"
  using assms take_until_query [of p] take_all_query [of p]
  by (auto simp: client_cache_key_def cache_key_request_path_def without_namespace_def RENDER_NAMESPACES_def
      strip_prefix_def starts_with_def)

lemma retain_matching_drops:
  assumes "in_step c a"
  shows "\<exists>n c'. retain_matching p c = Some (n, c') \<and> (\<forall>k. p k \<longrightarrow> cache_entries c' k = None) \<and> cache_forced c' = cache_forced c"
  using retain_matching_step [OF assms, of p] by (auto simp: retain_matching_def Let_def restrict_map_def)

text \<open>The keys one URL is stored under.\<close>

definition keys_of_path :: "(route_params \<Rightarrow> string) \<Rightarrow> string \<Rightarrow> cache_key set" where
  "keys_of_path ser p =
     {page_cache_key ser ns p params | ns params. ns \<in> set ([] # RENDER_NAMESPACES)} \<union>
     {client_cache_key ser p params | params. True}"

lemma keys_of_path_match: "CHR ''?'' \<notin> set p \<Longrightarrow> k \<in> keys_of_path ser p \<Longrightarrow> cache_key_request_path k = Some p"
  by (auto simp: keys_of_path_def page_key_request_path client_key_request_path)

lemma mark_claims: "claim (snd (mark p f)) p \<noteq> None"
  by (auto simp: claim_def mark_def fail_closed_def Let_def)

lemma reachable_in_step:
  assumes "run_ops cache_step ops (new_cache cap ttl) = Some (rs, c)"
  shows "in_step c (snd (run_spec lru_spec ops ([], new_cache cap ttl)))"
  using lru_cache.run_simulates [OF in_step_new allowed_run_True, of ops cap ttl] assms by auto

text \<open>What a revalidated path needs, and that no later revalidation takes it away.\<close>

definition path_gone :: "(route_params \<Rightarrow> string) \<Rightarrow> string \<Rightarrow> render_cache \<Rightarrow> bool" where
  "path_gone ser p c \<longleftrightarrow> forced_claim c p \<noteq> None \<and> (\<forall>k\<in>keys_of_path ser p. cache_entries c k = None)"

lemma mark_keeps_claim: "claim f p \<noteq> None \<Longrightarrow> claim (snd (mark q f)) p \<noteq> None"
  by (auto simp: claim_def mark_def fail_closed_def Let_def)

lemma revalidate_path_step:
  assumes "in_step c a"
  shows "\<exists>n c'. revalidate_path p c = Some (n, c') \<and> (\<exists>a'. in_step c' a') \<and>
     (CHR ''?'' \<notin> set p \<longrightarrow> path_gone ser p c') \<and> (\<forall>q. path_gone ser q c \<longrightarrow> path_gone ser q c')"
proof -
  obtain c1 where c1: "retain_matching (cache_key_matches_path p) c = Some (fst (lru_discard (cache_key_matches_path p) a), c1)"
    "in_step c1 (snd (lru_discard (cache_key_matches_path p) a))"
    using retain_matching_step [OF assms] by blast
  have entries: "cache_entries c1 = cache_entries c |` {k. \<not> cache_key_matches_path p k}" "cache_forced c1 = cache_forced c"
    using c1(1) by (auto simp: retain_matching_def Let_def)
  have "revalidate_path p c = Some (fst (lru_discard (cache_key_matches_path p) a), mark_forced p c1)"
    using c1(1) by (simp add: revalidate_path_def)
  moreover have "in_step (mark_forced p c1) (fst (snd (lru_discard (cache_key_matches_path p) a)),
      mark_forced p (snd (snd (lru_discard (cache_key_matches_path p) a))))"
    using in_step_mark [OF c1(2)] .
  moreover have "path_gone ser p (mark_forced p c1)" if "CHR ''?'' \<notin> set p"
    using keys_of_path_match [OF that] mark_claims entries
    by (auto simp: path_gone_def forced_claim_def mark_forced_def cache_key_matches_path_def)
  moreover have "path_gone ser q (mark_forced p c1)" if "path_gone ser q c" for q
    using that mark_keeps_claim [of "cache_forced c" q p] entries
    by (auto simp: path_gone_def forced_claim_def mark_forced_def restrict_map_def)
  ultimately show ?thesis by blast
qed

lemma apply_each_gone:
  "in_step c a \<Longrightarrow> \<exists>c'. apply_each utf16_len ps c = Some c' \<and>
     (\<forall>p. CHR ''?'' \<notin> set p \<and> (path_gone ser p c \<or>
        p \<in> set ps \<and> starts_with p ''/'' \<and> utf16_len p \<le> MAX_REVALIDATED_PATH_LEN) \<longrightarrow> path_gone ser p c')"
proof (induction ps arbitrary: c a)
  case (Cons q ps)
  show ?case
  proof (cases "\<not> starts_with q ''/'' \<or> MAX_REVALIDATED_PATH_LEN < utf16_len q")
    case True
    with Cons.IH [OF Cons.prems] show ?thesis by auto
  next
    case False
    obtain n c1 a1 where c1: "revalidate_path q c = Some (n, c1)" "in_step c1 a1"
      "CHR ''?'' \<notin> set q \<longrightarrow> path_gone ser q c1" "\<forall>p. path_gone ser p c \<longrightarrow> path_gone ser p c1"
      using revalidate_path_step [OF Cons.prems, of q ser] by blast
    with False Cons.IH [OF c1(2)] show ?thesis by auto
  qed
qed simp



section \<open>Which renders an edit reaches\<close>

definition url_of :: "string list \<Rightarrow> string" where
  "url_of ss = (if ss = [] then ''/'' else concat (map ((#) (CHR ''/'')) ss))"

lemma parse_segment_Static: "parse_segment s = Static v \<Longrightarrow> v = s"
  by (auto simp: parse_segment_def split: if_splits)

lemma parse_segment_bracket:
  assumes "\<forall>v. parse_segment s \<noteq> Static v"
  shows "\<exists>t. s = CHR ''['' # t"
proof -
  have "is_optional_catch_all s \<or> is_catch_all s \<or> is_dynamic s"
    using assms by (auto simp: parse_segment_def split: if_splits)
  then show ?thesis
    by (auto simp: is_optional_catch_all_def is_catch_all_def is_dynamic_def starts_with_iff)
qed

lemma static_prefix_of_match:
  "matches (map parse_segment ss) parts \<Longrightarrow> length ss \<le> length parts \<Longrightarrow>
   \<exists>t. concat (map ((#) (CHR ''/'')) parts) =
     takeWhile (\<lambda>c. \<not> dynamic_mark c) (concat (map ((#) (CHR ''/'')) ss)) @ t"
proof (induction ss arbitrary: parts)
  case (Cons s ss)
  have slash: "\<not> dynamic_mark (CHR ''/'')" by (simp add: dynamic_mark_def)
  from Cons.prems(2) obtain q qs where parts: "parts = q # qs" by (cases parts) auto
  show ?case
  proof (cases "\<exists>v. parse_segment s = Static v")
    case True
    then have s: "parse_segment s = Static s" using parse_segment_Static by blast
    with Cons.prems parts have "q = s" "matches (map parse_segment ss) qs" "length ss \<le> length qs" by auto
    from Cons.IH [OF this(2,3)] obtain t where
      t: "concat (map ((#) (CHR ''/'')) qs) = takeWhile (\<lambda>c. \<not> dynamic_mark c) (concat (map ((#) (CHR ''/'')) ss)) @ t" ..
    show ?thesis
    proof (cases "list_ex dynamic_mark s")
      case True
      then obtain u where "s = takeWhile (\<lambda>c. \<not> dynamic_mark c) s @ u" by (metis takeWhile_dropWhile_id)
      with True slash parts \<open>q = s\<close> show ?thesis
        by (simp add: list_ex_iff takeWhile_append) (metis append_assoc)
    next
      case False
      with t slash parts \<open>q = s\<close> show ?thesis
        by (auto simp: list_ex_iff takeWhile_append)
    qed
  next
    case False
    then obtain t where "s = CHR ''['' # t" using parse_segment_bracket by blast
    with slash parts show ?thesis by (simp add: dynamic_mark_def)
  qed
qed simp

lemma static_match:
  "matches (map parse_segment ss) parts \<Longrightarrow> \<not> list_ex dynamic_mark (concat (map ((#) (CHR ''/'')) ss)) \<Longrightarrow> parts = ss"
proof (induction ss arbitrary: parts)
  case (Cons s ss)
  have "\<exists>v. parse_segment s = Static v"
  proof (rule ccontr)
    assume "\<nexists>v. parse_segment s = Static v"
    then obtain t where "s = CHR ''['' # t" using parse_segment_bracket by blast
    with Cons.prems(2) show False by (simp add: dynamic_mark_def)
  qed
  then have "parse_segment s = Static s" using parse_segment_Static by blast
  with Cons show ?case by (auto split: list.splits)
qed simp

text \<open>An optional catch-all also serves the URL of its parent folder; that URL alone is not covered.\<close>

lemma matched_key_of_route:
  assumes "matches (parse_pattern p) parts" "p = url_of (split_path p)" "length (split_path p) \<le> length parts"
    and "cache_key_request_path k = Some (url_of parts)"
  shows "cache_key_matches_route p k"
proof -
  let ?ss = "split_path p"
  have m: "matches (map parse_segment ?ss) parts" using assms(1) by (simp add: parse_pattern_def)
  show ?thesis
  proof (cases "?ss = []")
    case True
    then have "p = ''/''" "parts = []" using assms(2) m by (simp_all add: url_of_def)
    then show ?thesis using assms(4) by (simp add: cache_key_matches_route_def url_of_def dynamic_mark_def)
  next
    case False
    then have p: "p = concat (map ((#) (CHR ''/'')) ?ss)" and parts: "url_of parts = concat (map ((#) (CHR ''/'')) parts)"
      using assms(2,3) by (auto simp: url_of_def)
    show ?thesis
    proof (cases "list_ex dynamic_mark p")
      case True
      with static_prefix_of_match [OF m assms(3)] p parts assms(4) show ?thesis
        by (auto simp: cache_key_matches_route_def starts_with_iff)
    next
      case no_mark: False
      then have "parts = ?ss" using static_match [OF m] p by simp
      with no_mark assms(2,4) show ?thesis by (simp add: cache_key_matches_route_def)
    qed
  qed
qed

text \<open>Editing the files of a route drops what it rendered. In any state the cache can reach,
  \<open>invalidate_route\<close> on the route's pattern leaves no document or bundle of a URL the pattern matches, provided
  the URL has a segment for every segment of the pattern: for all patterns but an optional catch-all that is
  every URL they match.\<close>

theorem invalidate_route_covers:
  assumes "run_ops cache_step ops (new_cache cap ttl) = Some (rs, c)"
    and "matches (parse_pattern p) parts" "p = url_of (split_path p)" "length (split_path p) \<le> length parts"
    and "CHR ''?'' \<notin> set (url_of parts)"
  shows "\<exists>n c'. invalidate_route p c = Some (n, c') \<and> (\<forall>k\<in>keys_of_path ser (url_of parts). cache_entries c' k = None)"
proof -
  have "\<forall>k\<in>keys_of_path ser (url_of parts). cache_key_matches_route p k"
    using matched_key_of_route [OF assms(2,3,4)] keys_of_path_match [OF assms(5)] by blast
  with retain_matching_drops [OF reachable_in_step [OF assms(1)], of "cache_key_matches_route p"] show ?thesis
    by (auto simp: invalidate_route_def)
qed

theorem invalidate_route_covers_witness:
  "\<exists>n c'. invalidate_route ''/blog/[id]'' (new_cache 4 300) = Some (n, c') \<and>
     (\<forall>k\<in>keys_of_path (\<lambda>_. []) (url_of [''blog'', ''7'']). cache_entries c' k = None)"
proof (rule invalidate_route_covers)
  show "run_ops cache_step [] (new_cache 4 300) = Some ([], new_cache 4 300)" by simp
  show "matches (parse_pattern ''/blog/[id]'') [''blog'', ''7'']" by code_simp
  show "''/blog/[id]'' = url_of (split_path ''/blog/[id]'')" by code_simp
  show "length (split_path ''/blog/[id]'') \<le> length [''blog'', ''7'']" by code_simp
  show "CHR ''?'' \<notin> set (url_of [''blog'', ''7''])" by code_simp
qed

text \<open>The URL of an optional catch-all's folder keeps its old render. The pattern serves \<open>/docs\<close>, but the
  prefix taken from it ends with a slash the URL does not have: after the invalidation of the route, a request
  within the time to live still gets the old document.\<close>

theorem optional_base_survives_edit:
  "matches (parse_pattern ''/docs/[[...slug]]'') (split_path ''/docs'') \<and>
   (\<exists>c. run_ops cache_step
      [Put (page_cache_key ser [] ''/docs'' Map.empty) ''old'' 0,
       DiscardKeys (cache_key_matches_route ''/docs/[[...slug]]''),
       GetDocument (page_cache_key ser [] ''/docs'' Map.empty) 1 1] (new_cache 4 300) =
     Some ([Document (Some ''old''), Dropped 0, Document (Some ''old'')], c))"
proof
  show "matches (parse_pattern ''/docs/[[...slug]]'') (split_path ''/docs'')" by code_simp
  have key: "page_cache_key ser [] ''/docs'' Map.empty = ''ssr:/docs''" by (simp add: page_cache_key_def)
  have kept: "\<not> cache_key_matches_route ''/docs/[[...slug]]'' ''ssr:/docs''" by code_simp
  let ?ops = "[Put ''ssr:/docs'' ''old'' 0, DiscardKeys (cache_key_matches_route ''/docs/[[...slug]]''), GetDocument ''ssr:/docs'' 1 1]"
  have "fst (run_spec lru_spec ?ops ([], new_cache 4 300)) = [Document (Some ''old''), Dropped 0, Document (Some ''old'')]"
    using kept by (simp add: inserted_def lru_discard_def lru_fresh_def new_cache_def)
  then show "\<exists>c. run_ops cache_step
      [Put (page_cache_key ser [] ''/docs'' Map.empty) ''old'' 0,
       DiscardKeys (cache_key_matches_route ''/docs/[[...slug]]''),
       GetDocument (page_cache_key ser [] ''/docs'' Map.empty) 1 1] (new_cache 4 300) =
     Some ([Document (Some ''old''), Dropped 0, Document (Some ''old'')], c)"
    unfolding key using lru_cache.run_simulates [OF in_step_new allowed_run_True, of ?ops 4 300] by metis
qed

end
