(* ===== verification/Route_Rules.thy ===== *)
theory Route_Rules
  imports Action_Security Manifest Btree_Map "HOL-Library.List_Lexorder" "HOL-Library.Char_ord"
begin

text \<open>
  The rules of \<open>ruvyxa.config.ts\<close>, \<open>src/crates/ruvyxa_middleware/src/route_rules.rs\<close>: sources compiled to a
  regular expression, conditions, headers, redirects, rewrites, the proxy matcher, and the query codec.

  The regular-expression engine (\<open>fancy_regex\<close>) is a parameter: it says which pattern texts are valid, and
  what a text captures. The serde types are records. \<open>chars\<close> of the source are read as bytes: every character
  the code looks for is ASCII.

  The codec works on bytes. \<open>None\<close> of \<open>form_decode\<close> is the panic of a slice that ends inside a character.
\<close>

section \<open>Rules\<close>

datatype condition_kind = CHeader | CCookie | CQuery | CHost

record route_condition =
  cond_kind :: condition_kind
  cond_key :: "string option"
  cond_value :: "string option"

record header_entry =
  he_key :: string
  he_value :: string

record header_rule =
  hr_source :: string
  hr_headers :: "header_entry list"
  hr_has :: "route_condition list"
  hr_missing :: "route_condition list"

record redirect_rule =
  rr_source :: string
  rr_destination :: string
  rr_permanent :: "bool option"
  rr_status_code :: "nat option"
  rr_has :: "route_condition list"
  rr_missing :: "route_condition list"

record rewrite_rule =
  rw_source :: string
  rw_destination :: string
  rw_has :: "route_condition list"
  rw_missing :: "route_condition list"

record rewrite_phases =
  before_files :: "rewrite_rule list"
  after_files :: "rewrite_rule list"
  fallback :: "rewrite_rule list"

record matcher_entry =
  me_source :: string
  me_has :: "route_condition list"
  me_missing :: "route_condition list"

record proxy_config =
  pc_matcher :: "matcher_entry list option"
  pc_handler :: "bool option"

record rule_request =
  req_path :: string
  req_query :: "string option"
  req_headers :: "(string \<times> string) list"
  req_host :: "string option"

type_synonym rule_params = "(string, string) btree"

text \<open>\<open>BTreeMap::extend\<close>: later pairs replace earlier ones.\<close>

definition bt_extend :: "rule_params \<Rightarrow> (string \<times> string) list \<Rightarrow> rule_params" where
  "bt_extend params pairs = fold (\<lambda>(k, v) m. bt_insert k v m) pairs params"

text \<open>The engine: validity of a pattern, its groups on a match (the whole match is not among them), and the
  named groups of a pattern with their values.\<close>

record regex_engine =
  rx_valid :: "string \<Rightarrow> bool"
  rx_captures :: "string \<Rightarrow> string \<Rightarrow> string option list option"
  rx_named :: "string \<Rightarrow> string \<Rightarrow> (string \<times> string) list"

section \<open>Source patterns\<close>

datatype rule_error =
    SourceNeedsSlash string | EndsInEscape string | ParameterNeedsName string | GroupNotClosed string
  | GroupEmpty string | InvalidPattern string | InvalidCondition string | RedirectNeedsStatus string

record compiled_source =
  cs_source :: string
  cs_regex :: string
  cs_names :: "string list"

definition SEGMENT :: string where "SEGMENT = ''[^/]+''"

definition regex_special :: string where
  "regex_special = ''.*+?^${}()|[]'' @ [CHR 0x5C, CHR ''/'']"

definition escape_regex_char :: "char \<Rightarrow> string" where
  "escape_regex_char c = (if c \<in> set regex_special then [CHR 0x5C, c] else [c])"

definition escape_regex :: "string \<Rightarrow> string" where
  "escape_regex s = concat (map escape_regex_char s)"

text \<open>\<open>matching_paren\<close> on the text that starts at the opening parenthesis.\<close>

fun paren_loop :: "int \<Rightarrow> nat \<Rightarrow> string \<Rightarrow> nat option" where
  "paren_loop depth i [] = None"
| "paren_loop depth i (c # cs) =
     (if c = CHR 0x5C then (case cs of [] \<Rightarrow> None | _ # ds \<Rightarrow> paren_loop depth (i + 2) ds)
      else if c = CHR ''('' then paren_loop (depth + 1) (i + 1) cs
      else if c = CHR '')'' then (if depth - 1 = 0 then Some i else paren_loop (depth - 1) (i + 1) cs)
      else paren_loop depth (i + 1) cs)"

definition matching_paren :: "string \<Rightarrow> nat option" where
  "matching_paren cs = paren_loop 0 0 cs"

definition is_name_char :: "char \<Rightarrow> bool" where
  "is_name_char c \<longleftrightarrow> is_ascii_alphanumeric c \<or> c = CHR ''_''"

record source_state =
  ss_pattern :: string
  ss_names :: "string list"
  ss_unnamed :: nat

definition read_group :: "string \<Rightarrow> string \<Rightarrow> rule_error + string \<times> string" where
  "read_group source cs =
     (case cs of
        [] \<Rightarrow> Inr (SEGMENT, cs)
      | c # _ \<Rightarrow>
          (if c \<noteq> CHR ''('' then Inr (SEGMENT, cs)
           else case matching_paren cs of
                  None \<Rightarrow> Inl (GroupNotClosed source)
                | Some e \<Rightarrow>
                    (let capture = take (e - 1) (drop 1 cs) in
                     if capture = [] then Inl (GroupEmpty source) else Inr (capture, drop (e + 1) cs))))"

definition read_modifier :: "string \<Rightarrow> char option \<times> string" where
  "read_modifier cs =
     (case cs of [] \<Rightarrow> (None, []) | m # rest \<Rightarrow> if m \<in> {CHR ''*'', CHR ''+'', CHR ''?''} then (Some m, rest) else (None, cs))"

definition param_pattern :: "char option \<Rightarrow> string \<Rightarrow> string \<Rightarrow> string" where
  "param_pattern modifier before capture =
     (let repeated = ''(?:'' @ capture @ '')(?:/(?:'' @ capture @ ''))*'' in
      case modifier of
        None \<Rightarrow> before @ ''('' @ capture @ '')''
      | Some m \<Rightarrow>
          if m = CHR ''+'' then before @ ''('' @ repeated @ '')''
          else if m = CHR ''*'' then ''(?:'' @ before @ ''('' @ repeated @ ''))?''
          else if m = CHR ''?'' then ''(?:'' @ before @ ''('' @ capture @ ''))?''
          else before @ ''('' @ capture @ '')'')"

definition compile_param :: "string \<Rightarrow> source_state \<Rightarrow> char \<Rightarrow> string \<Rightarrow> rule_error + source_state \<times> string" where
  "compile_param source st c cs =
     (let owns = ends_with (ss_pattern st) [CHR 0x5C, CHR ''/''];
          pattern = (if owns then take (length (ss_pattern st) - 2) (ss_pattern st) else ss_pattern st);
          before = escape_regex (if owns then ''/'' else []);
          name = (if c = CHR '':'' then takeWhile is_name_char cs else []);
          rest = (if c = CHR '':'' then dropWhile is_name_char cs else c # cs) in
      if c = CHR '':'' \<and> name = [] then Inl (ParameterNeedsName source)
      else
        rbind (read_group source rest) (\<lambda>(capture, rest).
          let (modifier, rest) = read_modifier rest in
          Inr (\<lparr>ss_pattern = pattern @ param_pattern modifier before capture,
                ss_names = ss_names st @ [if name = [] then show_nat (ss_unnamed st) else name],
                ss_unnamed = (if name = [] then ss_unnamed st + 1 else ss_unnamed st)\<rparr>, rest)))"

lemma read_group_shorter: "read_group source cs = Inr (capture, rest) \<Longrightarrow> length rest \<le> length cs"
  by (auto simp: read_group_def Let_def split: list.splits if_splits option.splits)

lemma read_group_paren:
  "read_group source (CHR ''('' # cs) = Inr (capture, rest) \<Longrightarrow> length rest < Suc (length cs)"
  by (auto simp: read_group_def Let_def split: if_splits option.splits)

lemma read_modifier_shorter: "read_modifier cs = (m, rest) \<Longrightarrow> length rest \<le> length cs"
  by (auto simp: read_modifier_def split: list.splits if_splits)

lemma compile_param_shorter:
  assumes "compile_param source st c cs = Inr (st', rest)" "c = CHR '':'' \<or> c = CHR ''(''"
  shows "length rest < Suc (length cs)"
proof -
  define cs1 where "cs1 = (if c = CHR '':'' then dropWhile is_name_char cs else c # cs)"
  obtain capture rest1 m where g: "read_group source cs1 = Inr (capture, rest1)" "read_modifier rest1 = (m, rest)"
    using assms(1)
    by (auto simp: compile_param_def Let_def cs1_def [symmetric] result_simps split: if_splits prod.splits)
  have "length rest \<le> length rest1" using read_modifier_shorter [OF g(2)] .
  moreover have "length rest1 < Suc (length cs)"
  proof (cases "c = CHR '':''")
    case True
    then show ?thesis
      using read_group_shorter [OF g(1)] length_dropWhile_le [of is_name_char cs] by (simp add: cs1_def)
  next
    case False
    with assms(2) g(1) read_group_paren show ?thesis by (auto simp: cs1_def)
  qed
  ultimately show ?thesis by simp
qed

function source_loop :: "string \<Rightarrow> source_state \<Rightarrow> string \<Rightarrow> rule_error + source_state" where
  "source_loop source st [] = Inr st"
| "source_loop source st (c # cs) =
     (if c = CHR 0x5C then
        (case cs of
           [] \<Rightarrow> Inl (EndsInEscape source)
         | d # ds \<Rightarrow> source_loop source (st\<lparr>ss_pattern := ss_pattern st @ escape_regex_char d\<rparr>) ds)
      else if c = CHR '':'' \<or> c = CHR ''('' then
        (case compile_param source st c cs of
           Inl e \<Rightarrow> Inl e
         | Inr (st, rest) \<Rightarrow> source_loop source st rest)
      else source_loop source (st\<lparr>ss_pattern := ss_pattern st @ escape_regex_char c\<rparr>) cs)"
  by pat_completeness auto
termination
  by (relation "measure (\<lambda>(_, _, cs). length cs)") (auto dest: compile_param_shorter)

definition compile_source :: "regex_engine \<Rightarrow> string \<Rightarrow> rule_error + compiled_source" where
  "compile_source rx source =
     (if \<not> starts_with source ''/'' then Inl (SourceNeedsSlash source)
      else
        rbind (source_loop source \<lparr>ss_pattern = [], ss_names = [], ss_unnamed = 0\<rparr> source) (\<lambda>st.
          let regex = ''(?i)^'' @ ss_pattern st @ ''/?$'' in
          if rx_valid rx regex then Inr \<lparr>cs_source = source, cs_regex = regex, cs_names = ss_names st\<rparr>
          else Inl (InvalidPattern source)))"

fun bind_captures :: "rule_params \<Rightarrow> string list \<Rightarrow> string option list \<Rightarrow> rule_params" where
  "bind_captures params (name # names) (Some v # groups) = bind_captures (bt_insert name v params) names groups"
| "bind_captures params (name # names) (None # groups) = bind_captures params names groups"
| "bind_captures params _ _ = params"

definition source_matches :: "regex_engine \<Rightarrow> compiled_source \<Rightarrow> string \<Rightarrow> rule_params option" where
  "source_matches rx c p = map_option (bind_captures bt_empty (cs_names c)) (rx_captures rx (cs_regex c) p)"

section \<open>The query codec\<close>

text \<open>\<open>u8::from_str_radix(.., 16)\<close> on two bytes: a leading plus sign is accepted.\<close>

definition hex_pair :: "char \<Rightarrow> char \<Rightarrow> nat option" where
  "hex_pair a b =
     (if a = CHR ''+'' then map_option nat (to_digit 16 b)
      else case (to_digit 16 a, to_digit 16 b) of (Some x, Some y) \<Rightarrow> Some (nat (16 * x + y)) | _ \<Rightarrow> None)"

text \<open>The slice of two bytes after the percent sign ends at a character boundary or the code panics.\<close>

definition boundary_after :: "string \<Rightarrow> bool" where
  "boundary_after cs \<longleftrightarrow> (case cs of [] \<Rightarrow> True | c # _ \<Rightarrow> \<not> utf8_cont (byte c))"

fun decode_bytes :: "string \<Rightarrow> string option" where
  "decode_bytes [] = Some []"
| "decode_bytes (c # cs) =
     (if c = CHR ''+'' then map_option ((#) (CHR '' '')) (decode_bytes cs)
      else if c = CHR ''%'' then
        (case cs of
           a # b # rest \<Rightarrow>
             (if \<not> boundary_after rest then None
              else case hex_pair a b of
                     Some v \<Rightarrow> map_option ((#) (char_of v)) (decode_bytes rest)
                   | None \<Rightarrow> map_option ((#) c) (decode_bytes cs))
         | _ \<Rightarrow> map_option ((#) c) (decode_bytes cs))
      else map_option ((#) c) (decode_bytes cs))"

text \<open>\<open>String::from_utf8_lossy\<close>: every maximal ill-formed part becomes one replacement character.\<close>

definition utf8_need :: "nat \<Rightarrow> (nat \<times> nat \<times> nat) option" where
  "utf8_need b =
     (if 194 \<le> b \<and> b \<le> 223 then Some (128, 191, 1)
      else if b = 224 then Some (160, 191, 2)
      else if b = 237 then Some (128, 159, 2)
      else if 225 \<le> b \<and> b \<le> 239 then Some (128, 191, 2)
      else if b = 240 then Some (144, 191, 3)
      else if 241 \<le> b \<and> b \<le> 243 then Some (128, 191, 3)
      else if b = 244 then Some (128, 143, 3)
      else None)"

fun utf8_seq :: "nat \<Rightarrow> nat \<Rightarrow> nat \<Rightarrow> nat list \<Rightarrow> bool \<times> nat list \<times> nat list" where
  "utf8_seq lo hi 0 bs = (True, [], bs)"
| "utf8_seq lo hi (Suc n) [] = (False, [], [])"
| "utf8_seq lo hi (Suc n) (b # bs) =
     (if lo \<le> b \<and> b \<le> hi then (case utf8_seq 128 191 n bs of (ok, t, r) \<Rightarrow> (ok, b # t, r))
      else (False, [], b # bs))"

lemma utf8_seq_shorter: "utf8_seq lo hi n bs = (ok, t, r) \<Longrightarrow> length r \<le> length bs"
  by (induction lo hi n bs arbitrary: ok t r rule: utf8_seq.induct) (fastforce split: if_splits prod.splits)+

function lossy_bytes :: "nat list \<Rightarrow> nat list" where
  "lossy_bytes [] = []"
| "lossy_bytes (b # bs) =
     (if b < 128 then b # lossy_bytes bs
      else
        (case utf8_need b of
           None \<Rightarrow> [239, 191, 189] @ lossy_bytes bs
         | Some (lo, hi, n) \<Rightarrow>
             (case utf8_seq lo hi n bs of
                (ok, t, r) \<Rightarrow> (if ok then b # t else [239, 191, 189]) @ lossy_bytes r)))"
  by pat_completeness auto
termination
  by (relation "measure length") (auto dest!: utf8_seq_shorter [OF sym])

definition from_utf8_lossy :: "string \<Rightarrow> string" where
  "from_utf8_lossy s = map char_of (lossy_bytes (map byte s))"

definition form_decode :: "string \<Rightarrow> string option" where
  "form_decode s = map_option from_utf8_lossy (decode_bytes s)"

text \<open>\<open>{byte:02X}\<close>\<close>

definition hex_digit :: "nat \<Rightarrow> char" where
  "hex_digit d = (if d < 10 then char_of (48 + d) else char_of (55 + d))"

definition form_verbatim :: "char \<Rightarrow> bool" where
  "form_verbatim c \<longleftrightarrow> is_ascii_alphanumeric c \<or> c \<in> {CHR ''*'', CHR ''-'', CHR ''.'', CHR ''_''}"

definition encode_byte :: "char \<Rightarrow> string" where
  "encode_byte c =
     (if form_verbatim c then [c]
      else if c = CHR '' '' then ''+''
      else [CHR ''%'', hex_digit (byte c div 16), hex_digit (byte c mod 16)])"

definition form_encode :: "string \<Rightarrow> string" where
  "form_encode s = concat (map encode_byte s)"

fun decode_pairs :: "string list \<Rightarrow> (string \<times> string) list option" where
  "decode_pairs [] = Some []"
| "decode_pairs (pair # pairs) =
     (let (key, value) = (case split_once (CHR ''='') pair of Some kv \<Rightarrow> kv | None \<Rightarrow> (pair, [])) in
      case (form_decode key, form_decode value) of
        (Some k, Some v) \<Rightarrow> map_option ((#) (k, v)) (decode_pairs pairs)
      | _ \<Rightarrow> None)"

definition parse_query :: "string \<Rightarrow> (string \<times> string) list option" where
  "parse_query query = decode_pairs (filter (\<lambda>pair. pair \<noteq> []) (split_on (CHR ''&'') query))"

definition serialize_query :: "(string \<times> string) list \<Rightarrow> string" where
  "serialize_query pairs = join_with ''&'' (map (\<lambda>(k, v). form_encode k @ ''='' @ form_encode v) pairs)"

section \<open>Conditions\<close>

text \<open>From here on the outer option is the panic of the codec.\<close>

record compiled_condition =
  cc_kind :: condition_kind
  cc_key :: "string option"
  cc_value :: "string option"

definition compile_condition :: "regex_engine \<Rightarrow> route_condition \<Rightarrow> rule_error + compiled_condition" where
  "compile_condition rx c =
     (let value = map_option (\<lambda>v. ''^(?:'' @ v @ '')$'') (cond_value c) in
      case value of
        None \<Rightarrow> Inr \<lparr>cc_kind = cond_kind c, cc_key = cond_key c, cc_value = None\<rparr>
      | Some regex \<Rightarrow>
          if rx_valid rx regex then Inr \<lparr>cc_kind = cond_kind c, cc_key = cond_key c, cc_value = Some regex\<rparr>
          else Inl (InvalidCondition (the (cond_value c))))"

definition compile_conditions :: "regex_engine \<Rightarrow> route_condition list \<Rightarrow> rule_error + compiled_condition list" where
  "compile_conditions rx cs = collect_results (map (compile_condition rx) cs)"

definition header_value :: "rule_request \<Rightarrow> string \<Rightarrow> string option" where
  "header_value req name = map_option snd (List.find (\<lambda>(key, _). eq_ignore_ascii_case key name) (req_headers req))"

definition cookie_value :: "rule_request \<Rightarrow> string \<Rightarrow> string option" where
  "cookie_value req name =
     (case header_value req ''cookie'' of
        None \<Rightarrow> None
      | Some header \<Rightarrow>
          find_map (\<lambda>part.
            let part = trim part;
                (key, value) = (case split_once (CHR ''='') part of Some kv \<Rightarrow> kv | None \<Rightarrow> (part, [])) in
            if key = name then Some value else None) (split_on (CHR '';'') header))"

definition query_value :: "rule_request \<Rightarrow> string \<Rightarrow> string option option" where
  "query_value req name =
     (case req_query req of
        None \<Rightarrow> Some None
      | Some q \<Rightarrow> map_option (\<lambda>pairs. map_option snd (List.find (\<lambda>(key, _). key = name) pairs)) (parse_query q))"

definition condition_actual :: "compiled_condition \<Rightarrow> rule_request \<Rightarrow> string option option" where
  "condition_actual c req =
     (case cc_kind c of
        CHeader \<Rightarrow> Some (Option.bind (cc_key c) (header_value req))
      | CCookie \<Rightarrow> Some (Option.bind (cc_key c) (cookie_value req))
      | CQuery \<Rightarrow> (case cc_key c of None \<Rightarrow> Some None | Some key \<Rightarrow> query_value req key)
      | CHost \<Rightarrow> Some (req_host req))"

definition evaluate_condition :: "regex_engine \<Rightarrow> compiled_condition \<Rightarrow> rule_request \<Rightarrow> rule_params option option" where
  "evaluate_condition rx c req =
     (case condition_actual c req of
        None \<Rightarrow> None
      | Some None \<Rightarrow> Some None
      | Some (Some actual) \<Rightarrow>
          (case cc_value c of
             None \<Rightarrow> Some (Some bt_empty)
           | Some regex \<Rightarrow>
               Some (if rx_captures rx regex actual = None then None
                     else Some (bt_extend bt_empty (rx_named rx regex actual)))))"

fun all_hold :: "regex_engine \<Rightarrow> compiled_condition list \<Rightarrow> rule_request \<Rightarrow> rule_params \<Rightarrow> rule_params option option" where
  "all_hold rx [] req params = Some (Some params)"
| "all_hold rx (c # cs) req params =
     (case evaluate_condition rx c req of
        None \<Rightarrow> None
      | Some None \<Rightarrow> Some None
      | Some (Some found) \<Rightarrow> all_hold rx cs req (bt_extend params found))"

fun any_holds :: "regex_engine \<Rightarrow> compiled_condition list \<Rightarrow> rule_request \<Rightarrow> bool option" where
  "any_holds rx [] req = Some False"
| "any_holds rx (c # cs) req =
     (case evaluate_condition rx c req of
        None \<Rightarrow> None
      | Some (Some _) \<Rightarrow> Some True
      | Some None \<Rightarrow> any_holds rx cs req)"

definition evaluate_conditions ::
  "regex_engine \<Rightarrow> compiled_condition list \<Rightarrow> compiled_condition list \<Rightarrow> rule_request \<Rightarrow> rule_params option option" where
  "evaluate_conditions rx has missing req =
     (case all_hold rx has req bt_empty of
        None \<Rightarrow> None
      | Some None \<Rightarrow> Some None
      | Some (Some params) \<Rightarrow>
          map_option (\<lambda>absent_found. if absent_found then None else Some params) (any_holds rx missing req))"

text \<open>The source, the \<open>has\<close> and the \<open>missing\<close> conditions of any rule, compiled.\<close>

record compiled_rule =
  cr_source :: compiled_source
  cr_has :: "compiled_condition list"
  cr_missing :: "compiled_condition list"

definition compile_rule ::
  "regex_engine \<Rightarrow> string \<Rightarrow> route_condition list \<Rightarrow> route_condition list \<Rightarrow> rule_error + compiled_rule" where
  "compile_rule rx source has missing =
     rbind (compile_source rx source) (\<lambda>c.
     rbind (compile_conditions rx has) (\<lambda>h.
     rbind (compile_conditions rx missing) (\<lambda>m.
       Inr \<lparr>cr_source = c, cr_has = h, cr_missing = m\<rparr>)))"

definition match_rule :: "regex_engine \<Rightarrow> compiled_rule \<Rightarrow> rule_request \<Rightarrow> rule_params option option" where
  "match_rule rx rule req =
     (case source_matches rx (cr_source rule) (req_path req) of
        None \<Rightarrow> Some None
      | Some params \<Rightarrow>
          map_option (map_option (bt_extend params)) (evaluate_conditions rx (cr_has rule) (cr_missing rule) req))"

section \<open>Templates\<close>

function substitute :: "rule_params \<Rightarrow> string \<Rightarrow> string" where
  "substitute params [] = []"
| "substitute params (c # cs) =
     (let name = takeWhile is_name_char cs in
      if c = CHR '':'' \<and> name \<noteq> []
      then (case bt_get params name of Some v \<Rightarrow> v | None \<Rightarrow> []) @
        substitute params (snd (read_modifier (dropWhile is_name_char cs)))
      else c # substitute params cs)"
  by pat_completeness auto
termination
proof (relation "measure (\<lambda>(_, cs). length cs)")
  fix params c cs
  have "length (snd (read_modifier (dropWhile is_name_char cs))) \<le> length (dropWhile is_name_char cs)"
    by (cases "read_modifier (dropWhile is_name_char cs)") (simp add: read_modifier_shorter)
  then show "((params, snd (read_modifier (dropWhile is_name_char cs))), params, c # cs) \<in> measure (\<lambda>(_, cs). length cs)"
    using length_dropWhile_le [of is_name_char cs] by simp
qed simp_all

fun template_uses_params :: "string \<Rightarrow> bool" where
  "template_uses_params (a # b # cs) = (a = CHR '':'' \<and> is_name_char b \<or> template_uses_params (b # cs))"
| "template_uses_params _ = False"

definition split_destination :: "string \<Rightarrow> string \<times> string option" where
  "split_destination d = (case split_once (CHR ''?'') d of Some (base, q) \<Rightarrow> (base, Some q) | None \<Rightarrow> (d, None))"

section \<open>Header rules\<close>

type_synonym compiled_header_rule = "header_rule \<times> compiled_rule"

definition compile_header_rules :: "regex_engine \<Rightarrow> header_rule list \<Rightarrow> rule_error + compiled_header_rule list" where
  "compile_header_rules rx rules =
     collect_results (map (\<lambda>r. rbind (compile_rule rx (hr_source r) (hr_has r) (hr_missing r)) (\<lambda>c. Inr (r, c))) rules)"

definition lower :: "string \<Rightarrow> string" where
  "lower s = map to_ascii_lowercase s"

fun set_header :: "string \<Rightarrow> string \<Rightarrow> (string \<times> string \<times> string) list \<Rightarrow> (string \<times> string \<times> string) list" where
  "set_header key value [] = [(lower key, key, value)]"
| "set_header key value ((existing, pair) # result) =
     (if existing = lower key then (existing, key, value) # result else (existing, pair) # set_header key value result)"

definition set_headers ::
  "rule_params \<Rightarrow> header_entry list \<Rightarrow> (string \<times> string \<times> string) list \<Rightarrow> (string \<times> string \<times> string) list" where
  "set_headers params hs result =
     foldl (\<lambda>result h. set_header (substitute params (he_key h)) (substitute params (he_value h)) result) result hs"

fun header_loop ::
  "regex_engine \<Rightarrow> rule_request \<Rightarrow> compiled_header_rule list \<Rightarrow> (string \<times> string \<times> string) list \<Rightarrow>
   (string \<times> string \<times> string) list option" where
  "header_loop rx req [] result = Some result"
| "header_loop rx req ((rule, c) # rules) result =
     (case match_rule rx c req of
        None \<Rightarrow> None
      | Some None \<Rightarrow> header_loop rx req rules result
      | Some (Some params) \<Rightarrow> header_loop rx req rules (set_headers params (hr_headers rule) result))"

definition apply_header_rules :: "regex_engine \<Rightarrow> compiled_header_rule list \<Rightarrow> rule_request \<Rightarrow> (string \<times> string) list option" where
  "apply_header_rules rx rules req = map_option (map snd) (header_loop rx req rules [])"

section \<open>Redirects and rewrites\<close>

type_synonym compiled_redirect_rule = "redirect_rule \<times> compiled_rule"

definition compile_redirect_rules :: "regex_engine \<Rightarrow> redirect_rule list \<Rightarrow> rule_error + compiled_redirect_rule list" where
  "compile_redirect_rules rx rules =
     collect_results (map (\<lambda>r.
       if rr_status_code r = None \<and> rr_permanent r = None then Inl (RedirectNeedsStatus (rr_source r))
       else rbind (compile_rule rx (rr_source r) (rr_has r) (rr_missing r)) (\<lambda>c. Inr (r, c))) rules)"

record redirect_decision =
  rd_location :: string
  rd_status :: nat

definition redirect_to :: "redirect_rule \<Rightarrow> rule_params \<Rightarrow> rule_request \<Rightarrow> redirect_decision" where
  "redirect_to r params req =
     (let (base, destination_query) = split_destination (rr_destination r);
          location = substitute params base @
            (case destination_query of
               Some q \<Rightarrow> ''?'' @ substitute params q
             | None \<Rightarrow> (case req_query req of Some q \<Rightarrow> if q \<noteq> [] then ''?'' @ q else [] | None \<Rightarrow> []));
          status = (case rr_status_code r of Some s \<Rightarrow> s | None \<Rightarrow> if rr_permanent r = Some True then 308 else 307) in
      \<lparr>rd_location = location, rd_status = status\<rparr>)"

fun match_redirect :: "regex_engine \<Rightarrow> compiled_redirect_rule list \<Rightarrow> rule_request \<Rightarrow> redirect_decision option option" where
  "match_redirect rx [] req = Some None"
| "match_redirect rx ((r, c) # rules) req =
     (case match_rule rx c req of
        None \<Rightarrow> None
      | Some None \<Rightarrow> match_redirect rx rules req
      | Some (Some params) \<Rightarrow> Some (Some (redirect_to r params req)))"

type_synonym compiled_rewrite_rule = "rewrite_rule \<times> compiled_rule"

definition compile_rewrite_rules :: "regex_engine \<Rightarrow> rewrite_rule list \<Rightarrow> rule_error + compiled_rewrite_rule list" where
  "compile_rewrite_rules rx rules =
     collect_results (map (\<lambda>r. rbind (compile_rule rx (rw_source r) (rw_has r) (rw_missing r)) (\<lambda>c. Inr (r, c))) rules)"

definition parse_optional :: "string option \<Rightarrow> (string \<times> string) list option" where
  "parse_optional q = (case q of None \<Rightarrow> Some [] | Some q \<Rightarrow> parse_query q)"

definition rewrite_to :: "rewrite_rule \<Rightarrow> rule_params \<Rightarrow> rule_request \<Rightarrow> string option" where
  "rewrite_to r params req =
     (let (base_template, query_template) = split_destination (rw_destination r);
          base = substitute params base_template in
      case parse_optional (map_option (substitute params) query_template) of
        None \<Rightarrow> None
      | Some own \<Rightarrow>
          (case parse_optional (req_query req) of
             None \<Rightarrow> None
           | Some from_request \<Rightarrow>
               (let pairs = own @ (if template_uses_params (rw_destination r) then [] else params) @ from_request;
                    serialized = serialize_query pairs in
                Some (if serialized = [] then base else base @ ''?'' @ serialized))))"

fun match_rewrite :: "regex_engine \<Rightarrow> compiled_rewrite_rule list \<Rightarrow> rule_request \<Rightarrow> string option option" where
  "match_rewrite rx [] req = Some None"
| "match_rewrite rx ((r, c) # rules) req =
     (case match_rule rx c req of
        None \<Rightarrow> None
      | Some None \<Rightarrow> match_rewrite rx rules req
      | Some (Some params) \<Rightarrow> map_option Some (rewrite_to r params req))"

definition compile_matcher :: "regex_engine \<Rightarrow> matcher_entry list \<Rightarrow> rule_error + compiled_rule list" where
  "compile_matcher rx entries =
     collect_results (map (\<lambda>e. compile_rule rx (me_source e) (me_has e) (me_missing e)) entries)"

record route_rules =
  rules_headers :: "compiled_header_rule list"
  rules_redirects :: "compiled_redirect_rule list"
  rules_before_files :: "compiled_rewrite_rule list"
  rules_after_files :: "compiled_rewrite_rule list"
  rules_fallback :: "compiled_rewrite_rule list"

definition compile_rules ::
  "regex_engine \<Rightarrow> header_rule list \<Rightarrow> redirect_rule list \<Rightarrow> rewrite_phases \<Rightarrow> rule_error + route_rules" where
  "compile_rules rx headers redirects rewrites =
     rbind (compile_header_rules rx headers) (\<lambda>h.
     rbind (compile_redirect_rules rx redirects) (\<lambda>r.
     rbind (compile_rewrite_rules rx (before_files rewrites)) (\<lambda>b.
     rbind (compile_rewrite_rules rx (after_files rewrites)) (\<lambda>a.
     rbind (compile_rewrite_rules rx (fallback rewrites)) (\<lambda>f.
       Inr \<lparr>rules_headers = h, rules_redirects = r, rules_before_files = b, rules_after_files = a,
            rules_fallback = f\<rparr>)))))"

definition rules_empty :: "route_rules \<Rightarrow> bool" where
  "rules_empty r \<longleftrightarrow> rules_headers r = [] \<and> rules_redirects r = [] \<and> rules_before_files r = [] \<and>
     rules_after_files r = [] \<and> rules_fallback r = []"

definition compile_proxy :: "regex_engine \<Rightarrow> proxy_config \<Rightarrow> rule_error + compiled_rule list option" where
  "compile_proxy rx config =
     (case pc_matcher config of
        None \<Rightarrow> Inr None
      | Some entries \<Rightarrow> rbind (compile_matcher rx entries) (\<lambda>cs. Inr (Some cs)))"

fun matcher_matches :: "regex_engine \<Rightarrow> compiled_rule list \<Rightarrow> rule_request \<Rightarrow> bool option" where
  "matcher_matches rx [] req = Some False"
| "matcher_matches rx (c # cs) req =
     (case match_rule rx c req of
        None \<Rightarrow> None
      | Some None \<Rightarrow> matcher_matches rx cs req
      | Some (Some _) \<Rightarrow> Some True)"

definition proxy_wants :: "regex_engine \<Rightarrow> compiled_rule list option \<Rightarrow> rule_request \<Rightarrow> bool option" where
  "proxy_wants rx proxy req = (case proxy of None \<Rightarrow> Some True | Some cs \<Rightarrow> matcher_matches rx cs req)"

section \<open>The codec round trip\<close>

lemma char_of_byte [simp]: "char_of (byte c) = c"
  by (simp add: byte_def)

lemma byte_less: "byte c < 256"
  using mod_less_divisor [of 256 "of_char c :: nat"] by (simp add: byte_def)

lemma hex_digit_cases:
  assumes "d < 16"
  shows "to_digit 16 (hex_digit d) = Some (int d) \<and> hex_digit d \<noteq> CHR ''+'' \<and>
     hex_digit d \<notin> {CHR ''&'', CHR ''=''} \<and> \<not> utf8_cont (byte (hex_digit d))"
proof -
  have "d \<in> {0, 1, 2, 3, 4, 5, 6, 7, 8, 9, 10, 11, 12, 13, 14, 15}" using assms unfolding insert_iff empty_iff by arith
  then show ?thesis
    by (elim insertE emptyE) (hypsubst, code_simp)+
qed

lemma hex_pair_digits:
  assumes "x < 16" "y < 16"
  shows "hex_pair (hex_digit x) (hex_digit y) = Some (16 * x + y)"
  using hex_digit_cases [OF assms(1)] hex_digit_cases [OF assms(2)] by (simp add: hex_pair_def nat_add_distrib nat_mult_distrib)

lemma encode_byte_head:
  "boundary_after (encode_byte c @ t)"
  by (auto simp: boundary_after_def encode_byte_def form_verbatim_def utf8_cont_def ascii_defs split: if_splits)

lemma boundary_after_encode: "boundary_after t \<Longrightarrow> boundary_after (form_encode s @ t)"
  using encode_byte_head by (cases s) (auto simp: form_encode_def)

lemma decode_encode_byte:
  assumes "boundary_after t"
  shows "decode_bytes (encode_byte c @ t) = map_option ((#) c) (decode_bytes t)"
proof -
  have parts: "byte c div 16 < 16" "byte c mod 16 < 16" "16 * (byte c div 16) + byte c mod 16 = byte c"
    using byte_less [of c] by auto
  then have "hex_pair (hex_digit (byte c div 16)) (hex_digit (byte c mod 16)) = Some (byte c)"
    using hex_pair_digits [OF parts(1,2)] by simp
  moreover have "form_verbatim c \<Longrightarrow> c \<noteq> CHR ''+'' \<and> c \<noteq> CHR ''%''"
    by (auto simp: form_verbatim_def ascii_defs)
  ultimately show ?thesis using assms by (auto simp: encode_byte_def)
qed

lemma decode_encode: "boundary_after t \<Longrightarrow> decode_bytes (form_encode s @ t) = map_option ((@) s) (decode_bytes t)"
proof (induction s)
  case Nil
  then show ?case by (cases "decode_bytes t") (simp_all add: form_encode_def)
next
  case (Cons c s)
  have "form_encode (c # s) @ t = encode_byte c @ form_encode s @ t" by (simp add: form_encode_def)
  with Cons decode_encode_byte [OF boundary_after_encode [OF Cons.prems, of s], of c] show ?case
    by (cases "decode_bytes t") simp_all
qed

lemma utf8_seq_tail:
  "utf8_tail lo hi (Suc n) bs = Some r \<Longrightarrow> \<exists>t. utf8_seq lo hi (Suc n) bs = (True, t, r) \<and> bs = t @ r"
proof (induction n arbitrary: lo hi bs)
  case 0
  then show ?case by (cases bs) (auto split: if_splits)
next
  case (Suc n)
  then obtain b bs' where b: "bs = b # bs'" "lo \<le> b" "b \<le> hi" "utf8_tail 128 191 (Suc n) bs' = Some r"
    by (cases bs) (auto split: if_splits)
  from Suc.IH [OF b(4)] b(1-3) show ?case by auto
qed

lemma lossy_valid: "utf8_valid bs \<Longrightarrow> lossy_bytes bs = bs"
proof (induction bs rule: utf8_valid.induct)
  case (2 b bs)
  show ?case
  proof (cases "b < 128")
    case True
    with 2 show ?thesis by simp
  next
    case False
    then obtain lo hi n r where need: "utf8_need b = Some (lo, hi, Suc n)" "utf8_tail lo hi (Suc n) bs = Some r" "utf8_valid r"
      using "2.prems"
      by (auto simp: utf8_need_def numeral_2_eq_2 numeral_3_eq_3 split: if_splits option.splits)
    obtain t where t: "utf8_seq lo hi (Suc n) bs = (True, t, r)" "bs = t @ r"
      using utf8_seq_tail [OF need(2)] by blast
    have "lossy_bytes r = r"
      using "2.IH"(2) [OF False] need False
      by (auto simp: utf8_need_def numeral_2_eq_2 numeral_3_eq_3 split: if_splits)
    with False need(1) t show ?thesis by simp
  qed
qed simp

definition utf8_string :: "string \<Rightarrow> bool" where
  "utf8_string s \<longleftrightarrow> utf8_valid (map byte s)"

lemma form_round_trip: "utf8_string s \<Longrightarrow> form_decode (form_encode s) = Some s"
  using decode_encode [of "[]" s] lossy_valid [of "map byte s"]
  by (simp add: form_decode_def from_utf8_lossy_def utf8_string_def boundary_after_def comp_def)

lemma encode_byte_plain: "CHR ''&'' \<notin> set (encode_byte c) \<and> CHR ''='' \<notin> set (encode_byte c)"
proof -
  have "byte c div 16 < 16" "byte c mod 16 < 16" using byte_less [of c] by auto
  from hex_digit_cases [OF this(1)] hex_digit_cases [OF this(2)] show ?thesis
    by (auto simp: encode_byte_def form_verbatim_def ascii_defs)
qed

lemma form_encode_plain: "CHR ''&'' \<notin> set (form_encode s) \<and> CHR ''='' \<notin> set (form_encode s)"
  using encode_byte_plain by (induction s) (auto simp: form_encode_def)

lemma decode_encoded_pairs:
  "(\<forall>(k, v)\<in>set pairs. utf8_string k \<and> utf8_string v) \<Longrightarrow>
   decode_pairs (map (\<lambda>(k, v). form_encode k @ ''='' @ form_encode v) pairs) = Some pairs"
proof (induction pairs)
  case (Cons p pairs)
  obtain k v where p: "p = (k, v)" by (cases p)
  have "split_once (CHR ''='') (form_encode k @ CHR ''='' # form_encode v) = Some (form_encode k, form_encode v)"
    using form_encode_plain by (intro split_once_first) blast
  with Cons p show ?case by (simp add: form_round_trip)
qed simp

text \<open>The query codec round-trips. Parsing what \<open>serialize_query\<close> wrote returns the pairs, in order, with
  repeated and empty keys and values intact, for any texts: the query a rewrite builds from its template, its
  parameters and the request carries each of them to the target unchanged.\<close>

theorem query_round_trip:
  assumes "\<forall>(k, v)\<in>set pairs. utf8_string k \<and> utf8_string v"
  shows "parse_query (serialize_query pairs) = Some pairs"
proof -
  let ?f = "\<lambda>(k, v). form_encode k @ ''='' @ form_encode v"
  have plain: "\<forall>w\<in>set (map ?f pairs). CHR ''&'' \<notin> set w \<and> w \<noteq> []" using form_encode_plain by auto
  have "filter (\<lambda>pair. pair \<noteq> []) (split_on (CHR ''&'') (serialize_query pairs)) = map ?f pairs"
  proof (cases "pairs = []")
    case False
    then have "split_on (CHR ''&'') (serialize_query pairs) = map ?f pairs"
      using plain unfolding serialize_query_def by (intro split_on_join) auto
    with plain show ?thesis by simp
  qed (simp add: serialize_query_def)
  with decode_encoded_pairs [OF assms] show ?thesis by (simp add: parse_query_def)
qed

theorem query_round_trip_witness:
  "parse_query (serialize_query [(''q'', ''a b&c=d%''), ([], []), (''q'', [CHR 0xC3, CHR 0xA9])]) =
     Some [(''q'', ''a b&c=d%''), ([], []), (''q'', [CHR 0xC3, CHR 0xA9])]"
proof (rule query_round_trip)
  have "list_all (\<lambda>(k, v). utf8_string k \<and> utf8_string v) [(''q'', ''a b&c=d%''), ([], []), (''q'', [CHR 0xC3, CHR 0xA9])]"
    by code_simp
  then show "\<forall>(k, v)\<in>set [(''q'', ''a b&c=d%''), ([], []), (''q'', [CHR 0xC3, CHR 0xA9])]. utf8_string k \<and> utf8_string v"
    unfolding list_all_iff .
qed

lemma rewrite_query_panics: "parse_optional (req_query req) = None \<Longrightarrow> rewrite_to r params req = None"
  by (auto simp: rewrite_to_def Let_def split: option.split prod.split)

text \<open>Two malformed escapes. A percent sign, one ASCII byte and a multi-byte character make \<open>form_decode\<close> slice
  inside that character: with such a query every rewrite that matches panics, although the query is valid
  UTF-8. And a plus sign after the percent sign is read as the sign of the number, so three characters that
  are no escape decode to one byte.\<close>

theorem malformed_escapes:
  "utf8_string (''%a'' @ [CHR 0xC3, CHR 0xA9]) \<and>
   rewrite_to r params \<lparr>req_path = p, req_query = Some (''%a'' @ [CHR 0xC3, CHR 0xA9]), req_headers = hs, req_host = h\<rparr> = None \<and>
   form_decode ''%+5'' = Some [CHR 0x05]"
proof (intro conjI)
  show "utf8_string (''%a'' @ [CHR 0xC3, CHR 0xA9])" by code_simp
  show "form_decode ''%+5'' = Some [CHR 0x05]" by code_simp
  have "parse_query (''%a'' @ [CHR 0xC3, CHR 0xA9]) = None" by code_simp
  then show "rewrite_to r params \<lparr>req_path = p, req_query = Some (''%a'' @ [CHR 0xC3, CHR 0xA9]), req_headers = hs, req_host = h\<rparr> = None"
    by (intro rewrite_query_panics) (simp add: parse_optional_def)
qed

section \<open>Which header wins\<close>

text \<open>Everything the matching rules set, in order.\<close>

fun header_settings :: "regex_engine \<Rightarrow> rule_request \<Rightarrow> compiled_header_rule list \<Rightarrow> (string \<times> string) list option" where
  "header_settings rx req [] = Some []"
| "header_settings rx req ((rule, c) # rules) =
     (case match_rule rx c req of
        None \<Rightarrow> None
      | Some None \<Rightarrow> header_settings rx req rules
      | Some (Some params) \<Rightarrow>
          map_option ((@) (map (\<lambda>h. (substitute params (he_key h), substitute params (he_value h))) (hr_headers rule)))
            (header_settings rx req rules))"

definition by_lower :: "(string \<times> string) list \<Rightarrow> (string \<times> string \<times> string) list" where
  "by_lower hs = map (\<lambda>(k, v). (lower k, k, v)) hs"

definition keyed :: "(string \<times> string \<times> string) list \<Rightarrow> bool" where
  "keyed result \<longleftrightarrow> distinct (map fst result) \<and> (\<forall>(l, k, v)\<in>set result. l = lower k)"

lemma set_header_keys: "fst ` set (set_header k v result) = insert (lower k) (fst ` set result)"
  by (induction k v result rule: set_header.induct) auto

lemma set_header_map: "map_of (set_header k v result) = (map_of result)(lower k \<mapsto> (k, v))"
  by (induction k v result rule: set_header.induct) (auto simp: fun_eq_iff)

lemma set_header_keyed: "keyed result \<Longrightarrow> keyed (set_header k v result)"
  by (induction k v result rule: set_header.induct) (auto simp: keyed_def set_header_keys, force)

lemma set_headers_effect:
  "keyed result \<Longrightarrow> keyed (set_headers params hs result) \<and>
   map_of (set_headers params hs result) =
     map_of result ++ map_of (rev (by_lower (map (\<lambda>h. (substitute params (he_key h), substitute params (he_value h))) hs)))"
  unfolding set_headers_def
proof (induction hs arbitrary: result)
  case (Cons h hs)
  from Cons.IH [OF set_header_keyed [OF Cons.prems]] show ?case
    by (auto simp: by_lower_def set_header_map map_add_def fun_eq_iff split: option.split)
qed (simp add: by_lower_def)

lemma header_loop_effect:
  "keyed result \<Longrightarrow>
   case header_settings rx req rules of
     None \<Rightarrow> header_loop rx req rules result = None
   | Some ss \<Rightarrow> \<exists>final. header_loop rx req rules result = Some final \<and> keyed final \<and>
       map_of final = map_of result ++ map_of (rev (by_lower ss))"
proof (induction rules arbitrary: result)
  case (Cons rule rules)
  obtain r c where rule: "rule = (r, c)" by (cases rule)
  show ?case
  proof (cases "match_rule rx c req")
    case None
    then show ?thesis by (simp add: rule)
  next
    case (Some found)
    show ?thesis
    proof (cases found)
      case None
      with Some Cons.IH [OF Cons.prems] show ?thesis
        by (cases "header_settings rx req rules") (auto simp: rule)
    next
      case (Some params)
      let ?set = "map (\<lambda>h. (substitute params (he_key h), substitute params (he_value h))) (hr_headers r)"
      note eff = set_headers_effect [OF Cons.prems, of params "hr_headers r"]
      have m: "match_rule rx c req = Some (Some params)" using \<open>match_rule rx c req = Some found\<close> Some by simp
      show ?thesis
      proof (cases "header_settings rx req rules")
        case None
        with m eff Cons.IH [of "set_headers params (hr_headers r) result"] show ?thesis by (simp add: rule)
      next
        case (Some ss)
        obtain final where "header_loop rx req rules (set_headers params (hr_headers r) result) = Some final" "keyed final"
          "map_of final = map_of (set_headers params (hr_headers r) result) ++ map_of (rev (by_lower ss))"
          using Cons.IH [of "set_headers params (hr_headers r) result"] eff Some by auto
        moreover have "map_of (rev (by_lower (?set @ ss))) = map_of (rev (by_lower ?set)) ++ map_of (rev (by_lower ss))"
          by (simp add: by_lower_def)
        ultimately show ?thesis using m eff Some by (simp add: rule map_add_assoc)
      qed
    qed
  qed
qed (simp add: by_lower_def)

text \<open>The last setting of a header wins. The response headers are each set once, names compared without case,
  and each carries the name and value of the last of all settings the matching rules make for it; no setting
  is lost. If evaluating the rules does not panic, the answer is defined.\<close>

theorem header_rules_last_wins:
  assumes "header_settings rx req rules = Some ss"
  shows "\<exists>hs. apply_header_rules rx rules req = Some hs \<and> distinct (map (lower \<circ> fst) hs) \<and>
     map_of (by_lower hs) = map_of (rev (by_lower ss))"
proof -
  obtain final where final: "header_loop rx req rules [] = Some final" "keyed final" "map_of final = map_of (rev (by_lower ss))"
    using header_loop_effect [of "[]" rx req rules] assms by (auto simp: keyed_def)
  have same: "by_lower (map snd final) = final" using final(2) by (auto simp: by_lower_def keyed_def intro!: map_idI)
  have "map (lower \<circ> fst) (map snd final) = map fst final" using final(2) by (auto simp: keyed_def)
  then have "distinct (map (lower \<circ> fst) (map snd final))" using final(2) unfolding keyed_def by metis
  with final(1,3) same show ?thesis by (simp add: apply_header_rules_def)
qed

definition demo_header_rules :: "compiled_header_rule list" where
  "demo_header_rules =
     (let c = \<lparr>cr_source = \<lparr>cs_source = ''/:p'', cs_regex = ''any'', cs_names = [''p'']\<rparr>, cr_has = [], cr_missing = []\<rparr> in
      [(\<lparr>hr_source = ''/:p'', hr_headers = [\<lparr>he_key = ''X-A'', he_value = ''one''\<rparr>], hr_has = [], hr_missing = []\<rparr>, c),
       (\<lparr>hr_source = ''/:p'', hr_headers = [\<lparr>he_key = ''x-a'', he_value = '':p!''\<rparr>], hr_has = [], hr_missing = []\<rparr>, c)])"

definition demo_engine :: regex_engine where
  "demo_engine = \<lparr>rx_valid = (\<lambda>_. True), rx_captures = (\<lambda>_ s. Some [Some (drop 1 s)]), rx_named = (\<lambda>_ _. [])\<rparr>"

definition demo_request :: rule_request where
  "demo_request = \<lparr>req_path = ''/two'', req_query = None, req_headers = [], req_host = None\<rparr>"

theorem header_rules_last_wins_witness:
  "\<exists>hs. apply_header_rules demo_engine demo_header_rules demo_request = Some hs \<and> distinct (map (lower \<circ> fst) hs) \<and>
     map_of (by_lower hs) = map_of (rev (by_lower [(''X-A'', ''one''), (''x-a'', ''two!'')]))"
  by (rule header_rules_last_wins) code_simp

end
