(* ===== verification/Artifact_Graph.thy ===== *)
theory Artifact_Graph
  imports Btree_Map Worklist "HOL-Library.Product_Lexorder"
begin

text \<open>
  The artifact task graph of the bundler, \<open>src/crates/ruvyxa_bundler/src/task_graph.rs\<close>: records of build
  artifacts with their states and generations, the reverse edges, invalidation, eviction, retention and the
  tokens that complete a computation.

  Each method holds the graph's lock once; \<open>publish\<close> holds it up to three times. The model has a function per
  locked section, so a sequence of sections is an interleaving of builds. The \<open>u64\<close> counters are integers that
  saturate at their largest value. The content hash of the key (\<open>blake3\<close>), the JSON encoding and the file are
  not modelled; a manifest is the value that is written and read.
\<close>

section \<open>Keys\<close>

datatype artifact_kind = Source | Resolve | Transform | Analyze | ChunkPlan | Emit | SourceMap | Manifest_Artifact

fun kind_index :: "artifact_kind \<Rightarrow> nat" where
  "kind_index Source = 0"
| "kind_index Resolve = 1"
| "kind_index Transform = 2"
| "kind_index Analyze = 3"
| "kind_index ChunkPlan = 4"
| "kind_index Emit = 5"
| "kind_index SourceMap = 6"
| "kind_index Manifest_Artifact = 7"

lemma kind_index_inj: "kind_index a = kind_index b \<Longrightarrow> a = b"
  by (cases a; cases b) simp_all

datatype artifact_key = ArtifactKey (key_kind: artifact_kind) (key_namespace: string) (key_identity: string)

definition key_tuple :: "artifact_key \<Rightarrow> nat \<times> string \<times> string" where
  "key_tuple k = (kind_index (key_kind k), key_namespace k, key_identity k)"

lemma key_tuple_inj: "key_tuple a = key_tuple b \<Longrightarrow> a = b"
  by (cases a; cases b) (auto simp: key_tuple_def dest: kind_index_inj)

text \<open>The derived order: by kind, namespace and identity.\<close>

instantiation artifact_key :: linorder
begin

definition less_eq_artifact_key :: "artifact_key \<Rightarrow> artifact_key \<Rightarrow> bool" where
  "less_eq_artifact_key a b \<longleftrightarrow> key_tuple a \<le> key_tuple b"

definition less_artifact_key :: "artifact_key \<Rightarrow> artifact_key \<Rightarrow> bool" where
  "less_artifact_key a b \<longleftrightarrow> key_tuple a < key_tuple b"

instance
proof
  fix a b c :: artifact_key
  show "a < b \<longleftrightarrow> a \<le> b \<and> \<not> b \<le> a" unfolding less_eq_artifact_key_def less_artifact_key_def by auto
  show "a \<le> a" by (simp add: less_eq_artifact_key_def)
  show "a \<le> b \<Longrightarrow> b \<le> c \<Longrightarrow> a \<le> c" unfolding less_eq_artifact_key_def by (rule order_trans)
  show "a \<le> b \<Longrightarrow> b \<le> a \<Longrightarrow> a = b" unfolding less_eq_artifact_key_def by (intro key_tuple_inj antisym)
  show "a \<le> b \<or> b \<le> a" unfolding less_eq_artifact_key_def by auto
qed

end

section \<open>Records\<close>

record artifact_dependency =
  dep_key :: artifact_key
  dep_hash :: "string option"

datatype artifact_state = Building | Ready | Failed | Cancelled

record artifact_record =
  rec_key :: artifact_key
  rec_state :: artifact_state
  rec_dependencies :: "artifact_dependency set"
  rec_content_hash :: "string option"
  rec_reason :: "string option"
  rec_generation :: int
  rec_last_touched :: int
  rec_builders :: nat

datatype artifact_error =
    NamespaceMismatch string string | DependencyMismatch string | StaleCompletion string | NonDeterministicOutput string

record graph_inner =
  g_records :: "(artifact_key, artifact_record) btree"
  g_dependents :: "(artifact_key, artifact_key set) btree"
  g_epoch :: int
  g_hits :: int
  g_misses :: int
  g_invalidations :: int
  g_evictions :: int

record artifact_manifest =
  man_identity :: string
  man_namespace :: string
  man_epoch :: int
  man_records :: "artifact_record list"

record task_graph =
  tg_namespace :: string
  tg_enabled :: bool

record artifact_task =
  task_key :: artifact_key
  task_generation :: int
  task_finished :: bool

definition U64_MAX :: int where "U64_MAX = 2 ^ 64 - 1"

definition sat_add :: "int \<Rightarrow> int \<Rightarrow> int" where
  "sat_add a b = min (a + b) U64_MAX"

definition empty_inner :: graph_inner where
  "empty_inner = \<lparr>g_records = [], g_dependents = [], g_epoch = 0, g_hits = 0, g_misses = 0, g_invalidations = 0, g_evictions = 0\<rparr>"

text \<open>\<open>get_mut(key)\<close> and an assignment through it.\<close>

definition update_record :: "artifact_key \<Rightarrow> (artifact_record \<Rightarrow> artifact_record) \<Rightarrow> graph_inner \<Rightarrow> graph_inner" where
  "update_record k f g =
     (case bt_get (g_records g) k of None \<Rightarrow> g | Some r \<Rightarrow> g\<lparr>g_records := bt_insert k (f r) (g_records g)\<rparr>)"

definition dependents_of :: "graph_inner \<Rightarrow> artifact_key \<Rightarrow> artifact_key set" where
  "dependents_of g k = (case bt_get (g_dependents g) k of None \<Rightarrow> {} | Some ks \<Rightarrow> ks)"

text \<open>The keys of a set of dependencies, in order: a second dependency on one key changes nothing below.\<close>

definition dep_keys :: "artifact_dependency set \<Rightarrow> artifact_key list" where
  "dep_keys deps = sorted_list_of_set (dep_key ` deps)"

definition add_edge :: "artifact_key \<Rightarrow> artifact_key \<Rightarrow> graph_inner \<Rightarrow> graph_inner" where
  "add_edge k d g = g\<lparr>g_dependents := bt_insert d (insert k (dependents_of g d)) (g_dependents g)\<rparr>"

definition drop_edge :: "artifact_key \<Rightarrow> artifact_key \<Rightarrow> graph_inner \<Rightarrow> graph_inner" where
  "drop_edge k d g =
     (case bt_get (g_dependents g) d of
        None \<Rightarrow> g
      | Some ks \<Rightarrow>
          if ks - {k} = {} then g\<lparr>g_dependents := bt_remove d (g_dependents g)\<rparr>
          else g\<lparr>g_dependents := bt_insert d (ks - {k}) (g_dependents g)\<rparr>)"

definition replace_dependency_edges :: "artifact_key \<Rightarrow> artifact_dependency set \<Rightarrow> graph_inner \<Rightarrow> graph_inner" where
  "replace_dependency_edges k deps g =
     (let previous = (case bt_get (g_records g) k of None \<Rightarrow> {} | Some r \<Rightarrow> rec_dependencies r) in
      fold (add_edge k) (dep_keys deps) (fold (drop_edge k) (dep_keys previous) g))"

definition rebuild_dependents :: "graph_inner \<Rightarrow> graph_inner" where
  "rebuild_dependents g =
     fold (\<lambda>(k, r). fold (add_edge k) (dep_keys (rec_dependencies r))) (g_records g) (g\<lparr>g_dependents := []\<rparr>)"

definition is_evictable :: "artifact_record \<Rightarrow> graph_inner \<Rightarrow> artifact_key \<Rightarrow> bool" where
  "is_evictable r g k \<longleftrightarrow> rec_state r \<noteq> Building \<and> rec_builders r = 0 \<and> dependents_of g k = {}"

fun eviction_priority :: "artifact_state \<Rightarrow> nat" where
  "eviction_priority Failed = 0"
| "eviction_priority Cancelled = 0"
| "eviction_priority Ready = 1"
| "eviction_priority Building = 2"

definition opt_len :: "string option \<Rightarrow> int" where
  "opt_len s = (case s of None \<Rightarrow> 0 | Some t \<Rightarrow> int (length t))"

definition artifact_record_bytes :: "artifact_record \<Rightarrow> int" where
  "artifact_record_bytes r =
     int (length (key_namespace (rec_key r))) + int (length (key_identity (rec_key r))) +
     opt_len (rec_content_hash r) + opt_len (rec_reason r) +
     (\<Sum>d\<in>rec_dependencies r. int (length (key_namespace (dep_key d))) + int (length (key_identity (dep_key d))) + opt_len (dep_hash d))"

section \<open>Closures\<close>

text \<open>The loops of \<open>protected_artifacts\<close> and \<open>save\<close>: a key is marked when it is queued.\<close>

fun mark_new :: "artifact_key list \<Rightarrow> artifact_key list \<times> artifact_key set \<Rightarrow> artifact_key list \<times> artifact_key set" where
  "mark_new [] acc = acc"
| "mark_new (d # ds) (queue, marked) =
     (if d \<in> marked then mark_new ds (queue, marked) else mark_new ds (queue @ [d], insert d marked))"

partial_function (option) mark_loop ::
  "(artifact_key \<Rightarrow> artifact_key list) \<Rightarrow> artifact_key list \<Rightarrow> artifact_key set \<Rightarrow> artifact_key set option" where
  [code]: "mark_loop deps queue marked =
     (case queue of
        [] \<Rightarrow> Some marked
      | k # rest \<Rightarrow> (case mark_new (deps k) (rest, marked) of (queue, marked) \<Rightarrow> mark_loop deps queue marked))"

definition record_deps :: "graph_inner \<Rightarrow> artifact_key \<Rightarrow> artifact_key list" where
  "record_deps g k = (case bt_get (g_records g) k of None \<Rightarrow> [] | Some r \<Rightarrow> dep_keys (rec_dependencies r))"

definition present_deps :: "graph_inner \<Rightarrow> artifact_key \<Rightarrow> artifact_key list" where
  "present_deps g k = filter (\<lambda>d. bt_contains_key d (g_records g)) (record_deps g k)"

definition protected_artifacts :: "graph_inner \<Rightarrow> artifact_key set option" where
  "protected_artifacts g =
     (let building = map fst (filter (\<lambda>(_, r). rec_state r = Building) (g_records g)) in
      mark_loop (record_deps g) building (set building))"

definition unprotected_bytes :: "graph_inner \<Rightarrow> artifact_key set \<Rightarrow> int" where
  "unprotected_bytes g protected =
     sum_list (map (\<lambda>(_, r). artifact_record_bytes r) (filter (\<lambda>(k, _). k \<notin> protected) (g_records g)))"

definition evictable_bytes :: "graph_inner \<Rightarrow> int option" where
  "evictable_bytes g = map_option (unprotected_bytes g) (protected_artifacts g)"

section \<open>Operations\<close>

definition ensure_namespace :: "task_graph \<Rightarrow> artifact_key \<Rightarrow> artifact_error + unit" where
  "ensure_namespace tg k =
     (if key_namespace k = tg_namespace tg \<or> \<not> tg_enabled tg then Inr ()
      else Inl (NamespaceMismatch (tg_namespace tg) (key_namespace k)))"

definition joinable :: "artifact_record \<Rightarrow> bool" where
  "joinable r \<longleftrightarrow> 0 < rec_builders r \<and> rec_state r \<in> {Building, Ready}"

definition start_generation ::
  "artifact_key \<Rightarrow> artifact_dependency set \<Rightarrow> int \<Rightarrow> graph_inner \<Rightarrow> (artifact_error + artifact_task) \<times> graph_inner" where
  "start_generation k deps generation g =
     (let g = replace_dependency_edges k deps g;
          g = g\<lparr>g_misses := sat_add (g_misses g) 1\<rparr>;
          r = \<lparr>rec_key = k, rec_state = Building, rec_dependencies = deps, rec_content_hash = None, rec_reason = None,
               rec_generation = generation, rec_last_touched = g_epoch g, rec_builders = 1\<rparr> in
      (Inr \<lparr>task_key = k, task_generation = generation, task_finished = False\<rparr>,
       g\<lparr>g_records := bt_insert k r (g_records g)\<rparr>))"

definition begin_task ::
  "task_graph \<Rightarrow> artifact_key \<Rightarrow> artifact_dependency set \<Rightarrow> graph_inner \<Rightarrow> (artifact_error + artifact_task) \<times> graph_inner" where
  "begin_task tg k deps g =
     (case ensure_namespace tg k of
        Inl e \<Rightarrow> (Inl e, g)
      | Inr _ \<Rightarrow>
          if \<not> tg_enabled tg then (Inr \<lparr>task_key = k, task_generation = 0, task_finished = True\<rparr>, g)
          else
            (case bt_get (g_records g) k of
               Some r \<Rightarrow>
                 if joinable r then
                   (if rec_dependencies r \<noteq> deps then (Inl (DependencyMismatch (key_identity k)), g)
                    else (Inr \<lparr>task_key = k, task_generation = rec_generation r, task_finished = False\<rparr>,
                          update_record k (\<lambda>r. r\<lparr>rec_builders := rec_builders r + 1, rec_last_touched := g_epoch g\<rparr>) g))
                 else start_generation k deps (sat_add (rec_generation r) 1) g
             | None \<Rightarrow> start_generation k deps 1 g))"

definition complete_task :: "task_graph \<Rightarrow> artifact_key \<Rightarrow> int \<Rightarrow> string \<Rightarrow> graph_inner \<Rightarrow> (artifact_error + unit) \<times> graph_inner" where
  "complete_task tg k generation hash g =
     (if \<not> tg_enabled tg then (Inr (), g)
      else
        (case bt_get (g_records g) k of
           None \<Rightarrow> (Inl (StaleCompletion (key_identity k)), g)
         | Some r \<Rightarrow>
             if rec_generation r \<noteq> generation \<or> rec_state r \<in> {Cancelled, Failed}
             then (Inl (StaleCompletion (key_identity k)), g)
             else if rec_state r = Ready \<and> rec_content_hash r \<noteq> Some hash
             then (Inl (NonDeterministicOutput (key_identity k)),
                   update_record k (\<lambda>r. r\<lparr>rec_state := Failed, rec_reason := Some ''two builders produced different content'',
                     rec_builders := rec_builders r - 1\<rparr>) g)
             else (Inr (),
                   update_record k (\<lambda>r. r\<lparr>rec_state := Ready, rec_content_hash := Some hash, rec_reason := None,
                     rec_builders := rec_builders r - 1\<rparr>) g)))"

definition fail_task :: "task_graph \<Rightarrow> artifact_key \<Rightarrow> int \<Rightarrow> string \<Rightarrow> graph_inner \<Rightarrow> graph_inner" where
  "fail_task tg k generation reason g =
     (if \<not> tg_enabled tg then g
      else
        (case bt_get (g_records g) k of
           None \<Rightarrow> g
         | Some r \<Rightarrow>
             if rec_generation r = generation
             then update_record k (\<lambda>r. r\<lparr>rec_builders := rec_builders r - 1, rec_state := Failed, rec_content_hash := None,
               rec_reason := Some reason\<rparr>) g
             else g))"

definition cancel_task :: "task_graph \<Rightarrow> artifact_key \<Rightarrow> int \<Rightarrow> graph_inner \<Rightarrow> graph_inner" where
  "cancel_task tg k generation g =
     (if \<not> tg_enabled tg then g
      else
        (case bt_get (g_records g) k of
           None \<Rightarrow> g
         | Some r \<Rightarrow>
             if rec_generation r = generation
             then update_record k (\<lambda>r.
               let r = r\<lparr>rec_builders := rec_builders r - 1\<rparr> in
               if rec_builders r = 0 \<and> rec_state r = Building
               then r\<lparr>rec_state := Cancelled, rec_reason := Some ''artifact task ended without completion''\<rparr> else r) g
             else g))"

text \<open>The token: completing or failing it finishes it, dropping an unfinished one cancels.\<close>

definition task_complete :: "task_graph \<Rightarrow> artifact_task \<Rightarrow> string \<Rightarrow> graph_inner \<Rightarrow> (artifact_error + unit) \<times> graph_inner" where
  "task_complete tg t hash g = complete_task tg (task_key t) (task_generation t) hash g"

definition task_fail :: "task_graph \<Rightarrow> artifact_task \<Rightarrow> string \<Rightarrow> graph_inner \<Rightarrow> graph_inner" where
  "task_fail tg t reason g = fail_task tg (task_key t) (task_generation t) reason g"

definition task_drop :: "task_graph \<Rightarrow> artifact_task \<Rightarrow> graph_inner \<Rightarrow> graph_inner" where
  "task_drop tg t g = (if task_finished t then g else cancel_task tg (task_key t) (task_generation t) g)"

text \<open>The first section of \<open>publish\<close>: \<open>None\<close> falls through to the build.\<close>

definition publish_check ::
  "artifact_key \<Rightarrow> artifact_dependency set \<Rightarrow> string \<Rightarrow> graph_inner \<Rightarrow> (artifact_error + bool) option \<times> graph_inner" where
  "publish_check k deps hash g =
     (case bt_get (g_records g) k of
        None \<Rightarrow> (None, g)
      | Some r \<Rightarrow>
          if rec_dependencies r \<noteq> deps then (Some (Inl (DependencyMismatch (key_identity k))), g)
          else if rec_state r \<noteq> Ready then (None, g)
          else if rec_content_hash r \<noteq> Some hash
          then (Some (Inl (NonDeterministicOutput (key_identity k))),
                update_record k (\<lambda>r. r\<lparr>rec_state := Failed, rec_reason := Some ''same semantic key produced different content''\<rparr>) g)
          else (Some (Inr True),
                update_record k (\<lambda>r. r\<lparr>rec_last_touched := g_epoch g\<rparr>) (g\<lparr>g_hits := sat_add (g_hits g) 1\<rparr>)))"

definition publish ::
  "task_graph \<Rightarrow> artifact_key \<Rightarrow> artifact_dependency set \<Rightarrow> string \<Rightarrow> graph_inner \<Rightarrow> (artifact_error + bool) \<times> graph_inner" where
  "publish tg k deps hash g =
     (case ensure_namespace tg k of
        Inl e \<Rightarrow> (Inl e, g)
      | Inr _ \<Rightarrow>
          if \<not> tg_enabled tg then (Inr False, g)
          else
            (case publish_check k deps hash g of
               (Some answer, g) \<Rightarrow> (answer, g)
             | (None, g) \<Rightarrow>
                 (case begin_task tg k deps g of
                    (Inl e, g) \<Rightarrow> (Inl e, g)
                  | (Inr t, g) \<Rightarrow>
                      (case task_complete tg t hash g of
                         (Inl e, g) \<Rightarrow> (Inl e, g)
                       | (Inr _, g) \<Rightarrow> (Inr False, g)))))"

definition cancel_record :: "string \<Rightarrow> artifact_record \<Rightarrow> artifact_record" where
  "cancel_record reason r =
     r\<lparr>rec_state := Cancelled, rec_reason := Some reason, rec_content_hash := None,
       rec_generation := sat_add (rec_generation r) 1, rec_builders := 0\<rparr>"

definition invalidate_step :: "string \<Rightarrow> graph_inner \<Rightarrow> artifact_key \<Rightarrow> artifact_key list \<times> graph_inner" where
  "invalidate_step reason g k = (sorted_list_of_set (dependents_of g k), update_record k (cancel_record reason) g)"

definition invalidate :: "task_graph \<Rightarrow> artifact_key \<Rightarrow> string \<Rightarrow> graph_inner \<Rightarrow> (artifact_key set \<times> graph_inner) option" where
  "invalidate tg k reason g =
     (if \<not> tg_enabled tg then Some ({}, g)
      else
        map_option (\<lambda>(ks, g). (ks, g\<lparr>g_invalidations := sat_add (g_invalidations g) (int (card ks))\<rparr>))
          (explore (invalidate_step reason) [k] {} g))"

text \<open>Eviction: after a record goes, the dependencies it was the last dependent of may follow.\<close>

type_synonym eligible = "((nat \<times> artifact_key), unit) btree"

definition free_dependency :: "artifact_key \<Rightarrow> artifact_key \<Rightarrow> graph_inner \<times> eligible \<Rightarrow> graph_inner \<times> eligible" where
  "free_dependency k d acc =
     (let (g, eligible) = acc in
      case bt_get (g_dependents g) d of
        None \<Rightarrow> (g, eligible)
      | Some ks \<Rightarrow>
          if ks - {k} \<noteq> {} then (g\<lparr>g_dependents := bt_insert d (ks - {k}) (g_dependents g)\<rparr>, eligible)
          else
            (let g = g\<lparr>g_dependents := bt_remove d (g_dependents g)\<rparr> in
             case bt_get (g_records g) d of
               None \<Rightarrow> (g, eligible)
             | Some freed \<Rightarrow>
                 (g, if is_evictable freed g d then bt_insert (eviction_priority (rec_state freed), d) () eligible else eligible)))"

definition evict_record :: "artifact_key \<Rightarrow> artifact_record \<Rightarrow> eligible \<Rightarrow> graph_inner \<Rightarrow> graph_inner \<times> eligible" where
  "evict_record k r eligible g =
     fold (free_dependency k) (dep_keys (rec_dependencies r))
       (g\<lparr>g_records := bt_remove k (g_records g), g_dependents := bt_remove k (g_dependents g)\<rparr>, eligible)"

lemma free_dependency_records: "g_records (fst (free_dependency k d acc)) = g_records (fst acc)"
  by (auto simp: free_dependency_def Let_def split: prod.split option.split)

lemma evict_record_records: "g_records (fst (evict_record k r eligible g)) = bt_remove k (g_records g)"
proof -
  have "g_records (fst (fold (free_dependency k) ds acc)) = g_records (fst acc)" for ds acc
    by (induction ds arbitrary: acc) (simp_all add: free_dependency_records)
  then show ?thesis by (simp add: evict_record_def)
qed

lemma evict_record_pair: "evict_record k r eligible g = (g', eligible') \<Longrightarrow> g_records g' = bt_remove k (g_records g)"
  using evict_record_records [of k r eligible g] by simp

function evict_loop_graph :: "int \<Rightarrow> int \<Rightarrow> int \<Rightarrow> eligible \<Rightarrow> graph_inner \<Rightarrow> int \<times> graph_inner" where
  "evict_loop_graph target resident evicted eligible g =
     (if resident \<le> target then (evicted, g)
      else case eligible of
             [] \<Rightarrow> (evicted, g)
           | ((p, k), _) # rest \<Rightarrow>
               (case bt_get (g_records g) k of
                  None \<Rightarrow> (evicted, g)
                | Some r \<Rightarrow>
                    (case evict_record k r rest g of
                       (g, eligible) \<Rightarrow>
                         evict_loop_graph target (max 0 (resident - artifact_record_bytes r)) (sat_add evicted 1) eligible g)))"
  by pat_completeness auto
termination
  by (relation "measure (\<lambda>(_, _, _, _, g). bt_len (g_records g))")
    (auto dest!: evict_record_pair [OF sym] simp: bt_len_remove_less)

declare evict_loop_graph.simps [simp del]

definition offer :: "graph_inner \<Rightarrow> artifact_key \<times> artifact_record \<Rightarrow> eligible \<Rightarrow> eligible" where
  "offer g = (\<lambda>(k, r) eligible. if is_evictable r g k then bt_insert (eviction_priority (rec_state r), k) () eligible else eligible)"

definition evict_to_bytes :: "task_graph \<Rightarrow> int \<Rightarrow> graph_inner \<Rightarrow> (int \<times> graph_inner) option" where
  "evict_to_bytes tg target g =
     (if \<not> tg_enabled tg then Some (0, g)
      else
        map_option (\<lambda>protected.
          let eligible = fold (offer g) (g_records g) [];
              (evicted, g) = evict_loop_graph target (unprotected_bytes g protected) 0 eligible g in
          (evicted, g\<lparr>g_evictions := sat_add (g_evictions g) evicted\<rparr>))
          (protected_artifacts g))"

definition clear_graph :: "graph_inner \<Rightarrow> graph_inner" where
  "clear_graph g = empty_inner"

section \<open>Persistence\<close>

definition RETENTION_EPOCHS :: int where "RETENTION_EPOCHS = 3"

definition retained_seed :: "graph_inner \<Rightarrow> artifact_key list" where
  "retained_seed g =
     map fst (filter (\<lambda>(k, r). max 0 (g_epoch g - rec_last_touched r) < RETENTION_EPOCHS \<or> \<not> is_evictable r g k) (g_records g))"

definition settle_record :: "string \<Rightarrow> artifact_record \<Rightarrow> artifact_record" where
  "settle_record reason r =
     (let r = r\<lparr>rec_builders := 0\<rparr> in
      if rec_state r = Building then r\<lparr>rec_state := Cancelled, rec_reason := Some reason\<rparr> else r)"

definition save :: "string \<Rightarrow> task_graph \<Rightarrow> graph_inner \<Rightarrow> artifact_manifest option option" where
  "save identity tg g =
     (if \<not> tg_enabled tg then Some None
      else
        map_option (\<lambda>retained.
          Some \<lparr>man_identity = identity, man_namespace = tg_namespace tg, man_epoch = g_epoch g,
            man_records = map (settle_record ''artifact was active when graph was saved'' \<circ> snd)
              (filter (\<lambda>(k, _). k \<in> retained) (g_records g))\<rparr>)
          (mark_loop (present_deps g) (retained_seed g) (set (retained_seed g))))"

fun load_records ::
  "artifact_record list \<Rightarrow> (artifact_key, artifact_record) btree \<Rightarrow> (artifact_key, artifact_record) btree option" where
  "load_records [] m = Some m"
| "load_records (r # rs) m =
     (if bt_contains_key (rec_key r) m then None else load_records rs (bt_insert (rec_key r) r m))"

definition load_manifest ::
  "string \<Rightarrow> string \<Rightarrow> artifact_manifest option \<Rightarrow> ((artifact_key, artifact_record) btree \<times> int) option" where
  "load_manifest identity namespace stored =
     (case stored of
        None \<Rightarrow> None
      | Some m \<Rightarrow>
          if man_identity m \<noteq> identity \<or> man_namespace m \<noteq> namespace then None
          else map_option (\<lambda>rs. (rs, man_epoch m)) (load_records (man_records m) []))"

definition at_dir :: "string \<Rightarrow> task_graph \<Rightarrow> artifact_manifest option \<Rightarrow> graph_inner" where
  "at_dir identity tg stored =
     (let (records, previous_epoch) =
            (case (if tg_enabled tg then load_manifest identity (tg_namespace tg) stored else None) of
               Some x \<Rightarrow> x | None \<Rightarrow> ([], 0)) in
      rebuild_dependents
        (empty_inner\<lparr>g_records := map (\<lambda>(k, r). (k, settle_record ''build process ended before artifact completion'' r)) records,
           g_epoch := sat_add previous_epoch 1\<rparr>))"

section \<open>Edges\<close>

text \<open>The keys whose record depends on \<open>d\<close>: what the reverse edges have to say.\<close>

definition users :: "(artifact_key, artifact_record) btree \<Rightarrow> artifact_key \<Rightarrow> artifact_key set" where
  "users recs d = {k. \<exists>r. bt_get recs k = Some r \<and> d \<in> dep_key ` rec_dependencies r}"

definition edges_wf :: "graph_inner \<Rightarrow> bool" where
  "edges_wf g \<longleftrightarrow> bt_wf (g_dependents g) \<and> (\<forall>d. bt_get (g_dependents g) d \<noteq> Some {})"

definition records_wf :: "(artifact_key, artifact_record) btree \<Rightarrow> bool" where
  "records_wf recs \<longleftrightarrow>
     bt_wf recs \<and> (\<forall>k r. bt_get recs k = Some r \<longrightarrow> rec_key r = k \<and> finite (rec_dependencies r))"

definition graph_inv :: "graph_inner \<Rightarrow> bool" where
  "graph_inv g \<longleftrightarrow> edges_wf g \<and> records_wf (g_records g) \<and> (\<forall>d. dependents_of g d = users (g_records g) d)"

lemma finite_keys_users:
  assumes "records_wf recs"
  shows "finite (users recs d)"
proof -
  have "users recs d \<subseteq> fst ` set recs"
    by (auto simp: users_def bt_get_def dest!: map_of_SomeD intro: rev_image_eqI)
  then show ?thesis by (rule finite_subset) simp
qed

lemma dependents_of_records [simp]: "dependents_of (g\<lparr>g_records := rs\<rparr>) = dependents_of g"
  by (simp add: dependents_of_def fun_eq_iff)

lemma dependents_of_counters [simp]:
  "dependents_of (g\<lparr>g_misses := n\<rparr>) = dependents_of g" "dependents_of (g\<lparr>g_hits := n\<rparr>) = dependents_of g"
  "dependents_of (g\<lparr>g_invalidations := n\<rparr>) = dependents_of g" "dependents_of (g\<lparr>g_evictions := n\<rparr>) = dependents_of g"
  by (simp_all add: dependents_of_def fun_eq_iff)

lemma edges_wf_fields [simp]:
  "edges_wf (g\<lparr>g_records := rs\<rparr>) = edges_wf g" "edges_wf (g\<lparr>g_misses := n\<rparr>) = edges_wf g"
  "edges_wf (g\<lparr>g_hits := n\<rparr>) = edges_wf g" "edges_wf (g\<lparr>g_invalidations := n\<rparr>) = edges_wf g"
  "edges_wf (g\<lparr>g_evictions := n\<rparr>) = edges_wf g"
  by (simp_all add: edges_wf_def)

lemma graph_inv_counters [simp]:
  "graph_inv (g\<lparr>g_misses := n\<rparr>) = graph_inv g" "graph_inv (g\<lparr>g_hits := n\<rparr>) = graph_inv g"
  "graph_inv (g\<lparr>g_invalidations := n\<rparr>) = graph_inv g" "graph_inv (g\<lparr>g_evictions := n\<rparr>) = graph_inv g"
  by (simp_all add: graph_inv_def)

lemma add_edge_records [simp]: "g_records (add_edge k d g) = g_records g" "g_epoch (add_edge k d g) = g_epoch g"
  by (simp_all add: add_edge_def)

lemma drop_edge_records [simp]: "g_records (drop_edge k d g) = g_records g" "g_epoch (drop_edge k d g) = g_epoch g"
  by (auto simp: drop_edge_def split: option.split)

lemma add_edge_effect:
  assumes "edges_wf g"
  shows "edges_wf (add_edge k d g) \<and> dependents_of (add_edge k d g) = (dependents_of g)(d := insert k (dependents_of g d))"
  using assms by (auto simp: edges_wf_def add_edge_def dependents_of_def bt_laws fun_eq_iff)

lemma drop_edge_effect:
  assumes "edges_wf g"
  shows "edges_wf (drop_edge k d g) \<and> dependents_of (drop_edge k d g) = (dependents_of g)(d := dependents_of g d - {k})"
  using assms by (auto simp: edges_wf_def drop_edge_def dependents_of_def bt_laws fun_eq_iff split: option.split)

lemma add_edges_effect:
  "edges_wf g \<Longrightarrow> edges_wf (fold (add_edge k) ds g) \<and> g_records (fold (add_edge k) ds g) = g_records g \<and>
   g_epoch (fold (add_edge k) ds g) = g_epoch g \<and>
   (\<forall>x. dependents_of (fold (add_edge k) ds g) x = (if x \<in> set ds then insert k (dependents_of g x) else dependents_of g x))"
proof (induction ds arbitrary: g)
  case (Cons d ds)
  note step = add_edge_effect [OF Cons.prems, of k d]
  from Cons.IH [of "add_edge k d g"] step show ?case by auto
qed simp

lemma drop_edges_effect:
  "edges_wf g \<Longrightarrow> edges_wf (fold (drop_edge k) ds g) \<and> g_records (fold (drop_edge k) ds g) = g_records g \<and>
   g_epoch (fold (drop_edge k) ds g) = g_epoch g \<and>
   (\<forall>x. dependents_of (fold (drop_edge k) ds g) x = (if x \<in> set ds then dependents_of g x - {k} else dependents_of g x))"
proof (induction ds arbitrary: g)
  case (Cons d ds)
  note step = drop_edge_effect [OF Cons.prems, of k d]
  from Cons.IH [of "drop_edge k d g"] step show ?case by auto
qed simp

lemma set_dep_keys [simp]: "finite deps \<Longrightarrow> set (dep_keys deps) = dep_key ` deps"
  by (simp add: dep_keys_def)

text \<open>A record is replaced by one with other dependencies: its edges are moved.\<close>

lemma users_insert:
  "users (bt_insert k r recs) d = (if d \<in> dep_key ` rec_dependencies r then insert k (users recs d) else users recs d - {k})"
  by (auto simp: users_def bt_get_insert split: if_splits)

lemma replace_edges_inv:
  assumes "graph_inv g" "rec_key r = k" "finite (rec_dependencies r)"
  shows "graph_inv ((replace_dependency_edges k (rec_dependencies r) g)
      \<lparr>g_records := bt_insert k r (g_records (replace_dependency_edges k (rec_dependencies r) g))\<rparr>)"
proof -
  define previous where "previous = (case bt_get (g_records g) k of None \<Rightarrow> {} | Some r \<Rightarrow> rec_dependencies r)"
  have fin: "finite previous" and prev: "d \<in> dep_key ` previous \<longleftrightarrow> k \<in> users (g_records g) d" for d
    using assms(1) by (auto simp: previous_def graph_inv_def records_wf_def users_def split: option.splits)
  let ?g1 = "fold (drop_edge k) (dep_keys previous) g"
  let ?g2 = "fold (add_edge k) (dep_keys (rec_dependencies r)) ?g1"
  have g1: "edges_wf ?g1" "g_records ?g1 = g_records g"
    "dependents_of ?g1 x = users (g_records g) x - {k}" for x
    using drop_edges_effect [of g k "dep_keys previous"] assms(1) fin prev by (auto simp: graph_inv_def)
  have g2: "edges_wf ?g2" "g_records ?g2 = g_records g"
    "dependents_of ?g2 x = (if x \<in> dep_key ` rec_dependencies r then insert k (users (g_records g) x) else users (g_records g) x - {k})" for x
    using add_edges_effect [OF g1(1), of k "dep_keys (rec_dependencies r)"] g1 assms(3) by auto
  have "replace_dependency_edges k (rec_dependencies r) g = ?g2"
    by (simp add: replace_dependency_edges_def previous_def Let_def)
  with g2 assms show ?thesis
    by (auto simp: graph_inv_def records_wf_def users_insert bt_laws)
qed

text \<open>A record is changed in its other fields.\<close>

lemma update_record_get:
  "bt_get (g_records (update_record k f g)) = (bt_get (g_records g))(k := map_option f (bt_get (g_records g) k))"
  by (auto simp: update_record_def bt_get_insert fun_eq_iff split: option.split)

lemma update_record_inv:
  assumes "graph_inv g" "\<And>r. rec_key (f r) = rec_key r" "\<And>r. rec_dependencies (f r) = rec_dependencies r"
  shows "graph_inv (update_record k f g)"
proof (cases "bt_get (g_records g) k")
  case None
  with assms(1) show ?thesis by (simp add: update_record_def)
next
  case (Some r)
  with assms have "users (bt_insert k (f r) (g_records g)) d = users (g_records g) d" for d
    by (auto simp: users_insert) (auto simp: users_def)
  with Some assms show ?thesis
    by (auto simp: update_record_def graph_inv_def records_wf_def bt_laws)
qed

section \<open>The closures end\<close>

lemma mark_new_effect:
  assumes "mark_new ds (queue, marked) = (queue', marked')" "finite R" "set ds \<subseteq> R"
  shows "marked' = marked \<union> set ds \<and> set queue' = set queue \<union> (set ds - marked) \<and>
    length queue' + card (R - marked') \<le> length queue + card (R - marked)"
  using assms
proof (induction ds arbitrary: queue marked)
  case (Cons d ds)
  show ?case
  proof (cases "d \<in> marked")
    case True
    with Cons.IH [of queue marked] Cons.prems show ?thesis by auto
  next
    case False
    then have "d \<in> R - marked" using Cons.prems by simp
    then have "Suc (card (R - marked - {d})) = card (R - marked)"
      using Cons.prems(2) by (intro card_Suc_Diff1) simp_all
    then have "Suc (card (R - insert d marked)) = card (R - marked)" by (metis Diff_insert)
    moreover have "mark_new ds (queue @ [d], insert d marked) = (queue', marked')"
      using Cons.prems False by simp
    ultimately show ?thesis using Cons.IH [of "queue @ [d]" "insert d marked"] Cons.prems(2,3) False by auto
  qed
qed simp

lemma mark_loop_closes:
  assumes "finite R" "marked \<subseteq> R" "set queue \<subseteq> marked"
    and "\<And>a b. a \<in> R \<Longrightarrow> b \<in> set (deps a) \<Longrightarrow> b \<in> R"
    and "\<And>a. a \<in> marked \<Longrightarrow> a \<notin> set queue \<Longrightarrow> set (deps a) \<subseteq> marked"
  shows "\<exists>M. mark_loop deps queue marked = Some M \<and> marked \<subseteq> M \<and> M \<subseteq> R \<and> (\<forall>a\<in>M. set (deps a) \<subseteq> M)"
  using assms
proof (induction "length queue + card (R - marked)" arbitrary: queue marked rule: less_induct)
  case less
  show ?case
  proof (cases queue)
    case Nil
    with less.prems show ?thesis by (subst mark_loop.simps) auto
  next
    case (Cons k rest)
    obtain queue' marked' where new: "mark_new (deps k) (rest, marked) = (queue', marked')" by fastforce
    have sub: "set (deps k) \<subseteq> R" using less.prems(2,3,4) Cons by auto
    have eff: "marked' = marked \<union> set (deps k)" "set queue' = set rest \<union> (set (deps k) - marked)"
      "length queue' + card (R - marked') \<le> length rest + card (R - marked)"
      using mark_new_effect [OF new less.prems(1) sub] by auto
    have "\<exists>M. mark_loop deps queue' marked' = Some M \<and> marked' \<subseteq> M \<and> M \<subseteq> R \<and> (\<forall>a\<in>M. set (deps a) \<subseteq> M)"
    proof (rule less.hyps)
      show "set (deps a) \<subseteq> marked'" if "a \<in> marked'" "a \<notin> set queue'" for a
        using less.prems(5) [of a] that Cons eff(1,2) by auto
    qed (use less.prems eff sub Cons in auto)
    with Cons new eff(1) show ?thesis by (subst mark_loop.simps) auto
  qed
qed

lemma mark_loop_least:
  assumes "mark_loop deps queue (set queue) = Some M" "finite R" "set queue \<subseteq> R"
    and "\<And>a b. a \<in> R \<Longrightarrow> b \<in> set (deps a) \<Longrightarrow> b \<in> R"
  shows "M = (\<Union>k\<in>set queue. reach deps k)"
proof -
  let ?C = "\<Union>k\<in>set queue. reach deps k"
  have "\<exists>M'. mark_loop deps queue (set queue) = Some M' \<and> set queue \<subseteq> M' \<and> M' \<subseteq> R' \<and> (\<forall>a\<in>M'. set (deps a) \<subseteq> M')"
    if "finite R'" "set queue \<subseteq> R'" "\<And>a b. a \<in> R' \<Longrightarrow> b \<in> set (deps a) \<Longrightarrow> b \<in> R'" for R'
    by (rule mark_loop_closes) (use that in auto)
  note closed = this
  have "reach deps k \<subseteq> R" if "k \<in> set queue" for k
    using reach_least [of k R deps] that assms(3,4) by auto
  then have "finite ?C" using assms(2) by (auto intro: finite_subset)
  then have "M \<subseteq> ?C" using closed [of ?C] assms(1) by (fastforce intro: reach_step)
  moreover have "reach deps k \<subseteq> M" if "k \<in> set queue" for k
    using closed [OF assms(2,3)] assms(4) that assms(1) by (intro reach_least) auto
  ultimately show ?thesis by auto
qed

lemma mark_loop_ends:
  assumes "finite U" "\<And>a. set (deps a) \<subseteq> U"
  shows "mark_loop deps queue (set queue) = Some (\<Union>k\<in>set queue. reach deps k)"
proof -
  let ?R = "U \<union> set queue"
  have "\<exists>M. mark_loop deps queue (set queue) = Some M \<and> set queue \<subseteq> M \<and> M \<subseteq> ?R \<and> (\<forall>a\<in>M. set (deps a) \<subseteq> M)"
    by (rule mark_loop_closes) (use assms in auto)
  then obtain M where M: "mark_loop deps queue (set queue) = Some M" by auto
  have "M = (\<Union>k\<in>set queue. reach deps k)"
    by (rule mark_loop_least [OF M, of ?R]) (use assms in auto)
  with M show ?thesis by simp
qed

definition named_keys :: "graph_inner \<Rightarrow> artifact_key set" where
  "named_keys g = (\<Union>(k, r)\<in>set (g_records g). dep_key ` rec_dependencies r)"

lemma record_deps_named:
  assumes "records_wf (g_records g)"
  shows "finite (named_keys g)" and "set (record_deps g k) \<subseteq> named_keys g" and "set (present_deps g k) \<subseteq> named_keys g"
proof -
  show "finite (named_keys g)"
    unfolding named_keys_def using assms by (fastforce simp: records_wf_def bt_get_in_set)
  show "set (record_deps g k) \<subseteq> named_keys g"
  proof (cases "bt_get (g_records g) k")
    case (Some r)
    with assms have "(k, r) \<in> set (g_records g)" "finite (rec_dependencies r)"
      by (auto simp: records_wf_def bt_get_in_set)
    with Some show ?thesis by (auto simp: record_deps_def named_keys_def)
  qed (simp add: record_deps_def)
  then show "set (present_deps g k) \<subseteq> named_keys g" by (auto simp: present_deps_def)
qed

lemma closures_end:
  assumes "records_wf (g_records g)"
  shows "mark_loop (record_deps g) queue (set queue) = Some (\<Union>k\<in>set queue. reach (record_deps g) k)"
    and "mark_loop (present_deps g) queue (set queue) = Some (\<Union>k\<in>set queue. reach (present_deps g) k)"
  by (rule mark_loop_ends [OF record_deps_named(1) [OF assms]], rule record_deps_named [OF assms])+

section \<open>Invalidation\<close>

text \<open>The artifacts that use \<open>k\<close>, directly or through others.\<close>

definition affected :: "(artifact_key, artifact_record) btree \<Rightarrow> artifact_key \<Rightarrow> artifact_key set" where
  "affected recs k = {j. (k, j) \<in> {(a, b). b \<in> users recs a}\<^sup>*}"

interpretation dependents_walk: cached_successors "invalidate_step reason" "\<lambda>k. sorted_list_of_set (dependents_of g0 k)"
  "\<lambda>g. g_dependents g = g_dependents g0" for reason g0
  by unfold_locales (auto simp: invalidate_step_def dependents_of_def update_record_def split: option.split)

lemma affected_reach:
  assumes "graph_inv g"
  shows "reach (\<lambda>k. sorted_list_of_set (dependents_of g k)) k = affected (g_records g) k" and "finite (affected (g_records g) k)"
proof -
  have fin: "finite (users (g_records g) d)" for d
    using assms by (intro finite_keys_users) (simp add: graph_inv_def)
  with assms show "reach (\<lambda>k. sorted_list_of_set (dependents_of g k)) k = affected (g_records g) k"
    by (simp add: reach_def affected_def graph_inv_def)
  have "affected (g_records g) k \<subseteq> insert k (fst ` set (g_records g))"
  proof
    fix j
    assume "j \<in> affected (g_records g) k"
    then have "(k, j) \<in> {(a, b). b \<in> users (g_records g) a}\<^sup>*" by (simp add: affected_def)
    then show "j \<in> insert k (fst ` set (g_records g))"
      by (cases rule: rtranclE) (auto simp: users_def bt_get_def dest!: map_of_SomeD intro: rev_image_eqI)
  qed
  then show "finite (affected (g_records g) k)" by (rule finite_subset) simp
qed

lemma cancel_record_keeps [simp]:
  "rec_key (cancel_record reason r) = rec_key r" "rec_dependencies (cancel_record reason r) = rec_dependencies r"
  "rec_generation (cancel_record reason r) = sat_add (rec_generation r) 1" "rec_state (cancel_record reason r) = Cancelled"
  by (simp_all add: cancel_record_def)

definition cancelled_at :: "string \<Rightarrow> graph_inner \<Rightarrow> artifact_key set \<Rightarrow> graph_inner \<Rightarrow> bool" where
  "cancelled_at reason g0 ks g \<longleftrightarrow>
     graph_inv g \<and> g_epoch g = g_epoch g0 \<and>
     (\<forall>j. bt_get (g_records g) j = (if j \<in> ks then map_option (cancel_record reason) else id) (bt_get (g_records g0) j))"

lemma cancelled_at_step:
  assumes "n \<notin> ks" "cancelled_at reason g0 ks g"
  shows "cancelled_at reason g0 (insert n ks) (snd (invalidate_step reason g n))"
  using assms update_record_inv [of g "cancel_record reason" n]
  by (auto simp: cancelled_at_def invalidate_step_def update_record_get) (auto simp: update_record_def split: option.splits)

lemma invalidate_result:
  assumes "graph_inv g" "tg_enabled tg"
  shows "\<exists>g'. invalidate tg k reason g = Some (affected (g_records g) k, g') \<and> cancelled_at reason g (affected (g_records g) k) g'"
proof -
  obtain g' where g': "explore (invalidate_step reason) [k] {} g = Some (affected (g_records g) k, g')"
    using dependents_walk.explore_reach [of g k g reason] affected_reach [OF assms(1), of k] by auto
  have "cancelled_at reason g {} g" using assms(1) by (simp add: cancelled_at_def)
  from explore_keeps [where Q = "cancelled_at reason g", OF g' this cancelled_at_step]
  have "cancelled_at reason g (affected (g_records g) k) g'" .
  with g' assms(2) show ?thesis
    by (auto simp: invalidate_def cancelled_at_def)
qed

section \<open>Eviction\<close>

definition evictable_at :: "graph_inner \<Rightarrow> nat \<times> artifact_key \<Rightarrow> bool" where
  "evictable_at g = (\<lambda>(p, k). \<exists>r. bt_get (g_records g) k = Some r \<and> is_evictable r g k \<and> p = eviction_priority (rec_state r))"

text \<open>The queue of candidates holds exactly the records that may go now.\<close>

definition eligible_exact :: "eligible \<Rightarrow> graph_inner \<Rightarrow> bool" where
  "eligible_exact e g \<longleftrightarrow> bt_wf e \<and> (\<forall>x. bt_get e x = Some () \<longleftrightarrow> evictable_at g x)"

lemma free_dependency_drop: "fst (free_dependency k d (g, e)) = drop_edge k d g"
  by (auto simp: free_dependency_def drop_edge_def Let_def split: option.split)

lemma free_dependency_exact:
  assumes "eligible_exact e g" "edges_wf g"
  shows "eligible_exact (snd (free_dependency k d (g, e))) (fst (free_dependency k d (g, e)))"
proof -
  let ?e' = "snd (free_dependency k d (g, e))" and ?g' = "fst (free_dependency k d (g, e))"
  have deps: "dependents_of ?g' = (dependents_of g)(d := dependents_of g d - {k})" and recs: "g_records ?g' = g_records g"
    using drop_edge_effect [OF assms(2), of k d] by (simp_all add: free_dependency_drop)
  have other: "evictable_at ?g' (p, j) \<longleftrightarrow> evictable_at g (p, j)" if "j \<noteq> d \<or> bt_get (g_dependents g) d = None" for p j
    using that by (auto simp: evictable_at_def is_evictable_def deps recs dependents_of_def)
  show ?thesis
  proof (cases "bt_get (g_dependents g) d")
    case None
    with assms(1) other show ?thesis by (auto simp: eligible_exact_def free_dependency_def)
  next
    case (Some ks)
    with assms(2) have "dependents_of g d = ks" "ks \<noteq> {}" by (auto simp: dependents_of_def edges_wf_def)
    then have was: "\<not> evictable_at g (p, d)" for p by (simp add: evictable_at_def is_evictable_def)
    have now: "evictable_at ?g' (p, d) \<longleftrightarrow> ks - {k} = {} \<and>
        (\<exists>r. bt_get (g_records g) d = Some r \<and> rec_state r \<noteq> Building \<and> rec_builders r = 0 \<and> p = eviction_priority (rec_state r))" for p
      using \<open>dependents_of g d = ks\<close> by (auto simp: evictable_at_def is_evictable_def deps recs)
    have "?e' = (case bt_get (g_records g) d of
        Some r \<Rightarrow> if ks - {k} = {} \<and> rec_state r \<noteq> Building \<and> rec_builders r = 0
                  then bt_insert (eviction_priority (rec_state r), d) () e else e
      | None \<Rightarrow> e)"
      using Some assms(2) by (auto simp: free_dependency_def Let_def is_evictable_def dependents_of_def edges_wf_def bt_laws split: option.split)
    then have "bt_wf ?e'" and "bt_get ?e' (p, j) = Some () \<longleftrightarrow> (if j = d then evictable_at ?g' (p, j) else evictable_at g (p, j))" for p j
      using assms(1) was [of p] now [of p] by (auto simp: eligible_exact_def bt_laws split: option.split)
    with other show ?thesis by (auto simp: eligible_exact_def)
  qed
qed

lemma free_dependencies_effect:
  "eligible_exact e g \<Longrightarrow> edges_wf g \<Longrightarrow>
   (case fold (free_dependency k) ds (g, e) of (g', e') \<Rightarrow> g' = fold (drop_edge k) ds g \<and> eligible_exact e' g')"
proof (induction ds arbitrary: g e)
  case (Cons d ds)
  obtain g1 e1 where step: "free_dependency k d (g, e) = (g1, e1)" by fastforce
  with free_dependency_drop [of k d g e] free_dependency_exact [OF Cons.prems, of k d] drop_edge_effect [OF Cons.prems(2), of k d]
  have "g1 = drop_edge k d g" "eligible_exact e1 g1" "edges_wf g1" by auto
  with Cons.IH [of e1 g1] step show ?case by simp
qed simp

lemma evict_record_effect:
  assumes "graph_inv g" "eligible_exact (((p, k), ()) # rest) g" "bt_get (g_records g) k = Some r"
    and "evict_record k r rest g = (g', e')"
  shows "is_evictable r g k \<and> graph_inv g' \<and> eligible_exact e' g' \<and> g_records g' = bt_remove k (g_records g) \<and> g_epoch g' = g_epoch g"
proof -
  have "bt_get (((p, k), ()) # rest) (p, k) = Some ()" by (simp add: bt_get_def)
  with assms(2,3) have ev: "is_evictable r g k" and p: "p = eviction_priority (rec_state r)"
    by (auto simp: eligible_exact_def evictable_at_def)
  then have none: "bt_get (g_dependents g) k = None"
    using assms(1) by (cases "bt_get (g_dependents g) k") (auto simp: is_evictable_def dependents_of_def graph_inv_def edges_wf_def)
  let ?g1 = "g\<lparr>g_records := bt_remove k (g_records g), g_dependents := bt_remove k (g_dependents g)\<rparr>"
  have deps1: "dependents_of ?g1 = dependents_of g"
    using none by (auto simp: dependents_of_def bt_laws fun_eq_iff)
  have wf1: "edges_wf ?g1" using assms(1) by (auto simp: graph_inv_def edges_wf_def bt_laws)
  have "bt_get rest x = Some () \<longleftrightarrow> evictable_at ?g1 x" for x
  proof (cases x)
    case (Pair q j)
    have "bt_get rest (p, k) = None"
      using assms(2) by (auto simp: eligible_exact_def bt_get_def map_of_eq_None_iff)
    moreover have "bt_get rest (q, k) = None" if "q \<noteq> p"
    proof -
      have "\<not> evictable_at g (q, k)" using that p assms(3) by (simp add: evictable_at_def)
      then have "bt_get (((p, k), ()) # rest) (q, k) \<noteq> Some ()" using assms(2) by (simp add: eligible_exact_def)
      with that show ?thesis by (cases "bt_get rest (q, k)") (simp_all add: bt_get_def)
    qed
    moreover have "bt_get rest (q, j) = Some () \<longleftrightarrow> evictable_at g (q, j)" if "j \<noteq> k"
    proof -
      have "bt_get (((p, k), ()) # rest) (q, j) = Some () \<longleftrightarrow> evictable_at g (q, j)"
        using assms(2) unfolding eligible_exact_def by blast
      with that show ?thesis by (simp add: bt_get_def)
    qed
    ultimately show ?thesis
      using Pair by (cases "j = k"; cases "q = p") (auto simp: evictable_at_def is_evictable_def deps1 bt_laws)
  qed
  then have "eligible_exact rest ?g1" using assms(2) by (simp add: eligible_exact_def)
  from free_dependencies_effect [OF this wf1, of k "dep_keys (rec_dependencies r)"] assms(4)
  have g': "g' = fold (drop_edge k) (dep_keys (rec_dependencies r)) ?g1" "eligible_exact e' g'"
    by (auto simp: evict_record_def)
  have fin: "finite (rec_dependencies r)" and key: "d \<in> dep_key ` rec_dependencies r \<longleftrightarrow> k \<in> users (g_records g) d" for d
    using assms(1,3) by (auto simp: graph_inv_def records_wf_def users_def)
  have less: "users (bt_remove k (g_records g)) d = users (g_records g) d - {k}" for d
    by (auto simp: users_def bt_laws split: if_splits)
  from drop_edges_effect [OF wf1, of k "dep_keys (rec_dependencies r)"] g'(1) fin key
  have "edges_wf g'" "g_records g' = bt_remove k (g_records g)" "g_epoch g' = g_epoch g"
    "dependents_of g' d = dependents_of g d - {k}" for d
    using assms(1) by (auto simp: deps1 graph_inv_def)
  with assms(1) g'(2) ev less show ?thesis
    by (auto simp: graph_inv_def records_wf_def bt_laws)
qed

lemma artifact_record_bytes_nonneg: "0 \<le> artifact_record_bytes r"
  unfolding artifact_record_bytes_def opt_len_def by (auto intro!: add_nonneg_nonneg sum_nonneg split: option.split)

lemma unprotected_bytes_remove:
  assumes "bt_wf m" "bt_get m k = Some r" "k \<notin> P"
  shows "sum_list (map (\<lambda>(_, r). artifact_record_bytes r) (filter (\<lambda>(k, _). k \<notin> P) m)) =
    artifact_record_bytes r + sum_list (map (\<lambda>(_, r). artifact_record_bytes r) (filter (\<lambda>(k, _). k \<notin> P) (bt_remove k m)))"
  using assms
proof (induction m)
  case (Cons x m)
  obtain j s where x: "x = (j, s)" by fastforce
  show ?case
  proof (cases "j = k")
    case True
    with Cons.prems(1) x have "bt_remove k m = m" by (auto simp: bt_remove_def filter_id_conv)
    with True x Cons.prems show ?thesis by (simp add: bt_remove_def bt_get_def)
  next
    case False
    with Cons x show ?thesis by (auto simp: bt_remove_def bt_get_def)
  qed
qed (simp add: bt_get_def)

lemma unprotected_bytes_nonneg: "0 \<le> unprotected_bytes g P"
  unfolding unprotected_bytes_def by (intro sum_list_nonneg) (auto simp: artifact_record_bytes_nonneg)

text \<open>A set of keys that holds what it needs: each is being built or has a user in the set.\<close>

definition pinned :: "artifact_key set \<Rightarrow> graph_inner \<Rightarrow> bool" where
  "pinned P g \<longleftrightarrow>
     (\<forall>k\<in>P. \<forall>r. bt_get (g_records g) k = Some r \<longrightarrow> rec_state r = Building \<or> P \<inter> users (g_records g) k \<noteq> {})"

definition evicted_to :: "artifact_key set \<Rightarrow> graph_inner \<Rightarrow> graph_inner \<Rightarrow> bool" where
  "evicted_to P g g' \<longleftrightarrow>
     (\<forall>k. bt_get (g_records g') k = bt_get (g_records g) k \<or>
        bt_get (g_records g') k = None \<and> k \<notin> P \<and> users (g_records g') k = {} \<and>
        (\<exists>r. bt_get (g_records g) k = Some r \<and> rec_state r \<noteq> Building \<and> rec_builders r = 0))"

lemma users_mono: "(\<And>k. bt_get m' k = bt_get m k \<or> bt_get m' k = None) \<Longrightarrow> users m' d \<subseteq> users m d"
proof
  fix x
  assume mono: "\<And>k. bt_get m' k = bt_get m k \<or> bt_get m' k = None" and "x \<in> users m' d"
  then obtain r where r: "bt_get m' x = Some r" "d \<in> dep_key ` rec_dependencies r" by (auto simp: users_def)
  then have "bt_get m x = Some r" using mono [of x] by simp
  with r show "x \<in> users m d" by (auto simp: users_def)
qed

lemma evicted_to_trans:
  assumes "evicted_to P g g1" "evicted_to P g1 g2"
  shows "evicted_to P g g2"
proof -
  have "users (g_records g2) k \<subseteq> users (g_records g1) k" for k
    using assms(2) by (intro users_mono) (auto simp: evicted_to_def)
  with assms show ?thesis unfolding evicted_to_def by (metis subset_empty)
qed

lemma evict_record_step:
  assumes "graph_inv g" "eligible_exact (((p, k), ()) # rest) g" "bt_get (g_records g) k = Some r"
    and "evict_record k r rest g = (g', e')" "pinned P g"
  shows "evicted_to P g g' \<and> pinned P g' \<and> unprotected_bytes g P = artifact_record_bytes r + unprotected_bytes g' P"
proof -
  note eff = evict_record_effect [OF assms(1-4)]
  then have idle: "rec_state r \<noteq> Building" "rec_builders r = 0" and unused: "users (g_records g) k = {}"
    using assms(1) by (auto simp: is_evictable_def graph_inv_def)
  then have out: "k \<notin> P" using assms(3,5) by (auto simp: pinned_def)
  have users: "users (g_records g') d = users (g_records g) d - {k}" for d
    using eff by (auto simp: users_def bt_laws split: if_splits)
  have get: "bt_get (g_records g') = (bt_get (g_records g))(k := None)" using eff by (simp add: bt_laws)
  have "evicted_to P g g'"
    unfolding evicted_to_def users get using idle unused out assms(3) by auto
  moreover have "pinned P g'"
    unfolding pinned_def users get using out assms(5) by (auto simp: pinned_def)
  moreover have "unprotected_bytes g P = artifact_record_bytes r + unprotected_bytes g' P"
    unfolding unprotected_bytes_def using unprotected_bytes_remove [of "g_records g" k r P] out assms(1,3) eff
    by (simp add: graph_inv_def records_wf_def)
  ultimately show ?thesis by blast
qed

lemma evict_loop_result:
  assumes "graph_inv g" "eligible_exact e g" "pinned P g" "resident = unprotected_bytes g P"
    and "evict_loop_graph target resident n e g = (n', g')"
  shows "graph_inv g' \<and> evicted_to P g g' \<and> pinned P g' \<and> g_epoch g' = g_epoch g \<and>
    (unprotected_bytes g' P \<le> target \<or> (\<forall>x. \<not> evictable_at g' x))"
  using assms
proof (induction target resident n e g arbitrary: n' g' rule: evict_loop_graph.induct)
  case (1 target resident n e g)
  show ?case
  proof (cases "resident \<le> target \<or> e = []")
    case True
    then have "evict_loop_graph target resident n e g = (n, g)" by (subst evict_loop_graph.simps) auto
    then have "g' = g" using "1.prems"(5) by simp
    with True "1.prems"(1-4) show ?thesis
      by (auto simp: evicted_to_def eligible_exact_def bt_get_def simp del: split_paired_All)
  next
    case False
    then obtain p k rest where e: "e = ((p, k), ()) # rest" and more: "\<not> resident \<le> target"
      by (cases e) auto
    then have "bt_get e (p, k) = Some ()" by (simp add: bt_get_def)
    then have "evictable_at g (p, k)" using "1.prems"(2) unfolding eligible_exact_def by blast
    then obtain r where r: "bt_get (g_records g) k = Some r" by (auto simp: evictable_at_def)
    obtain g1 e1 where step: "evict_record k r rest g = (g1, e1)" by fastforce
    note eff = evict_record_effect [OF "1.prems"(1) "1.prems"(2) [unfolded e] r step]
      and step' = evict_record_step [OF "1.prems"(1) "1.prems"(2) [unfolded e] r step "1.prems"(3)]
    have res: "max 0 (resident - artifact_record_bytes r) = unprotected_bytes g1 P"
      using step' "1.prems"(4) unprotected_bytes_nonneg [of g1 P] by simp
    have run: "evict_loop_graph target (max 0 (resident - artifact_record_bytes r)) (sat_add n 1) e1 g1 = (n', g')"
      using "1.prems"(5) more r step unfolding e by (subst (asm) evict_loop_graph.simps) simp
    from "1.IH" [OF more e refl refl r step [symmetric] _ _ _ res run] eff step' evicted_to_trans [of P g g1 g']
    show ?thesis by auto
  qed
qed

text \<open>What the builds in flight need: the records being built and their dependencies, transitively.\<close>

definition needed :: "graph_inner \<Rightarrow> artifact_key set" where
  "needed g =
     {j. \<exists>k r. bt_get (g_records g) k = Some r \<and> rec_state r = Building \<and> (k, j) \<in> {(a, b). a \<in> users (g_records g) b}\<^sup>*}"

lemma protected_needed:
  assumes "graph_inv g"
  shows "protected_artifacts g = Some (needed g)"
proof -
  have wf: "records_wf (g_records g)" using assms by (simp add: graph_inv_def)
  let ?b = "map fst (filter (\<lambda>(_, r). rec_state r = Building) (g_records g))"
  have "b \<in> set (record_deps g a) \<longleftrightarrow> a \<in> users (g_records g) b" for a b
    using wf by (cases "bt_get (g_records g) a") (auto simp: record_deps_def users_def records_wf_def)
  then have "(\<Union>k\<in>set ?b. reach (record_deps g) k) = needed g"
    using wf by (force simp: reach_def needed_def records_wf_def bt_get_in_set)
  with closures_end(1) [OF wf, of ?b] show ?thesis by (simp add: protected_artifacts_def Let_def)
qed

lemma needed_step: "a \<in> needed g \<Longrightarrow> a \<in> users (g_records g) b \<Longrightarrow> b \<in> needed g"
  unfolding needed_def by (blast intro: rtrancl_into_rtrancl)

lemma pinned_needed: "pinned (needed g) g"
  unfolding pinned_def
proof (intro ballI allI impI)
  fix j r
  assume j: "j \<in> needed g" "bt_get (g_records g) j = Some r"
  then obtain k s where ks: "bt_get (g_records g) k = Some s" "rec_state s = Building"
    "(k, j) \<in> {(a, b). a \<in> users (g_records g) b}\<^sup>*"
    by (auto simp: needed_def)
  from ks(3) show "rec_state r = Building \<or> needed g \<inter> users (g_records g) j \<noteq> {}"
  proof (cases rule: rtranclE)
    case base
    with ks j show ?thesis by simp
  next
    case (step a)
    with ks(1,2) have "a \<in> needed g \<inter> users (g_records g) j" by (auto simp: needed_def)
    then show ?thesis by blast
  qed
qed

lemma needed_kept:
  assumes "evicted_to (needed g) g g'"
  shows "needed g' = needed g"
proof
  have get: "bt_get (g_records g') k = bt_get (g_records g) k \<or> bt_get (g_records g') k = None" for k
    using assms by (auto simp: evicted_to_def)
  have same: "bt_get (g_records g') k = bt_get (g_records g) k" if "k \<in> needed g" for k
    using assms that by (auto simp: evicted_to_def)
  have "users (g_records g') d \<subseteq> users (g_records g) d" for d by (rule users_mono) (rule get)
  then have "{(a, b). a \<in> users (g_records g') b}\<^sup>* \<subseteq> {(a, b). a \<in> users (g_records g) b}\<^sup>*"
    by (intro rtrancl_mono) auto
  moreover have "bt_get (g_records g) k = Some r" if "bt_get (g_records g') k = Some r" for k r
    using get [of k] that by simp
  ultimately show "needed g' \<subseteq> needed g" unfolding needed_def by blast
  have step: "a \<in> users (g_records g') b" if "a \<in> needed g" "a \<in> users (g_records g) b" for a b
    using same [OF that(1)] that(2) by (simp add: users_def)
  show "needed g \<subseteq> needed g'"
  proof
    fix j
    assume "j \<in> needed g"
    then obtain k r where k: "bt_get (g_records g) k = Some r" "rec_state r = Building"
      "(k, j) \<in> {(a, b). a \<in> users (g_records g) b}\<^sup>*" by (auto simp: needed_def)
    then have kn: "k \<in> needed g" by (auto simp: needed_def)
    then have k': "k \<in> needed g'" using k(1,2) same by (fastforce simp: needed_def)
    from k(3) have "j \<in> needed g' \<and> j \<in> needed g"
      by (induction rule: rtrancl_induct) (use kn k' step needed_step in \<open>auto\<close>)
    then show "j \<in> needed g'" ..
  qed
qed

lemma offers_exact:
  assumes "bt_wf m" "\<And>k r. (k, r) \<in> set xs \<Longrightarrow> bt_get (g_records g) k = Some r"
  shows "bt_wf (fold (offer g) xs m) \<and>
    (\<forall>x. bt_get (fold (offer g) xs m) x = Some () \<longleftrightarrow> bt_get m x = Some () \<or> (snd x \<in> set (map fst xs) \<and> evictable_at g x))"
  using assms
proof (induction xs arbitrary: m)
  case (Cons x xs)
  obtain k r where x: "x = (k, r)" by fastforce
  have "bt_wf (offer g x m)" using Cons.prems(1) x by (simp add: offer_def bt_laws)
  then have IH: "bt_wf (fold (offer g) xs (offer g x m))"
    "bt_get (fold (offer g) xs (offer g x m)) y = Some () \<longleftrightarrow>
       bt_get (offer g x m) y = Some () \<or> (snd y \<in> set (map fst xs) \<and> evictable_at g y)" for y
    using Cons.IH [of "offer g x m"] Cons.prems(2) by (simp_all del: split_paired_All)
  have "bt_get (g_records g) k = Some r" using Cons.prems(2) x by simp
  then have "bt_get (offer g x m) y = Some () \<longleftrightarrow> bt_get m y = Some () \<or> snd y = k \<and> evictable_at g y" for y
    using x by (cases y) (auto simp: offer_def bt_laws evictable_at_def)
  with IH x show ?case by (auto simp del: split_paired_All)
qed simp

lemma eligible_start:
  assumes "graph_inv g"
  shows "eligible_exact (fold (offer g) (g_records g) []) g"
proof -
  have wf: "bt_wf (g_records g)" using assms by (simp add: graph_inv_def records_wf_def)
  have "snd x \<in> set (map fst (g_records g))" if "evictable_at g x" for x
    using that wf by (force simp: evictable_at_def bt_get_in_set split: prod.splits)
  with offers_exact [of "[]" "g_records g" g] wf show ?thesis
    by (simp add: eligible_exact_def bt_get_in_set del: split_paired_All) (auto simp: bt_get_def)
qed

lemma evict_to_bytes_result:
  assumes "graph_inv g" "tg_enabled tg"
  shows "\<exists>n g'. evict_to_bytes tg target g = Some (n, g') \<and> graph_inv g' \<and> evicted_to (needed g) g g' \<and> g_epoch g' = g_epoch g \<and>
     (unprotected_bytes g' (needed g) \<le> target \<or> (\<forall>x. \<not> evictable_at g' x))"
proof -
  obtain n g1 where run: "evict_loop_graph target (unprotected_bytes g (needed g)) 0 (fold (offer g) (g_records g) []) g = (n, g1)"
    by fastforce
  note loop = evict_loop_result [OF assms(1) eligible_start [OF assms(1)] pinned_needed refl run]
  let ?g' = "g1\<lparr>g_evictions := sat_add (g_evictions g1) n\<rparr>"
  have "evict_to_bytes tg target g = Some (n, ?g')"
    using run assms by (simp add: evict_to_bytes_def protected_needed Let_def)
  moreover have "evictable_at ?g' = evictable_at g1" by (simp add: evictable_at_def is_evictable_def)
  moreover have "unprotected_bytes ?g' (needed g) = unprotected_bytes g1 (needed g)" by (simp add: unprotected_bytes_def)
  moreover have "evicted_to (needed g) g ?g'" using loop by (simp add: evicted_to_def)
  ultimately show ?thesis using loop by (intro exI [of _ n] exI [of _ ?g']) simp
qed

section \<open>Runs\<close>

lemma load_records_wf:
  "records_wf m \<Longrightarrow> (\<And>r. r \<in> set rs \<Longrightarrow> finite (rec_dependencies r)) \<Longrightarrow> load_records rs m = Some m' \<Longrightarrow> records_wf m'"
proof (induction rs arbitrary: m)
  case (Cons r rs)
  have "records_wf (bt_insert (rec_key r) r m)"
    using Cons.prems(1,2) by (auto simp: records_wf_def bt_laws)
  with Cons show ?case by (auto split: if_splits)
qed simp

lemma settle_record_keeps [simp]:
  "rec_key (settle_record reason r) = rec_key r" "rec_dependencies (settle_record reason r) = rec_dependencies r"
  "rec_builders (settle_record reason r) = 0" "rec_state (settle_record reason r) \<noteq> Building"
  by (simp_all add: settle_record_def Let_def)

lemma records_wf_map:
  assumes "records_wf m" "\<And>r. rec_key (f r) = rec_key r" "\<And>r. rec_dependencies (f r) = rec_dependencies r"
  shows "records_wf (map (\<lambda>(k, r). (k, f r)) m)"
proof -
  have "bt_wf (map (\<lambda>(k, r). (k, f r)) m)" using assms(1) by (simp add: records_wf_def bt_wf_def comp_def case_prod_unfold)
  moreover have "bt_get (map (\<lambda>(k, r). (k, f r)) m) k = map_option f (bt_get m k)" for k
    by (induction m) (auto simp: bt_get_def)
  ultimately show ?thesis using assms by (auto simp: records_wf_def)
qed

lemma rebuild_fold:
  assumes "edges_wf g" "\<And>k r. (k, r) \<in> set xs \<Longrightarrow> finite (rec_dependencies r)"
  shows "edges_wf (fold (\<lambda>(k, r). fold (add_edge k) (dep_keys (rec_dependencies r))) xs g) \<and>
    g_records (fold (\<lambda>(k, r). fold (add_edge k) (dep_keys (rec_dependencies r))) xs g) = g_records g \<and>
    (\<forall>d. dependents_of (fold (\<lambda>(k, r). fold (add_edge k) (dep_keys (rec_dependencies r))) xs g) d =
       dependents_of g d \<union> {k. \<exists>r. (k, r) \<in> set xs \<and> d \<in> dep_key ` rec_dependencies r})"
  using assms
proof (induction xs arbitrary: g)
  case (Cons x xs)
  obtain k r where x: "x = (k, r)" by fastforce
  let ?g = "fold (add_edge k) (dep_keys (rec_dependencies r)) g"
  from add_edges_effect [OF Cons.prems(1), of k "dep_keys (rec_dependencies r)"] Cons.prems(2) [of k r] x
  have g: "edges_wf ?g" "g_records ?g = g_records g"
    "dependents_of ?g d = dependents_of g d \<union> (if d \<in> dep_key ` rec_dependencies r then {k} else {})" for d
    by auto
  from Cons.IH [OF g(1)] Cons.prems(2) have IH:
    "edges_wf (fold (\<lambda>(k, r). fold (add_edge k) (dep_keys (rec_dependencies r))) xs ?g)"
    "g_records (fold (\<lambda>(k, r). fold (add_edge k) (dep_keys (rec_dependencies r))) xs ?g) = g_records ?g"
    "dependents_of (fold (\<lambda>(k, r). fold (add_edge k) (dep_keys (rec_dependencies r))) xs ?g) d =
       dependents_of ?g d \<union> {k. \<exists>r. (k, r) \<in> set xs \<and> d \<in> dep_key ` rec_dependencies r}" for d
    by auto
  from IH g x show ?case by auto
qed simp

lemma rebuild_inv:
  assumes "records_wf (g_records g)"
  shows "graph_inv (rebuild_dependents g)"
proof -
  have fin: "finite (rec_dependencies r)" if "(k, r) \<in> set (g_records g)" for k r
    using assms that by (auto simp: records_wf_def bt_get_in_set)
  have wf: "bt_wf (g_records g)" using assms by (simp add: records_wf_def)
  have empty: "edges_wf (g\<lparr>g_dependents := []\<rparr>)" "dependents_of (g\<lparr>g_dependents := []\<rparr>) d = {}" for d
    by (simp_all add: edges_wf_def dependents_of_def bt_get_def)
  have "users (g_records g) d = {k. \<exists>r. (k, r) \<in> set (g_records g) \<and> d \<in> dep_key ` rec_dependencies r}" for d
    unfolding users_def bt_get_in_set [OF wf] ..
  with rebuild_fold [OF empty(1), of "g_records g"] fin assms empty(2) show ?thesis
    by (simp add: graph_inv_def rebuild_dependents_def)
qed

text \<open>A manifest as it is decoded: its dependency sets are finite.\<close>

definition manifest_ok :: "artifact_manifest option \<Rightarrow> bool" where
  "manifest_ok stored \<longleftrightarrow> (case stored of None \<Rightarrow> True | Some m \<Rightarrow> list_all (\<lambda>r. finite (rec_dependencies r)) (man_records m))"

lemma at_dir_inv:
  assumes "manifest_ok stored"
  shows "graph_inv (at_dir identity tg stored)"
proof -
  have empty: "records_wf []" by (simp add: records_wf_def bt_get_def)
  have "records_wf rs" if "load_manifest identity (tg_namespace tg) stored = Some (rs, n)" for rs n
    using that assms by (auto simp: load_manifest_def manifest_ok_def list_all_iff intro!: load_records_wf [OF empty]
      split: option.splits if_splits)
  with empty show ?thesis
    unfolding at_dir_def Let_def
    by (auto intro!: rebuild_inv records_wf_map split: option.split prod.split)
qed

datatype graph_op =
    Op_Begin artifact_key "artifact_dependency set" | Op_Complete artifact_key int string | Op_Fail artifact_key int string
  | Op_Drop artifact_key int | Op_Lookup artifact_key "artifact_dependency set" string | Op_Invalidate artifact_key string
  | Op_Evict int | Op_Clear

text \<open>One locked section; \<open>Op_Lookup\<close> is the first section of \<open>publish\<close>, which goes on with a begin and a completion.\<close>

fun graph_step :: "task_graph \<Rightarrow> graph_op \<Rightarrow> graph_inner \<Rightarrow> graph_inner option" where
  "graph_step tg (Op_Begin k deps) g = Some (snd (begin_task tg k deps g))"
| "graph_step tg (Op_Complete k n hash) g = Some (snd (complete_task tg k n hash g))"
| "graph_step tg (Op_Fail k n reason) g = Some (fail_task tg k n reason g)"
| "graph_step tg (Op_Drop k n) g = Some (cancel_task tg k n g)"
| "graph_step tg (Op_Lookup k deps hash) g = Some (snd (publish_check k deps hash g))"
| "graph_step tg (Op_Invalidate k reason) g = map_option snd (invalidate tg k reason g)"
| "graph_step tg (Op_Evict n) g = map_option snd (evict_to_bytes tg n g)"
| "graph_step tg Op_Clear g = Some (clear_graph g)"

fun graph_run :: "task_graph \<Rightarrow> graph_op list \<Rightarrow> graph_inner \<Rightarrow> graph_inner option" where
  "graph_run tg [] g = Some g"
| "graph_run tg (op # ops) g = (case graph_step tg op g of None \<Rightarrow> None | Some g \<Rightarrow> graph_run tg ops g)"

fun op_ok :: "graph_op \<Rightarrow> bool" where
  "op_ok (Op_Begin k deps) = finite deps"
| "op_ok _ = True"

lemma start_generation_inv:
  assumes "graph_inv g" "finite deps"
  shows "graph_inv (snd (start_generation k deps n g))"
proof -
  let ?g = "replace_dependency_edges k deps g"
  let ?r = "\<lparr>rec_key = k, rec_state = Building, rec_dependencies = deps, rec_content_hash = None, rec_reason = None,
               rec_generation = n, rec_last_touched = g_epoch ?g, rec_builders = 1\<rparr>"
  have "graph_inv (?g\<lparr>g_records := bt_insert k ?r (g_records ?g)\<rparr>)"
    using replace_edges_inv [OF assms(1), of ?r k] assms(2) by simp
  then show ?thesis by (simp add: start_generation_def Let_def graph_inv_def)
qed

lemma graph_step_inv:
  assumes "graph_inv g" "op_ok op"
  shows "\<exists>g'. graph_step tg op g = Some g' \<and> graph_inv g'"
proof (cases op)
  case (Op_Begin k deps)
  with assms show ?thesis
    by (auto simp: begin_task_def start_generation_inv update_record_inv split: sum.split option.split)
next
  case (Op_Complete k n hash)
  with assms show ?thesis by (auto simp: complete_task_def update_record_inv split: option.split)
next
  case (Op_Fail k n reason)
  with assms show ?thesis by (auto simp: fail_task_def update_record_inv split: option.split)
next
  case (Op_Drop k n)
  with assms show ?thesis by (auto simp: cancel_task_def Let_def intro!: update_record_inv split: option.split if_splits)
next
  case (Op_Lookup k deps hash)
  with assms show ?thesis by (auto simp: publish_check_def update_record_inv split: option.split)
next
  case (Op_Invalidate k reason)
  with assms(1) invalidate_result [OF assms(1), of tg k reason] show ?thesis
    by (cases "tg_enabled tg") (auto simp: cancelled_at_def invalidate_def)
next
  case (Op_Evict n)
  show ?thesis
  proof (cases "tg_enabled tg")
    case True
    with Op_Evict evict_to_bytes_result [OF assms(1), of tg n] show ?thesis by auto
  qed (use Op_Evict assms(1) in \<open>simp add: evict_to_bytes_def\<close>)
next
  case Op_Clear
  then show ?thesis
    by (auto simp: clear_graph_def empty_inner_def graph_inv_def edges_wf_def records_wf_def users_def dependents_of_def bt_get_def)
qed

lemma graph_run_inv: "graph_inv g \<Longrightarrow> list_all op_ok ops \<Longrightarrow> \<exists>g'. graph_run tg ops g = Some g' \<and> graph_inv g'"
proof (induction ops arbitrary: g)
  case (Cons op ops)
  then show ?case using graph_step_inv [of g op tg] by auto
qed simp

text \<open>C21. Whatever sections run, in whatever interleaving of builds, from a graph loaded from any manifest: every
  section ends, and afterwards the reverse edges are exactly the forward ones, read backwards. No dependent is
  lost, so an invalidation cannot miss one, and none is left over from an earlier generation or an evicted record.
\<close>

theorem reverse_edges_exact:
  assumes "manifest_ok stored" "list_all op_ok ops"
  shows "\<exists>g. graph_run tg ops (at_dir identity tg stored) = Some g \<and>
    (\<forall>d. dependents_of g d = {k. \<exists>r. bt_get (g_records g) k = Some r \<and> d \<in> dep_key ` rec_dependencies r})"
  using graph_run_inv [OF at_dir_inv [OF assms(1)] assms(2), of tg identity tg]
  by (auto simp: graph_inv_def users_def)

definition example_graph :: task_graph where
  "example_graph = \<lparr>tg_namespace = ''n'', tg_enabled = True\<rparr>"

definition example_key :: "artifact_kind \<Rightarrow> artifact_key" where
  "example_key kind = ArtifactKey kind ''n'' ''a''"

definition example_needs :: "artifact_kind \<Rightarrow> artifact_dependency set" where
  "example_needs kind = {\<lparr>dep_key = example_key kind, dep_hash = None\<rparr>}"

definition example_ops :: "graph_op list" where
  "example_ops = [Op_Begin (example_key Source) {}, Op_Begin (example_key Transform) (example_needs Source),
     Op_Complete (example_key Source) 1 ''h'']"

definition example_run :: "graph_op list \<Rightarrow> graph_inner" where
  "example_run ops = the (graph_run example_graph ops (at_dir ''i'' example_graph None))"

lemma example_run_ends:
  "list_all op_ok ops \<Longrightarrow> graph_run example_graph ops (at_dir ''i'' example_graph None) = Some (example_run ops)"
  using graph_run_inv [OF at_dir_inv, of None ops example_graph "''i''" example_graph]
  by (auto simp: example_run_def manifest_ok_def)

lemma example_ops_ok [simp]: "list_all op_ok example_ops" "manifest_ok None" "tg_enabled example_graph"
  by (simp_all add: example_ops_def example_needs_def manifest_ok_def example_graph_def)

theorem reverse_edges_exact_witness:
  "\<exists>g. graph_run example_graph (example_ops @ [Op_Evict 0]) (at_dir ''i'' example_graph None) = Some g \<and>
    (\<forall>d. dependents_of g d = {k. \<exists>r. bt_get (g_records g) k = Some r \<and> d \<in> dep_key ` rec_dependencies r})"
  by (rule reverse_edges_exact) simp_all

text \<open>Invalidation of an artifact ends; it reports the artifact and everything that uses it directly or through
  others, cancels exactly those records under a new generation, and leaves every other record as it was.
\<close>

theorem invalidate_exact:
  assumes "manifest_ok stored" "list_all op_ok ops" "graph_run tg ops (at_dir identity tg stored) = Some g" "tg_enabled tg"
  shows "\<exists>g'. invalidate tg k reason g = Some (affected (g_records g) k, g') \<and>
    (\<forall>j. bt_get (g_records g') j =
       (if j \<in> affected (g_records g) k then map_option (cancel_record reason) (bt_get (g_records g) j) else bt_get (g_records g) j))"
proof -
  have "graph_inv g" using graph_run_inv [OF at_dir_inv [OF assms(1)] assms(2), of tg identity tg] assms(3) by simp
  from invalidate_result [OF this assms(4), of k reason] show ?thesis by (auto simp: cancelled_at_def)
qed

theorem invalidate_exact_witness:
  "(\<exists>g'. invalidate example_graph (example_key Source) ''edit'' (example_run example_ops) =
      Some (affected (g_records (example_run example_ops)) (example_key Source), g')) \<and>
   map_option fst (invalidate example_graph (example_key Source) ''edit'' (example_run example_ops)) =
     Some {example_key Source, example_key Transform}"
proof
  show "\<exists>g'. invalidate example_graph (example_key Source) ''edit'' (example_run example_ops) =
      Some (affected (g_records (example_run example_ops)) (example_key Source), g')"
    using invalidate_exact [OF example_ops_ok(2,1) example_run_ends [OF example_ops_ok(1)] example_ops_ok(3), of "example_key Source" "''edit''"]
    by blast
qed code_simp

section \<open>Generations\<close>

definition past_generation :: "artifact_key \<Rightarrow> int \<Rightarrow> graph_inner \<Rightarrow> bool" where
  "past_generation j n g \<longleftrightarrow> (\<exists>r. bt_get (g_records g) j = Some r \<and> n < rec_generation r)"

fun keeps_records :: "graph_op \<Rightarrow> bool" where
  "keeps_records (Op_Evict _) = False"
| "keeps_records Op_Clear = False"
| "keeps_records _ = True"

lemma update_record_past:
  assumes "past_generation j n g" "\<And>r. n < rec_generation r \<Longrightarrow> n < rec_generation (f r)"
  shows "past_generation j n (update_record k f g)"
  using assms by (auto simp: past_generation_def update_record_get)

lemma replace_dependency_edges_records [simp]:
  "g_records (replace_dependency_edges k deps g) = g_records g" "g_epoch (replace_dependency_edges k deps g) = g_epoch g"
proof -
  have "g_records (fold (drop_edge k) ds g) = g_records g \<and> g_epoch (fold (drop_edge k) ds g) = g_epoch g" for ds g
    by (induction ds arbitrary: g) simp_all
  moreover have "g_records (fold (add_edge k) ds g) = g_records g \<and> g_epoch (fold (add_edge k) ds g) = g_epoch g" for ds g
    by (induction ds arbitrary: g) simp_all
  ultimately show "g_records (replace_dependency_edges k deps g) = g_records g" "g_epoch (replace_dependency_edges k deps g) = g_epoch g"
    by (simp_all add: replace_dependency_edges_def Let_def)
qed

lemma start_generation_get:
  "bt_get (g_records (snd (start_generation k deps n g))) =
     (bt_get (g_records g))(k \<mapsto> \<lparr>rec_key = k, rec_state = Building, rec_dependencies = deps, rec_content_hash = None,
        rec_reason = None, rec_generation = n, rec_last_touched = g_epoch g, rec_builders = 1\<rparr>)"
  by (simp add: start_generation_def Let_def bt_laws)

lemma graph_step_past:
  assumes "graph_inv g" "past_generation j n g" "n < U64_MAX" "keeps_records op" "graph_step tg op g = Some g'"
  shows "past_generation j n g'"
proof (cases op)
  case (Op_Begin k deps)
  then have g': "g' = snd (begin_task tg k deps g)" using assms(5) by simp
  show ?thesis
    using assms(2,3) unfolding g' begin_task_def
    by (auto simp: past_generation_def start_generation_get update_record_get sat_add_def split: sum.split option.splits)
next
  case (Op_Complete k m hash)
  with assms(2,5) show ?thesis by (auto simp: complete_task_def intro!: update_record_past split: option.splits if_splits)
next
  case (Op_Fail k m reason)
  with assms(2,5) show ?thesis by (auto simp: fail_task_def intro!: update_record_past split: option.splits if_splits)
next
  case (Op_Drop k m)
  with assms(2,5) show ?thesis by (auto simp: cancel_task_def Let_def intro!: update_record_past split: option.splits if_splits)
next
  case (Op_Lookup k deps hash)
  have "past_generation j n (h\<lparr>g_hits := m\<rparr>) = past_generation j n h" for h m by (simp add: past_generation_def)
  with Op_Lookup assms(2,5) show ?thesis
    by (auto simp: publish_check_def intro!: update_record_past split: option.splits if_splits)
next
  case (Op_Invalidate k reason)
  show ?thesis
  proof (cases "tg_enabled tg")
    case True
    with invalidate_result [OF assms(1) True, of k reason] Op_Invalidate assms(2,3,5) show ?thesis
      by (auto simp: past_generation_def cancelled_at_def sat_add_def)
  qed (use Op_Invalidate assms(2,5) in \<open>simp add: invalidate_def\<close>)
qed (use assms(4) in simp_all)

lemma graph_run_past:
  "graph_inv g \<Longrightarrow> past_generation j n g \<Longrightarrow> n < U64_MAX \<Longrightarrow> list_all keeps_records ops \<Longrightarrow> list_all op_ok ops \<Longrightarrow>
   graph_run tg ops g = Some g' \<Longrightarrow> past_generation j n g'"
proof (induction ops arbitrary: g)
  case (Cons op ops)
  then obtain g1 where g1: "graph_step tg op g = Some g1" by (auto split: option.splits)
  with graph_step_inv [of g op tg] graph_step_past [of g j n op tg g1] Cons show ?case by simp
qed simp

text \<open>C22. A token issued before an invalidation can no longer complete its artifact, or any artifact that was
  invalidated with it, whatever runs in between, as long as no record is evicted and the graph is not cleared:
  the completion is refused as stale and changes nothing.
\<close>

theorem stale_completion_refused:
  assumes "manifest_ok stored" "list_all op_ok ops" "graph_run tg ops (at_dir identity tg stored) = Some g" "tg_enabled tg"
    and "invalidate tg k reason g = Some (ks, g1)" "j \<in> ks" "bt_get (g_records g) j = Some r"
    and "n \<le> rec_generation r" "rec_generation r < U64_MAX"
    and "list_all op_ok later" "list_all keeps_records later"
  shows "\<exists>g2. graph_run tg later g1 = Some g2 \<and> complete_task tg j n hash g2 = (Inl (StaleCompletion (key_identity j)), g2)"
proof -
  have "graph_inv g" using graph_run_inv [OF at_dir_inv [OF assms(1)] assms(2), of tg identity tg] assms(3) by simp
  from invalidate_result [OF this assms(4), of k reason] assms(5-9)
  have inv: "graph_inv g1" and past: "past_generation j n g1" and "n < U64_MAX"
    by (auto simp: cancelled_at_def past_generation_def sat_add_def)
  moreover obtain g2 where g2: "graph_run tg later g1 = Some g2" using graph_run_inv [OF inv assms(10), of tg] by auto
  ultimately have "past_generation j n g2" using graph_run_past assms(10,11) by blast
  with assms(4) g2 show ?thesis by (auto simp: past_generation_def complete_task_def)
qed

theorem stale_completion_refused_witness:
  "\<exists>g1 g2. invalidate example_graph (example_key Source) ''edit'' (example_run example_ops) =
      Some ({example_key Source, example_key Transform}, g1) \<and>
    graph_run example_graph [Op_Begin (example_key Transform) {}] g1 = Some g2 \<and>
    complete_task example_graph (example_key Transform) 1 ''old'' g2 = (Inl (StaleCompletion ''a''), g2)"
proof -
  let ?g = "example_run example_ops"
  have "map_option fst (invalidate example_graph (example_key Source) ''edit'' ?g) = Some {example_key Source, example_key Transform}"
    by code_simp
  then obtain g1 where g1: "invalidate example_graph (example_key Source) ''edit'' ?g = Some ({example_key Source, example_key Transform}, g1)"
    by auto
  have "map_option rec_generation (bt_get (g_records ?g) (example_key Transform)) = Some 1" by code_simp
  then obtain r where r: "bt_get (g_records ?g) (example_key Transform) = Some r" "rec_generation r = 1" by auto
  have "\<exists>g2. graph_run example_graph [Op_Begin (example_key Transform) {}] g1 = Some g2 \<and>
      complete_task example_graph (example_key Transform) 1 ''old'' g2 = (Inl (StaleCompletion (key_identity (example_key Transform))), g2)"
    by (rule stale_completion_refused [OF example_ops_ok(2,1) example_run_ends [OF example_ops_ok(1)] example_ops_ok(3) g1 _ r(1)])
      (simp_all add: r U64_MAX_def)
  with g1 show ?thesis by (auto simp: example_key_def)
qed

text \<open>Eviction restarts the count of generations. A build of an artifact runs under generation 1; the artifact is
  invalidated, which releases its record; the record is evicted; the next build runs under generation 1 again. The
  first build's completion, refused as stale before the eviction, is now taken: the record is ready with the content
  hash of the outdated input.
\<close>

theorem eviction_reuses_generation:
  "map_option (\<lambda>g. fst (complete_task example_graph (example_key Source) 1 ''outdated'' g))
     (graph_run example_graph [Op_Begin (example_key Source) {}, Op_Invalidate (example_key Source) ''edit'']
       (at_dir ''i'' example_graph None)) = Some (Inl (StaleCompletion ''a'')) \<and>
   map_option (\<lambda>g. (fst (complete_task example_graph (example_key Source) 1 ''outdated'' g),
       map_option (\<lambda>r. (rec_state r, rec_content_hash r))
         (bt_get (g_records (snd (complete_task example_graph (example_key Source) 1 ''outdated'' g))) (example_key Source))))
     (graph_run example_graph [Op_Begin (example_key Source) {}, Op_Invalidate (example_key Source) ''edit'', Op_Evict 0,
         Op_Begin (example_key Source) {}]
       (at_dir ''i'' example_graph None)) = Some (Inr (), Some (Ready, Some ''outdated''))"
  by (intro conjI) code_simp+

text \<open>Eviction ends and is safe: a record that goes was idle, no build in flight needs it, directly or through
  others, and no record that stays depends on it; every other record stays as it was. It stops only when the bytes
  outside the needs of the builds fit the target or no record may go.
\<close>

theorem eviction_safe:
  assumes "manifest_ok stored" "list_all op_ok ops" "graph_run tg ops (at_dir identity tg stored) = Some g" "tg_enabled tg"
  shows "\<exists>n g'. evict_to_bytes tg target g = Some (n, g') \<and>
    (\<forall>k. bt_get (g_records g') k = bt_get (g_records g) k \<or>
       bt_get (g_records g') k = None \<and> k \<notin> needed g \<and> users (g_records g') k = {} \<and>
       (\<exists>r. bt_get (g_records g) k = Some r \<and> rec_state r \<noteq> Building \<and> rec_builders r = 0)) \<and>
    ((\<exists>b\<le>target. evictable_bytes g' = Some b) \<or> (\<forall>k r. bt_get (g_records g') k = Some r \<longrightarrow> \<not> is_evictable r g' k))"
proof -
  have "graph_inv g" using graph_run_inv [OF at_dir_inv [OF assms(1)] assms(2), of tg identity tg] assms(3) by simp
  from evict_to_bytes_result [OF this assms(4), of target] obtain n g' where
    g': "evict_to_bytes tg target g = Some (n, g')" "graph_inv g'" "evicted_to (needed g) g g'"
      "unprotected_bytes g' (needed g) \<le> target \<or> (\<forall>x. \<not> evictable_at g' x)"
    by blast
  have "evictable_bytes g' = Some (unprotected_bytes g' (needed g))"
    using protected_needed [OF g'(2)] needed_kept [OF g'(3)] by (simp add: evictable_bytes_def)
  moreover have "\<not> is_evictable r g' k" if "\<forall>x. \<not> evictable_at g' x" "bt_get (g_records g') k = Some r" for k r
    using that(1) [rule_format, of "(eviction_priority (rec_state r), k)"] that(2) by (simp add: evictable_at_def)
  ultimately show ?thesis using g' unfolding evicted_to_def by auto
qed

theorem eviction_safe_witness:
  "\<exists>n g'. evict_to_bytes example_graph 0 (example_run (example_ops @ [Op_Begin (example_key Emit) {}, Op_Complete (example_key Emit) 1 ''h''])) =
      Some (n, g') \<and> n = 1 \<and>
    (\<forall>k. bt_get (g_records g') k = bt_get (g_records (example_run (example_ops @ [Op_Begin (example_key Emit) {}, Op_Complete (example_key Emit) 1 ''h'']))) k \<or>
       bt_get (g_records g') k = None)"
proof -
  let ?ops = "example_ops @ [Op_Begin (example_key Emit) {}, Op_Complete (example_key Emit) 1 ''h'']"
  have ok: "list_all op_ok ?ops" by simp
  have "map_option fst (evict_to_bytes example_graph 0 (example_run ?ops)) = Some 1" by code_simp
  with eviction_safe [OF example_ops_ok(2) ok example_run_ends [OF ok] example_ops_ok(3), of 0] show ?thesis by fastforce
qed

section \<open>A save and the next load\<close>

definition retains :: "graph_inner \<Rightarrow> artifact_key \<Rightarrow> artifact_record \<Rightarrow> bool" where
  "retains g k r \<longleftrightarrow> max 0 (g_epoch g - rec_last_touched r) < RETENTION_EPOCHS \<or> \<not> is_evictable r g k"

text \<open>A record that another one needs is not evictable, so the closure over the retained records adds nothing.\<close>

lemma retained_closed:
  assumes "graph_inv g"
  shows "mark_loop (present_deps g) (retained_seed g) (set (retained_seed g)) =
    Some {k. \<exists>r. bt_get (g_records g) k = Some r \<and> retains g k r}"
proof -
  let ?S = "{k. \<exists>r. bt_get (g_records g) k = Some r \<and> retains g k r}"
  have wf: "records_wf (g_records g)" using assms by (simp add: graph_inv_def)
  have seed: "set (retained_seed g) = ?S"
    using wf by (force simp: retained_seed_def retains_def records_wf_def bt_get_in_set)
  have "d \<in> ?S" if "d \<in> set (present_deps g a)" for a d
  proof -
    from that wf obtain r s where "bt_get (g_records g) a = Some r" "d \<in> dep_key ` rec_dependencies r" "bt_get (g_records g) d = Some s"
      by (cases "bt_get (g_records g) a") (auto simp: present_deps_def record_deps_def records_wf_def bt_contains_key_def)
    moreover from this assms have "dependents_of g d \<noteq> {}" by (auto simp: graph_inv_def users_def)
    ultimately show ?thesis by (auto simp: retains_def is_evictable_def)
  qed
  then have "reach (present_deps g) k \<subseteq> ?S" if "k \<in> ?S" for k by (rule reach_least [OF that])
  moreover have "k \<in> reach (present_deps g) k" for k by simp
  ultimately have "(\<Union>k\<in>?S. reach (present_deps g) k) = ?S" by (intro equalityI UN_least) auto
  then have "(\<Union>k\<in>set (retained_seed g). reach (present_deps g) k) = ?S" unfolding seed .
  with closures_end(2) [OF wf, of "retained_seed g"] show ?thesis by simp
qed

lemma load_records_get:
  "distinct (map rec_key rs) \<Longrightarrow> (\<And>r. r \<in> set rs \<Longrightarrow> bt_get m (rec_key r) = None) \<Longrightarrow>
   \<exists>m'. load_records rs m = Some m' \<and> bt_get m' = bt_get m ++ map_of (map (\<lambda>r. (rec_key r, r)) rs)"
proof (induction rs arbitrary: m)
  case (Cons r rs)
  have "\<exists>m'. load_records rs (bt_insert (rec_key r) r m) = Some m' \<and>
      bt_get m' = bt_get (bt_insert (rec_key r) r m) ++ map_of (map (\<lambda>r. (rec_key r, r)) rs)"
  proof (rule Cons.IH)
    fix s
    assume s: "s \<in> set rs"
    then have "rec_key s \<in> rec_key ` set rs" by simp
    then have "rec_key s \<noteq> rec_key r" using Cons.prems(1) by auto
    with s Cons.prems(2) [of s] show "bt_get (bt_insert (rec_key r) r m) (rec_key s) = None" by (simp add: bt_laws)
  qed (use Cons.prems(1) in simp)
  moreover have "map_of (map (\<lambda>r. (rec_key r, r)) rs) (rec_key r) = None"
    using Cons.prems(1) by (auto simp: map_of_eq_None_iff)
  then have "bt_get (bt_insert (rec_key r) r m) ++ map_of (map (\<lambda>r. (rec_key r, r)) rs) =
      bt_get m ++ map_of (map (\<lambda>r. (rec_key r, r)) (r # rs))"
    by (auto simp: bt_laws map_add_def fun_eq_iff split: option.split)
  moreover have "load_records (r # rs) m = load_records rs (bt_insert (rec_key r) r m)"
    using Cons.prems(2) [of r] by (simp add: bt_contains_key_def)
  ultimately show ?case by (simp only:)
qed (simp add: bt_get_def)

lemma settle_record_twice: "settle_record a (settle_record b r) = settle_record b r"
  by (simp add: settle_record_def Let_def)

lemma rebuild_records: "g_records (rebuild_dependents g) = g_records g" "g_epoch (rebuild_dependents g) = g_epoch g"
proof -
  have "g_records (fold (add_edge k) ds g) = g_records g \<and> g_epoch (fold (add_edge k) ds g) = g_epoch g" for k ds g
    by (induction ds arbitrary: g) simp_all
  then have "g_records (fold (\<lambda>(k, r). fold (add_edge k) (dep_keys (rec_dependencies r))) xs g) = g_records g \<and>
      g_epoch (fold (\<lambda>(k, r). fold (add_edge k) (dep_keys (rec_dependencies r))) xs g) = g_epoch g" for xs g
    by (induction xs arbitrary: g) (simp_all add: case_prod_unfold)
  from this [of "g_records g" "g\<lparr>g_dependents := []\<rparr>"]
  show "g_records (rebuild_dependents g) = g_records g" "g_epoch (rebuild_dependents g) = g_epoch g"
    unfolding rebuild_dependents_def by simp_all
qed

lemma load_records_map:
  assumes "records_wf m" "\<And>r. rec_key (f r) = rec_key r"
  shows "\<exists>rs. load_records (map (f \<circ> snd) m) [] = Some rs \<and> (\<forall>k. bt_get rs k = map_option f (bt_get m k))"
proof -
  have wf: "bt_wf m" using assms(1) by (simp add: records_wf_def)
  have key: "rec_key (f (snd x)) = fst x" if "x \<in> set m" for x
  proof -
    obtain k r where "x = (k, r)" by fastforce
    with that assms show ?thesis by (simp add: records_wf_def bt_get_in_set [OF wf])
  qed
  then have names: "map rec_key (map (f \<circ> snd) m) = map fst m" by simp
  have "distinct (map fst m)" using wf by (auto simp: bt_wf_def strict_sorted_iff)
  moreover have empty: "bt_get [] ++ h = h" for h :: "artifact_key \<Rightarrow> artifact_record option"
    by (simp add: bt_get_def map_add_def fun_eq_iff split: option.split)
  ultimately obtain rs where rs: "load_records (map (f \<circ> snd) m) [] = Some rs"
    "bt_get rs = map_of (map (\<lambda>r. (rec_key r, r)) (map (f \<circ> snd) m))"
    using load_records_get [of "map (f \<circ> snd) m" "[]"] unfolding names empty by (auto simp: bt_get_def [of "[]"])
  have "map (\<lambda>r. (rec_key r, r)) (map (f \<circ> snd) m) = map (\<lambda>(k, r). (k, f r)) m"
    using key by (auto simp: case_prod_unfold)
  then have "bt_get rs = map_of (map (\<lambda>(k, r). (k, f r)) m)" using rs(2) by (simp only:)
  then have "bt_get rs k = map_option f (bt_get m k)" for k by (simp add: bt_get_def map_of_map)
  with rs(1) show ?thesis by blast
qed

text \<open>What a save writes, the next process loads: one epoch later, exactly the records touched within the last
  three epochs or held by a build or another record, settled so that none is being built, with the edges rebuilt.
  No record that stays loses a dependency that was there.
\<close>

theorem save_load:
  assumes "manifest_ok stored" "list_all op_ok ops" "graph_run tg ops (at_dir identity tg stored) = Some g" "tg_enabled tg"
  shows "\<exists>m. save identity tg g = Some (Some m) \<and> graph_inv (at_dir identity tg (Some m)) \<and>
    g_epoch (at_dir identity tg (Some m)) = sat_add (g_epoch g) 1 \<and>
    (\<forall>k. bt_get (g_records (at_dir identity tg (Some m))) k =
       (case bt_get (g_records g) k of
          None \<Rightarrow> None
        | Some r \<Rightarrow> if max 0 (g_epoch g - rec_last_touched r) < RETENTION_EPOCHS \<or> \<not> is_evictable r g k
                  then Some (settle_record ''artifact was active when graph was saved'' r) else None))"
proof -
  have inv: "graph_inv g" using graph_run_inv [OF at_dir_inv [OF assms(1)] assms(2), of tg identity tg] assms(3) by simp
  then have wf: "bt_wf (g_records g)" and keys: "bt_get (g_records g) k = Some r \<Longrightarrow> rec_key r = k \<and> finite (rec_dependencies r)" for k r
    by (auto simp: graph_inv_def records_wf_def)
  define settle where "settle = settle_record ''artifact was active when graph was saved''"
  define kept where "kept = filter (\<lambda>(k, r). retains g k r) (g_records g)"
  have keep: "(case x of (k, r) \<Rightarrow> \<exists>s. bt_get (g_records g) k = Some s \<and> retains g k s) \<longleftrightarrow> (case x of (k, r) \<Rightarrow> retains g k r)"
    if "x \<in> set (g_records g)" for x
  proof (cases x)
    case (Pair k r)
    with that have "bt_get (g_records g) k = Some r" by (simp add: bt_get_in_set [OF wf])
    with Pair show ?thesis by simp
  qed
  define m where "m = \<lparr>man_identity = identity, man_namespace = tg_namespace tg, man_epoch = g_epoch g,
    man_records = map (settle \<circ> snd) kept\<rparr>"
  have saved: "save identity tg g = Some (Some m)"
    using assms(4) filter_cong [where xs = "g_records g", OF refl keep]
    by (simp add: save_def retained_closed [OF inv] m_def kept_def settle_def)
  have "records_wf kept"
    using keys bt_wf_filter [OF wf] by (auto simp: kept_def records_wf_def bt_get_in_set wf)
  then obtain rs where rs: "load_records (man_records m) [] = Some rs" "\<And>k. bt_get rs k = map_option settle (bt_get kept k)"
    using load_records_map [of kept settle] by (auto simp: settle_def m_def)
  have get_kept: "bt_get kept k = (case bt_get (g_records g) k of None \<Rightarrow> None | Some r \<Rightarrow> if retains g k r then Some r else None)" for k
    using bt_get_retain [OF wf, of "retains g"] by (simp add: kept_def bt_retain_def)
  have loaded: "at_dir identity tg (Some m) =
      rebuild_dependents (empty_inner\<lparr>g_records := map (\<lambda>(k, r). (k, settle_record ''build process ended before artifact completion'' r)) rs,
        g_epoch := sat_add (g_epoch g) 1\<rparr>)"
    using assms(4) rs(1) by (simp add: at_dir_def load_manifest_def m_def)
  have "bt_get (g_records (at_dir identity tg (Some m))) k = map_option settle (bt_get kept k)" for k
    unfolding loaded rebuild_records using rs(2) [of k]
    by (simp add: bt_get_def map_of_map option.map_comp comp_def settle_def settle_record_twice)
  moreover have "manifest_ok (Some m)"
    using keys wf by (auto simp: manifest_ok_def list_all_iff m_def settle_def kept_def bt_get_in_set)
  moreover have "g_epoch (at_dir identity tg (Some m)) = sat_add (g_epoch g) 1"
    by (simp add: loaded rebuild_records)
  ultimately show ?thesis
    using saved at_dir_inv by (auto simp: get_kept settle_def retains_def split: option.split)
qed

theorem save_load_witness:
  "\<exists>m. save ''i'' example_graph (example_run example_ops) = Some (Some m) \<and>
    map_option rec_state (bt_get (g_records (at_dir ''i'' example_graph (Some m))) (example_key Transform)) = Some Cancelled \<and>
    map_option rec_state (bt_get (g_records (at_dir ''i'' example_graph (Some m))) (example_key Source)) = Some Ready"
proof -
  let ?g = "example_run example_ops"
  have run: "map_option (\<lambda>r. (rec_state r, rec_last_touched r)) (bt_get (g_records ?g) (example_key Transform)) = Some (Building, 1)"
    "map_option (\<lambda>r. (rec_state r, rec_last_touched r)) (bt_get (g_records ?g) (example_key Source)) = Some (Ready, 1)"
    "g_epoch ?g = 1"
    by code_simp+
  then obtain r s where rs: "bt_get (g_records ?g) (example_key Transform) = Some r" "bt_get (g_records ?g) (example_key Source) = Some s"
    "rec_state r = Building" "rec_last_touched r = 1" "rec_state s = Ready" "rec_last_touched s = 1" by auto
  from save_load [OF example_ops_ok(2,1) example_run_ends [OF example_ops_ok(1)] example_ops_ok(3)] obtain m where
    m: "save ''i'' example_graph ?g = Some (Some m)"
      "\<And>k. bt_get (g_records (at_dir ''i'' example_graph (Some m))) k =
       (case bt_get (g_records ?g) k of
          None \<Rightarrow> None
        | Some r \<Rightarrow> if max 0 (g_epoch ?g - rec_last_touched r) < RETENTION_EPOCHS \<or> \<not> is_evictable r ?g k
                  then Some (settle_record ''artifact was active when graph was saved'' r) else None)"
    by blast
  with rs run(3) show ?thesis by (auto simp: RETENTION_EPOCHS_def settle_record_def Let_def)
qed

end
