(* ===== verification/Source_Map.thy ===== *)
theory Source_Map
  imports Prelude "HOL-Library.Product_Lexorder"
begin

unbundle bit_operations_syntax

text \<open>
  Source maps, \<open>src/crates/ruvyxa_bundler/src/sourcemap.rs\<close>: the builder, the Base64-VLQ codec, the import of
  another tool's map, the reader of a finished map and the shift by generated lines.

  The integers of the source are \<open>u32\<close>, \<open>i64\<close> and \<open>u64\<close>; the model has integers and writes out where a value
  is cut to its width. JSON is not modelled: a document is a record of its fields. Paths are lists of components
  and shown with slashes.
\<close>

section \<open>Base64-VLQ\<close>

definition BASE64_CHARS :: string where
  "BASE64_CHARS = ''ABCDEFGHIJKLMNOPQRSTUVWXYZabcdefghijklmnopqrstuvwxyz0123456789+/''"

fun position :: "('a \<Rightarrow> bool) \<Rightarrow> 'a list \<Rightarrow> int option" where
  "position P [] = None"
| "position P (x # xs) = (if P x then Some 0 else map_option (\<lambda>i. i + 1) (position P xs))"

definition vlq_unsigned :: "int \<Rightarrow> int" where
  "vlq_unsigned v = take_bit 64 (if v < 0 then push_bit 1 (- v) OR 1 else push_bit 1 v)"

function vlq_digits :: "int \<Rightarrow> string" where
  "vlq_digits v =
     (let digit = v AND 31; rest = drop_bit 5 v in
      if 0 < rest then BASE64_CHARS ! nat (digit OR 32) # vlq_digits rest else [BASE64_CHARS ! nat digit])"
  by pat_completeness auto
termination
  by (relation "measure nat") (auto simp: drop_bit_eq_div)

declare vlq_digits.simps [simp del]

definition vlq_encode :: "int \<Rightarrow> string" where
  "vlq_encode v = vlq_digits (vlq_unsigned v)"

definition vlq_signed :: "int \<Rightarrow> int" where
  "vlq_signed u = (if u AND 1 = 1 then - drop_bit 1 u else drop_bit 1 u)"

text \<open>The loop of \<open>decode_vlq_segment\<close> with the values so far, the value being read and its shift.\<close>

fun vlq_bytes :: "string \<Rightarrow> int list \<Rightarrow> int \<Rightarrow> nat \<Rightarrow> int list option" where
  "vlq_bytes [] values u shift = (if shift = 0 then Some values else None)"
| "vlq_bytes (c # cs) values u shift =
     (case position (\<lambda>x. x = c) BASE64_CHARS of
        None \<Rightarrow> None
      | Some digit \<Rightarrow>
          (let u = u OR take_bit 64 (push_bit shift (digit AND 31)) in
           if digit AND 32 = 0 then vlq_bytes cs (values @ [vlq_signed u]) 0 0
           else if 60 < shift + 5 then None
           else vlq_bytes cs values u (shift + 5)))"

definition decode_vlq_segment :: "string \<Rightarrow> int list option" where
  "decode_vlq_segment s = vlq_bytes s [] 0 0"

section \<open>Mappings\<close>

record mapping =
  gen_line :: int
  gen_col :: int
  source_idx :: int
  orig_line :: int
  orig_col :: int

record encoder_state =
  prev_gen_line :: int
  prev_gen_col :: int
  prev_source :: int
  prev_orig_line :: int
  prev_orig_col :: int
  first_segment_on_line :: bool

definition encode_segment :: "encoder_state \<Rightarrow> mapping \<Rightarrow> string" where
  "encode_segment st m =
     vlq_encode (gen_col m - prev_gen_col st) @ vlq_encode (source_idx m - prev_source st) @
     vlq_encode (orig_line m - prev_orig_line st) @ vlq_encode (orig_col m - prev_orig_col st)"

definition next_lines :: "encoder_state \<Rightarrow> int \<Rightarrow> encoder_state" where
  "next_lines st line =
     (if prev_gen_line st < line
      then st\<lparr>prev_gen_line := line, prev_gen_col := 0, first_segment_on_line := True\<rparr> else st)"

definition after_mapping :: "encoder_state \<Rightarrow> mapping \<Rightarrow> encoder_state" where
  "after_mapping st m =
     st\<lparr>prev_gen_col := gen_col m, prev_source := source_idx m, prev_orig_line := orig_line m,
       prev_orig_col := orig_col m, first_segment_on_line := False\<rparr>"

fun encode_sorted :: "encoder_state \<Rightarrow> mapping list \<Rightarrow> string" where
  "encode_sorted st [] = []"
| "encode_sorted st (m # ms) =
     (let gap = replicate (nat (gen_line m - prev_gen_line st)) CHR '';'';
          st = next_lines st (gen_line m) in
      gap @ (if first_segment_on_line st then [] else '','') @ encode_segment st m @ encode_sorted (after_mapping st m) ms)"

definition encoder_start :: encoder_state where
  "encoder_start = \<lparr>prev_gen_line = 0, prev_gen_col = 0, prev_source = 0, prev_orig_line = 0, prev_orig_col = 0,
     first_segment_on_line = True\<rparr>"

definition encode_mappings :: "mapping list \<Rightarrow> string" where
  "encode_mappings ms = encode_sorted encoder_start (sort_key (\<lambda>m. (gen_line m, gen_col m)) ms)"

text \<open>The two nested loops over a mappings text: the lines, and the segments that are not empty.\<close>

fun over_segments :: "(string \<Rightarrow> 's \<Rightarrow> 's option) \<Rightarrow> string list \<Rightarrow> 's \<Rightarrow> 's option" where
  "over_segments body [] s = Some s"
| "over_segments body (x # xs) s = (case body x s of None \<Rightarrow> None | Some s \<Rightarrow> over_segments body xs s)"

definition line_segments :: "string \<Rightarrow> string list" where
  "line_segments line = filter (\<lambda>segment. segment \<noteq> []) (split_on CHR '','' line)"

fun over_lines :: "(int \<Rightarrow> string \<Rightarrow> 's \<Rightarrow> 's option) \<Rightarrow> ('s \<Rightarrow> 's) \<Rightarrow> int \<Rightarrow> string list \<Rightarrow> 's \<Rightarrow> 's option" where
  "over_lines body start n [] s = Some s"
| "over_lines body start n (line # lines) s =
     (case over_segments (body n) (line_segments line) (start s) of
        None \<Rightarrow> None
      | Some s \<Rightarrow> over_lines body start (n + 1) lines s)"

section \<open>The builder\<close>

record source_map_builder =
  smb_file :: string
  smb_sources :: "string list"
  smb_sources_content :: "string option list"
  smb_mappings :: "mapping list"
  smb_source_root :: path
  smb_names :: "string list"
  smb_ignore_list :: "int list"

definition new_builder :: "string \<Rightarrow> path \<Rightarrow> source_map_builder" where
  "new_builder f root = \<lparr>smb_file = f, smb_sources = [], smb_sources_content = [], smb_mappings = [],
     smb_source_root = root, smb_names = [], smb_ignore_list = []\<rparr>"

definition add_to_ignore_list :: "int \<Rightarrow> source_map_builder \<Rightarrow> source_map_builder" where
  "add_to_ignore_list i b =
     (if i \<in> set (smb_ignore_list b) then b else b\<lparr>smb_ignore_list := smb_ignore_list b @ [i]\<rparr>)"

definition relative_name :: "path \<Rightarrow> path \<Rightarrow> string" where
  "relative_name root p =
     (let rel = (if take (length root) p = root then drop (length root) p else p) in
      map (\<lambda>c. if c = CHR 0x5C then CHR ''/'' else c) (join_with ''/'' rel))"

definition add_source :: "path \<Rightarrow> string option \<Rightarrow> source_map_builder \<Rightarrow> int \<times> source_map_builder" where
  "add_source p content b =
     (let relative = relative_name (smb_source_root b) p in
      case position (\<lambda>s. s = relative) (smb_sources b) of
        Some idx \<Rightarrow> (take_bit 32 idx, b)
      | None \<Rightarrow>
          (take_bit 32 (int (length (smb_sources b))),
           b\<lparr>smb_sources := smb_sources b @ [relative], smb_sources_content := smb_sources_content b @ [content]\<rparr>))"

definition add_mapping :: "mapping \<Rightarrow> source_map_builder \<Rightarrow> source_map_builder" where
  "add_mapping m b = b\<lparr>smb_mappings := smb_mappings b @ [m]\<rparr>"

record input_source_map =
  in_version :: int
  in_source_root :: path
  in_sources :: "path list"
  in_sources_content :: "string option list"
  in_mappings :: string

text \<open>\<open>PathBuf::join\<close>: an absolute path, whose first component is empty here, replaces the root.\<close>

definition join_path :: "path \<Rightarrow> path \<Rightarrow> path" where
  "join_path root p = (if root = [] \<or> (p \<noteq> [] \<and> hd p = []) then p else root @ p)"

fun add_sources :: "path \<Rightarrow> path list \<Rightarrow> string option list \<Rightarrow> source_map_builder \<Rightarrow> int list \<times> source_map_builder" where
  "add_sources root [] contents b = ([], b)"
| "add_sources root (p # ps) contents b =
     (case add_source (join_path root p) (case contents of [] \<Rightarrow> None | c # _ \<Rightarrow> c) b of
        (i, b) \<Rightarrow> (case add_sources root ps (drop 1 contents) b of (is, b) \<Rightarrow> (i # is, b)))"

record import_state =
  im_column :: int
  im_source :: int
  im_line :: int
  im_orig_column :: int
  im_imported :: "mapping list"

definition import_start :: import_state where
  "import_start = \<lparr>im_column = 0, im_source = 0, im_line = 0, im_orig_column = 0, im_imported = []\<rparr>"

definition add_i64 :: "int \<Rightarrow> int \<Rightarrow> int" where
  "add_i64 a b = signed_take_bit 63 (a + b)"

definition import_segment :: "int list \<Rightarrow> int \<Rightarrow> int \<Rightarrow> string \<Rightarrow> import_state \<Rightarrow> import_state option" where
  "import_segment indices offset generated_line segment st =
     (case decode_vlq_segment segment of
        None \<Rightarrow> None
      | Some vs \<Rightarrow>
          if length vs < 4 then Some st
          else
            (let st = st\<lparr>im_column := add_i64 (im_column st) (vs ! 0), im_source := add_i64 (im_source st) (vs ! 1),
                   im_line := add_i64 (im_line st) (vs ! 2), im_orig_column := add_i64 (im_orig_column st) (vs ! 3)\<rparr> in
             if im_column st < 0 \<or> im_source st < 0 \<or> im_line st < 0 \<or> im_orig_column st < 0 then None
             else if int (length indices) \<le> im_source st then None
             else Some (st\<lparr>im_imported := im_imported st @
               [\<lparr>gen_line = take_bit 32 (offset + take_bit 32 generated_line), gen_col = take_bit 32 (im_column st),
                 source_idx = indices ! nat (im_source st), orig_line = take_bit 32 (im_line st),
                 orig_col = take_bit 32 (im_orig_column st)\<rparr>]\<rparr>)))"

definition import_mappings :: "int list \<Rightarrow> int \<Rightarrow> string \<Rightarrow> mapping list option" where
  "import_mappings indices offset s =
     map_option im_imported
       (over_lines (import_segment indices offset) (\<lambda>st. st\<lparr>im_column := 0\<rparr>) 0 (split_on CHR '';'' s) import_start)"

definition add_source_map_inner :: "input_source_map \<Rightarrow> int \<Rightarrow> source_map_builder \<Rightarrow> bool \<times> source_map_builder" where
  "add_source_map_inner doc offset b =
     (if in_version doc \<noteq> 3 \<or> in_sources doc = [] then (False, b)
      else
        (case add_sources (in_source_root doc) (in_sources doc) (in_sources_content doc) b of
           (indices, b) \<Rightarrow>
             (case import_mappings indices offset (in_mappings doc) of
                None \<Rightarrow> (False, b)
              | Some imported \<Rightarrow>
                  if imported = [] then (False, b)
                  else (True, b\<lparr>smb_mappings := smb_mappings b @ imported\<rparr>))))"

text \<open>A document that does not parse is \<open>None\<close>.\<close>

definition add_source_map :: "input_source_map option \<Rightarrow> int \<Rightarrow> source_map_builder \<Rightarrow> bool \<times> source_map_builder" where
  "add_source_map doc offset b =
     (case doc of
        None \<Rightarrow> (False, b)
      | Some doc \<Rightarrow> (case add_source_map_inner doc offset b of (ok, candidate) \<Rightarrow> if ok then (True, candidate) else (False, b)))"

record source_map_json =
  js_version :: int
  js_file :: string
  js_source_root :: string
  js_sources :: "string list"
  js_sources_content :: "string option list"
  js_names :: "string list"
  js_mappings :: string
  js_ignore_list :: "int list option"

definition to_json :: "source_map_builder \<Rightarrow> source_map_json" where
  "to_json b =
     \<lparr>js_version = 3, js_file = smb_file b, js_source_root = [], js_sources = smb_sources b,
      js_sources_content = smb_sources_content b, js_names = smb_names b, js_mappings = encode_mappings (smb_mappings b),
      js_ignore_list = (if smb_ignore_list b = [] then None else Some (sort (smb_ignore_list b)))\<rparr>"

text \<open>The text of a map: it parses as a document with a \<open>mappings\<close> string, or it does not.\<close>

datatype map_text = Map_Document source_map_json | Not_A_Map string

fun shift_generated_lines :: "map_text \<Rightarrow> nat \<Rightarrow> map_text option" where
  "shift_generated_lines t lines =
     (if lines = 0 then Some t
      else
        (case t of
           Not_A_Map _ \<Rightarrow> None
         | Map_Document doc \<Rightarrow> Some (Map_Document (doc\<lparr>js_mappings := replicate lines CHR '';'' @ js_mappings doc\<rparr>))))"

section \<open>The reader\<close>

record decoded_mapping =
  dm_line :: int
  dm_column :: int
  dm_source :: int
  dm_original_line :: int

record reader_state =
  rd_column :: int
  rd_source :: int
  rd_line :: int
  rd_decoded :: "decoded_mapping list"

text \<open>\<open>None\<close> is the panic of \<open>expect\<close>, and of the index into an empty list of values.\<close>

definition read_segment :: "int \<Rightarrow> string \<Rightarrow> reader_state \<Rightarrow> reader_state option" where
  "read_segment generated_line segment st =
     (case decode_vlq_segment segment of
        None \<Rightarrow> None
      | Some [] \<Rightarrow> None
      | Some (v # vs) \<Rightarrow>
          (let st = st\<lparr>rd_column := add_i64 (rd_column st) v\<rparr> in
           if length vs < 3 then Some st
           else
             (let st = st\<lparr>rd_source := add_i64 (rd_source st) (vs ! 0), rd_line := add_i64 (rd_line st) (vs ! 1)\<rparr> in
              if rd_column st < 0 \<or> rd_source st < 0 \<or> rd_line st < 0 then None
              else Some (st\<lparr>rd_decoded := rd_decoded st @
                [\<lparr>dm_line = generated_line, dm_column = rd_column st, dm_source = rd_source st, dm_original_line = rd_line st\<rparr>]\<rparr>))))"

definition reader_start :: reader_state where
  "reader_start = \<lparr>rd_column = 0, rd_source = 0, rd_line = 0, rd_decoded = []\<rparr>"

definition decode_mappings :: "string \<Rightarrow> decoded_mapping list option" where
  "decode_mappings s =
     map_option rd_decoded (over_lines read_segment (\<lambda>st. st\<lparr>rd_column := 0\<rparr>) 0 (split_on CHR '';'' s) reader_start)"

section \<open>The codec inverts\<close>

lemma base64_positions: "list_all (\<lambda>d. position (\<lambda>x. x = BASE64_CHARS ! d) BASE64_CHARS = Some (int d)) [0..<64]"
  by code_simp

lemma base64_position:
  assumes "0 \<le> d" "d < 64"
  shows "position (\<lambda>x. x = BASE64_CHARS ! nat d) BASE64_CHARS = Some d"
  using assms base64_positions by (auto simp: list_all_iff)

lemma base64_no_separator: "d < 64 \<Longrightarrow> BASE64_CHARS ! d \<notin> {CHR '','', CHR '';''}"
proof -
  have "list_all (\<lambda>d. BASE64_CHARS ! d \<notin> {CHR '','', CHR '';''}) [0..<64]" by code_simp
  then show "d < 64 \<Longrightarrow> BASE64_CHARS ! d \<notin> {CHR '','', CHR '';''}" by (simp add: list_all_iff)
qed

lemma low_bits: "(v::int) AND 31 = v mod 32" "drop_bit 5 (v::int) = v div 32"
  using take_bit_eq_mask [of 5 v] by (simp_all add: take_bit_eq_mod drop_bit_eq_div mask_eq_exp_minus_1)

lemma or_32: "0 \<le> d \<Longrightarrow> d < 32 \<Longrightarrow> (d::int) OR 32 = d + 32"
  using concat_bit_eq [of 5 d 1] concat_bit_def [of 5 d 1] by (simp add: push_bit_eq_mult take_bit_eq_mod)

lemma and_32: "0 \<le> (d::int) \<Longrightarrow> d < 32 \<Longrightarrow> d AND 32 = 0" "0 \<le> (d::int) \<Longrightarrow> d < 32 \<Longrightarrow> (d + 32) AND 32 \<noteq> 0"
proof -
  assume d: "0 \<le> d" "d < 32"
  have bit: "x AND 32 = 0 \<longleftrightarrow> \<not> bit x 5" for x :: int
    using and_exp_eq_0_iff_not_bit [of x 5] by simp
  have "take_bit 5 d = d" using d by (simp add: take_bit_eq_mod)
  then show "d AND 32 = 0" unfolding bit by (metis bit_take_bit_iff less_irrefl)
  have "(d + 32) div 2 ^ 5 = 1" using d by simp
  then show "(d + 32) AND 32 \<noteq> 0" unfolding bit by (simp add: bit_iff_odd)
qed

lemma or_shifted:
  fixes u d :: int
  assumes "0 \<le> u" "u < 2 ^ n" "0 \<le> d" "d * 2 ^ n < 2 ^ 64"
  shows "u OR take_bit 64 (push_bit n d) = u + d * 2 ^ n"
proof -
  have "take_bit 64 (push_bit n d) = push_bit n d"
    using assms by (intro take_bit_int_eq_self) (simp_all add: push_bit_eq_mult)
  moreover have "take_bit n u = u" using assms by (simp add: take_bit_eq_mod)
  ultimately show ?thesis
    using concat_bit_eq [of n u d] concat_bit_def [of n u d] by (simp add: push_bit_eq_mult)
qed

text \<open>Digits are read back above what has been read, as long as the value fits 64 bits.\<close>

lemma vlq_digits_read:
  assumes "0 \<le> v" "v * 2 ^ n < 2 ^ 64" "0 \<le> u" "u < 2 ^ n" "5 dvd n" "n \<le> 60"
  shows "vlq_bytes (vlq_digits v @ rest) values u n = vlq_bytes rest (values @ [vlq_signed (u + v * 2 ^ n)]) 0 0"
  using assms
proof (induction v arbitrary: u n rule: vlq_digits.induct)
  case (1 v)
  let ?d = "v mod 32" and ?w = "v div 32"
  have v: "v = ?d + 32 * ?w" by simp
  have d: "0 \<le> ?d" "?d < 32" by simp_all
  have "?d * 2 ^ n \<le> v * 2 ^ n" using "1.prems"(1) by (intro mult_right_mono zmod_le_nonneg_dividend) simp_all
  then have u': "u OR take_bit 64 (push_bit n ?d) = u + ?d * 2 ^ n"
    using or_shifted [of u n ?d] "1.prems"(2,3,4) d by linarith
  show ?case
  proof (cases "0 < ?w")
    case False
    then have "?w = 0" using "1.prems"(1) pos_imp_zdiv_nonneg_iff [of 32 v] by linarith
    then have "v = ?d" using v by linarith
    then have digits: "vlq_digits v = [BASE64_CHARS ! nat ?d]"
      using False by (subst vlq_digits.simps) (simp add: low_bits Let_def)
    show ?thesis
      using u' d \<open>v = ?d\<close> unfolding digits by (simp add: base64_position low_bits and_32 Let_def)
  next
    case True
    have digits: "vlq_digits v = BASE64_CHARS ! nat (?d + 32) # vlq_digits ?w"
      using True d by (subst vlq_digits.simps) (simp add: low_bits Let_def or_32)
    have "32 * 2 ^ n \<le> v * 2 ^ n" using v d True by (intro mult_right_mono) simp_all
    also have "\<dots> < 2 ^ 64" by (rule "1.prems"(2))
    finally have "(2::int) ^ (n + 5) < 2 ^ 64" by (simp only: power_add) simp
    then have "n + 5 < 64" by (rule power_less_imp_less_exp [rotated]) simp
    with "1.prems"(5,6) have n: "n + 5 \<le> 60" "5 dvd n + 5" by presburger+
    have w: "?w * 2 ^ (n + 5) \<le> v * 2 ^ n"
      using "1.prems"(1) by (simp add: power_add mult.assoc [symmetric] mult_right_mono)
    have bound: "u + ?d * 2 ^ n < 2 ^ (n + 5)"
    proof -
      have "?d * 2 ^ n \<le> 31 * 2 ^ n" using d by (intro mult_right_mono) simp_all
      then have "u + ?d * 2 ^ n < 2 ^ n + 31 * 2 ^ n" using "1.prems"(4) by (rule add_less_le_mono [rotated])
      also have "\<dots> = 2 ^ (n + 5)" by (simp add: power_add)
      finally show ?thesis .
    qed
    have "vlq_bytes (vlq_digits ?w @ rest) values (u + ?d * 2 ^ n) (n + 5) =
        vlq_bytes rest (values @ [vlq_signed (u + ?d * 2 ^ n + ?w * 2 ^ (n + 5))]) 0 0"
      using "1.IH" [OF refl refl, unfolded low_bits, OF True] True w n bound "1.prems"(2,3) d by simp
    moreover have "u + ?d * 2 ^ n + ?w * 2 ^ (n + 5) = u + v * 2 ^ n"
    proof -
      have "d * 2 ^ n + w * 2 ^ (n + 5) = (d + 32 * w) * 2 ^ n" for d w :: int
        by (simp add: power_add distrib_right)
      from this [of ?d ?w] v show ?thesis by (simp only: add.assoc)
    qed
    moreover have "(?d + 32) AND 31 = ?d" by (simp add: low_bits)
    ultimately show ?thesis
      using u' d n unfolding digits by (simp add: base64_position and_32 Let_def)
  qed
qed

lemma vlq_signed_unsigned:
  assumes "\<bar>v\<bar> < 2 ^ 62"
  shows "vlq_signed (vlq_unsigned v) = v" and "0 \<le> vlq_unsigned v" and "vlq_unsigned v < 2 ^ 64"
proof -
  have "(w * 2) OR 1 = w * 2 + 1" for w :: int by (simp add: or_one_eq)
  from this [of "- v"] have "- (v * 2) OR 1 = 1 - 2 * v" by simp
  moreover have "\<bar>2 * v\<bar> + 1 < 2 ^ 64" using assms by simp
  ultimately have u: "vlq_unsigned v = (if v < 0 then 2 * (- v) + 1 else 2 * v)"
    by (simp add: vlq_unsigned_def push_bit_eq_mult take_bit_eq_mod)
  then show "vlq_signed (vlq_unsigned v) = v"
    by (simp add: vlq_signed_def and_one_eq drop_bit_eq_div mod_2_eq_odd) presburger
  show "0 \<le> vlq_unsigned v" "vlq_unsigned v < 2 ^ 64"
    unfolding vlq_unsigned_def by (rule take_bit_nonnegative, rule take_bit_int_less_exp)
qed

lemma vlq_encode_read:
  "\<bar>v\<bar> < 2 ^ 62 \<Longrightarrow> vlq_bytes (vlq_encode v @ rest) values 0 0 = vlq_bytes rest (values @ [v]) 0 0"
  using vlq_digits_read [of "vlq_unsigned v" 0 0 rest "values"] vlq_signed_unsigned [of v]
  by (simp add: vlq_encode_def)

lemma vlq_digits_chars: "0 \<le> v \<Longrightarrow> vlq_digits v \<noteq> [] \<and> CHR '','' \<notin> set (vlq_digits v) \<and> CHR '';'' \<notin> set (vlq_digits v)"
proof (induction v rule: vlq_digits.induct)
  case (1 v)
  have d: "0 \<le> v mod 32" "v mod 32 < 32" by simp_all
  then have "BASE64_CHARS ! nat (v mod 32) \<notin> {CHR '','', CHR '';''}" "BASE64_CHARS ! nat (v mod 32 + 32) \<notin> {CHR '','', CHR '';''}"
    by (intro base64_no_separator; linarith)+
  with 1 d show ?case by (subst (1 2 3) vlq_digits.simps) (auto simp: low_bits or_32 Let_def)
qed

lemma vlq_encode_chars: "vlq_encode v \<noteq> [] \<and> CHR '','' \<notin> set (vlq_encode v) \<and> CHR '';'' \<notin> set (vlq_encode v)"
  unfolding vlq_encode_def by (rule vlq_digits_chars) (simp add: vlq_unsigned_def)

section \<open>Reading an encoded text\<close>

text \<open>The rest of a text from the middle of a line on.\<close>

definition read_rest :: "(int \<Rightarrow> string \<Rightarrow> 's \<Rightarrow> 's option) \<Rightarrow> ('s \<Rightarrow> 's) \<Rightarrow> int \<Rightarrow> string \<Rightarrow> 's \<Rightarrow> 's option" where
  "read_rest body start n s st =
     (case split_on CHR '';'' s of
        [] \<Rightarrow> None
      | line # lines \<Rightarrow>
          Option.bind (over_segments (body n) (line_segments line) st) (over_lines body start (n + 1) lines))"

lemma over_lines_rest: "over_lines body start n (split_on CHR '';'' s) st = read_rest body start n s (start st)"
  by (cases "split_on CHR '';'' s") (auto simp: read_rest_def Option.bind_eq_Some_conv split: option.split)

lemma read_rest_Nil: "read_rest body start n [] st = Some st"
  by (simp add: read_rest_def line_segments_def)

lemma read_rest_semicolon: "read_rest body start n (CHR '';'' # s) st = read_rest body start (n + 1) s (start st)"
proof -
  have "read_rest body start n (CHR '';'' # s) st = over_lines body start (n + 1) (split_on CHR '';'' s) st"
    by (simp add: read_rest_def line_segments_def)
  then show ?thesis by (simp only: over_lines_rest)
qed

lemma read_rest_semicolons:
  "read_rest body start n (replicate k CHR '';'' @ s) st =
     (if k = 0 then read_rest body start n s st else read_rest body start (n + int k) s ((start ^^ k) st))"
proof (induction k arbitrary: n st)
  case (Suc k)
  then show ?case
    by (simp add: read_rest_semicolon funpow_Suc_right algebra_simps del: funpow.simps)
qed simp

lemma read_rest_comma: "read_rest body start n (CHR '','' # s) st = read_rest body start n s st"
proof -
  obtain line lines where s: "split_on CHR '';'' s = line # lines" by (cases "split_on CHR '';'' s") auto
  moreover have "line_segments (CHR '','' # line) = line_segments line" by (simp add: line_segments_def split: list.split)
  ultimately show ?thesis by (simp add: read_rest_def)
qed

lemma read_rest_segment:
  assumes "seg \<noteq> []" "CHR '','' \<notin> set seg" "CHR '';'' \<notin> set seg" "s = [] \<or> hd s \<in> {CHR '','', CHR '';''}"
  shows "read_rest body start n (seg @ s) st = Option.bind (body n seg st) (read_rest body start n s)"
proof -
  have one: "line_segments seg = [seg]" using assms(1,2) by (simp add: line_segments_def split_on_free)
  consider "s = []" | t where "s = CHR '','' # t" | t where "s = CHR '';'' # t" using assms(4) by (cases s) auto
  then show ?thesis
  proof cases
    case 1
    with assms(3) one show ?thesis
      by (auto simp: read_rest_def split_on_free line_segments_def split: option.split)
  next
    case (2 t)
    obtain line lines where t: "split_on CHR '';'' t = line # lines" by (cases "split_on CHR '';'' t") auto
    have "split_on CHR '';'' (seg @ CHR '','' # t) = (seg @ CHR '','' # line) # lines"
    proof -
      have "split_on c (w @ u) = (w @ hd (split_on c u)) # tl (split_on c u)" if "c \<notin> set w" for c w u
        using that by (induction w) (auto split: list.split)
      from this [OF assms(3), of "CHR '','' # t"] t show ?thesis by simp
    qed
    moreover have "line_segments (seg @ CHR '','' # line) = seg # line_segments line"
      using assms(1,2) by (simp add: line_segments_def split_on_append)
    ultimately show ?thesis
      using 2 t read_rest_comma [of body start n t]
      by (cases "body n seg st") (simp_all add: read_rest_def [of body start n "seg @ CHR '','' # t"] read_rest_def [of body start n t])
  next
    case (3 t)
    with assms(3) one show ?thesis
      by (cases "body n seg st") (simp_all add: read_rest_def split_on_append read_rest_semicolon over_lines_rest line_segments_def)
  qed
qed

lemma encode_sorted_start:
  "\<not> first_segment_on_line st \<Longrightarrow> encode_sorted st ms = [] \<or> hd (encode_sorted st ms) \<in> {CHR '','', CHR '';''}"
  by (cases ms) (auto simp: Let_def next_lines_def hd_append)

lemma encode_segment_chars:
  "encode_segment st m \<noteq> [] \<and> CHR '','' \<notin> set (encode_segment st m) \<and> CHR '';'' \<notin> set (encode_segment st m)"
  using vlq_encode_chars by (simp add: encode_segment_def)

definition mapping_ok :: "mapping \<Rightarrow> bool" where
  "mapping_ok m \<longleftrightarrow>
     gen_line m \<in> {0..<2 ^ 32} \<and> gen_col m \<in> {0..<2 ^ 32} \<and> source_idx m \<in> {0..<2 ^ 32} \<and>
     orig_line m \<in> {0..<2 ^ 32} \<and> orig_col m \<in> {0..<2 ^ 32}"

definition encoder_ok :: "encoder_state \<Rightarrow> bool" where
  "encoder_ok st \<longleftrightarrow>
     prev_gen_col st \<in> {0..<2 ^ 32} \<and> prev_source st \<in> {0..<2 ^ 32} \<and> prev_orig_line st \<in> {0..<2 ^ 32} \<and> prev_orig_col st \<in> {0..<2 ^ 32}"

lemma encode_segment_decodes:
  assumes "mapping_ok m" "encoder_ok st"
  shows "decode_vlq_segment (encode_segment st m) =
    Some [gen_col m - prev_gen_col st, source_idx m - prev_source st, orig_line m - prev_orig_line st, orig_col m - prev_orig_col st]"
proof -
  have "\<bar>gen_col m - prev_gen_col st\<bar> < 2 ^ 62" "\<bar>source_idx m - prev_source st\<bar> < 2 ^ 62"
    "\<bar>orig_line m - prev_orig_line st\<bar> < 2 ^ 62" "\<bar>orig_col m - prev_orig_col st\<bar> < 2 ^ 62"
    using assms by (auto simp: mapping_ok_def encoder_ok_def)
  then show ?thesis
    using vlq_encode_read [where rest = "[]"] by (simp add: decode_vlq_segment_def encode_segment_def vlq_encode_read)
qed

text \<open>
  One step of any reader over an encoded text: the separators of the next mapping take the reader to its line,
  resetting the column when the line changes, and then the body sees the segment.
\<close>

lemma read_encoded_step:
  assumes "prev_gen_line st \<le> gen_line m" "\<And>s. start (start s) = start s"
  shows "read_rest body start (prev_gen_line st) (encode_sorted st (m # ms)) s =
    Option.bind (body (gen_line m) (encode_segment (next_lines st (gen_line m)) m) (if prev_gen_line st < gen_line m then start s else s))
      (read_rest body start (gen_line m) (encode_sorted (after_mapping (next_lines st (gen_line m)) m) ms))"
proof -
  let ?st = "next_lines st (gen_line m)"
  let ?tail = "encode_sorted (after_mapping ?st m) ms"
  have twice: "(start ^^ Suc k) s = start s" for k
    by (induction k) (simp_all add: assms(2))
  have seg: "read_rest body start (gen_line m) (encode_segment ?st m @ ?tail) s' =
      Option.bind (body (gen_line m) (encode_segment ?st m) s') (read_rest body start (gen_line m) ?tail)" for s'
    using encode_segment_chars [of ?st m] encode_sorted_start [of "after_mapping ?st m" ms]
    by (intro read_rest_segment) (simp_all add: after_mapping_def)
  have comma: "read_rest body start (gen_line m) ((if first_segment_on_line ?st then [] else '','') @ encode_segment ?st m @ ?tail) s' =
      read_rest body start (gen_line m) (encode_segment ?st m @ ?tail) s'" for s'
    by (simp add: read_rest_comma)
  show ?thesis
  proof (cases "prev_gen_line st < gen_line m")
    case True
    define k where "k = nat (gen_line m - prev_gen_line st) - 1"
    with True have k: "nat (gen_line m - prev_gen_line st) = Suc k" "prev_gen_line st + int (Suc k) = gen_line m" by simp_all
    show ?thesis
      using True unfolding encode_sorted.simps Let_def k(1) read_rest_semicolons k(2) comma seg twice by simp
  next
    case False
    with assms(1) have "prev_gen_line st = gen_line m" by simp
    then show ?thesis
      using False unfolding encode_sorted.simps Let_def by (simp add: read_rest_comma seg)
  qed
qed

lemma add_i64_delta: "a \<in> {0..<2 ^ 32} \<Longrightarrow> b \<in> {0..<2 ^ 32} \<Longrightarrow> add_i64 a (b - a) = b"
  by (simp add: add_i64_def signed_take_bit_int_eq_self)

lemma after_ok: "mapping_ok m \<Longrightarrow> encoder_ok (after_mapping st m)"
  by (simp add: mapping_ok_def encoder_ok_def after_mapping_def)

lemma next_lines_ok: "encoder_ok st \<Longrightarrow> encoder_ok (next_lines st n)"
  by (simp add: encoder_ok_def next_lines_def)

lemma next_lines_line [simp]:
  "prev_gen_line st \<le> n \<Longrightarrow> prev_gen_line (after_mapping (next_lines st n) m) = n"
  by (simp add: next_lines_def after_mapping_def)

definition placed :: "int list \<Rightarrow> int \<Rightarrow> mapping \<Rightarrow> mapping" where
  "placed indices offset m = m\<lparr>gen_line := take_bit 32 (offset + gen_line m), source_idx := indices ! nat (source_idx m)\<rparr>"

definition import_agrees :: "encoder_state \<Rightarrow> import_state \<Rightarrow> bool" where
  "import_agrees st s \<longleftrightarrow>
     im_column s = prev_gen_col st \<and> im_source s = prev_source st \<and> im_line s = prev_orig_line st \<and> im_orig_column s = prev_orig_col st"

lemma import_segment_step:
  assumes "mapping_ok m" "encoder_ok st" "import_agrees st s" "source_idx m < int (length indices)"
  shows "import_segment indices offset (gen_line m) (encode_segment st m) s =
    Some \<lparr>im_column = gen_col m, im_source = source_idx m, im_line = orig_line m, im_orig_column = orig_col m,
      im_imported = im_imported s @ [placed indices offset m]\<rparr>"
proof -
  have "add_i64 (im_column s) (gen_col m - prev_gen_col st) = gen_col m" "add_i64 (im_source s) (source_idx m - prev_source st) = source_idx m"
    "add_i64 (im_line s) (orig_line m - prev_orig_line st) = orig_line m" "add_i64 (im_orig_column s) (orig_col m - prev_orig_col st) = orig_col m"
    using assms(1-3) by (simp_all add: import_agrees_def add_i64_delta mapping_ok_def encoder_ok_def)
  with assms(1,4) encode_segment_decodes [OF assms(1,2)] show ?thesis
    by (cases m) (simp add: import_segment_def Let_def placed_def mapping_ok_def take_bit_int_eq_self)
qed

lemma import_encoded:
  assumes "sorted (map gen_line ms)" "list_all mapping_ok ms" "list_all (\<lambda>m. source_idx m < int (length indices)) ms"
    and "list_all (\<lambda>m. prev_gen_line st \<le> gen_line m) ms" "encoder_ok st" "import_agrees st s"
  shows "map_option im_imported
      (read_rest (import_segment indices offset) (\<lambda>s. s\<lparr>im_column := 0\<rparr>) (prev_gen_line st) (encode_sorted st ms) s) =
    Some (im_imported s @ map (placed indices offset) ms)"
  using assms
proof (induction ms arbitrary: st s)
  case (Cons m ms)
  let ?st = "next_lines st (gen_line m)" and ?s = "if prev_gen_line st < gen_line m then s\<lparr>im_column := 0\<rparr> else s"
  let ?s1 = "\<lparr>im_column = gen_col m, im_source = source_idx m, im_line = orig_line m, im_orig_column = orig_col m,
      im_imported = im_imported ?s @ [placed indices offset m]\<rparr>"
  have le: "prev_gen_line st \<le> gen_line m" using Cons.prems(4) by simp
  have "import_agrees ?st ?s" using Cons.prems(6) by (simp add: import_agrees_def next_lines_def)
  then have step: "import_segment indices offset (gen_line m) (encode_segment ?st m) ?s = Some ?s1"
    using Cons.prems(2,3,5) by (intro import_segment_step) (simp_all add: next_lines_ok)
  have "map_option im_imported
      (read_rest (import_segment indices offset) (\<lambda>s. s\<lparr>im_column := 0\<rparr>) (prev_gen_line (after_mapping ?st m)) (encode_sorted (after_mapping ?st m) ms) ?s1) =
    Some (im_imported ?s1 @ map (placed indices offset) ms)"
  proof (rule Cons.IH)
    show "import_agrees (after_mapping ?st m) ?s1" by (simp add: import_agrees_def after_mapping_def)
    show "list_all (\<lambda>m'. prev_gen_line (after_mapping ?st m) \<le> gen_line m') ms"
      using Cons.prems(1) le by (simp add: list_all_iff)
  qed (use Cons.prems in \<open>simp_all add: after_ok\<close>)
  with step le show ?case
    by (subst read_encoded_step) (simp_all split: if_splits)
qed (simp add: read_rest_Nil)

lemma sorted_lines: "sorted (map gen_line (sort_key (\<lambda>m. (gen_line m, gen_col m)) ms))"
proof -
  have "sorted (map (\<lambda>m. (gen_line m, gen_col m)) (sort_key (\<lambda>m. (gen_line m, gen_col m)) ms))" by (rule sorted_sort_key)
  then show ?thesis by (auto simp: sorted_map less_eq_prod_def elim!: sorted_wrt_mono_rel [rotated])
qed

lemma encoder_start_ok: "encoder_ok encoder_start" "prev_gen_line encoder_start = 0"
  by (simp_all add: encoder_ok_def encoder_start_def)

lemma import_mappings_encoded:
  assumes "list_all mapping_ok ms" "list_all (\<lambda>m. source_idx m < int (length indices)) ms"
  shows "import_mappings indices offset (encode_mappings ms) =
    Some (map (placed indices offset) (sort_key (\<lambda>m. (gen_line m, gen_col m)) ms))"
proof -
  let ?ms = "sort_key (\<lambda>m. (gen_line m, gen_col m)) ms"
  have "list_all mapping_ok ?ms" "list_all (\<lambda>m. source_idx m < int (length indices)) ?ms" using assms by (simp_all add: list_all_iff)
  moreover from this(1) have "list_all (\<lambda>m. prev_gen_line encoder_start \<le> gen_line m) ?ms"
    by (auto simp: list_all_iff mapping_ok_def encoder_start_def)
  moreover have "import_agrees encoder_start (import_start\<lparr>im_column := 0\<rparr>)" by (simp add: import_agrees_def encoder_start_def import_start_def)
  ultimately have "map_option im_imported (read_rest (import_segment indices offset) (\<lambda>s. s\<lparr>im_column := 0\<rparr>) (prev_gen_line encoder_start)
      (encode_sorted encoder_start ?ms) (import_start\<lparr>im_column := 0\<rparr>)) = Some (im_imported (import_start\<lparr>im_column := 0\<rparr>) @ map (placed indices offset) ?ms)"
    by (intro import_encoded sorted_lines) (simp_all add: encoder_start_ok)
  then show ?thesis
    unfolding import_mappings_def encode_mappings_def over_lines_rest by (simp add: encoder_start_ok import_start_def)
qed

section \<open>The reader and the shift\<close>

lemma over_lines_base: "over_lines body start (k + n) lines s = over_lines (\<lambda>n. body (k + n)) start n lines s"
  by (induction lines arbitrary: n s) (auto simp: add.assoc split: option.split)

lemma read_rest_base: "read_rest body start (k + n) s st = read_rest (\<lambda>n. body (k + n)) start n s st"
proof -
  have "over_lines body start (k + n + 1) lines = over_lines (\<lambda>n. body (k + n)) start (n + 1) lines" for lines
    using over_lines_base [of body start k "n + 1" lines] by (simp add: add.assoc fun_eq_iff)
  then show ?thesis by (simp add: read_rest_def split: list.split)
qed

definition reader_agrees :: "encoder_state \<Rightarrow> reader_state \<Rightarrow> bool" where
  "reader_agrees st s \<longleftrightarrow> rd_column s = prev_gen_col st \<and> rd_source s = prev_source st \<and> rd_line s = prev_orig_line st"

definition decoded_at :: "int \<Rightarrow> mapping \<Rightarrow> decoded_mapping" where
  "decoded_at k m = \<lparr>dm_line = k + gen_line m, dm_column = gen_col m, dm_source = source_idx m, dm_original_line = orig_line m\<rparr>"

lemma read_segment_step:
  assumes "mapping_ok m" "encoder_ok st" "reader_agrees st s"
  shows "read_segment (k + gen_line m) (encode_segment st m) s =
    Some \<lparr>rd_column = gen_col m, rd_source = source_idx m, rd_line = orig_line m, rd_decoded = rd_decoded s @ [decoded_at k m]\<rparr>"
proof -
  have "add_i64 (rd_column s) (gen_col m - prev_gen_col st) = gen_col m" "add_i64 (rd_source s) (source_idx m - prev_source st) = source_idx m"
    "add_i64 (rd_line s) (orig_line m - prev_orig_line st) = orig_line m"
    using assms by (simp_all add: reader_agrees_def add_i64_delta mapping_ok_def encoder_ok_def)
  with assms(1) encode_segment_decodes [OF assms(1,2)] show ?thesis
    by (simp add: read_segment_def Let_def decoded_at_def mapping_ok_def)
qed

lemma read_encoded:
  assumes "sorted (map gen_line ms)" "list_all mapping_ok ms" "list_all (\<lambda>m. prev_gen_line st \<le> gen_line m) ms"
    and "encoder_ok st" "reader_agrees st s"
  shows "map_option rd_decoded
      (read_rest (\<lambda>n. read_segment (k + n)) (\<lambda>s. s\<lparr>rd_column := 0\<rparr>) (prev_gen_line st) (encode_sorted st ms) s) =
    Some (rd_decoded s @ map (decoded_at k) ms)"
  using assms
proof (induction ms arbitrary: st s)
  case (Cons m ms)
  let ?st = "next_lines st (gen_line m)" and ?s = "if prev_gen_line st < gen_line m then s\<lparr>rd_column := 0\<rparr> else s"
  let ?s1 = "\<lparr>rd_column = gen_col m, rd_source = source_idx m, rd_line = orig_line m, rd_decoded = rd_decoded ?s @ [decoded_at k m]\<rparr>"
  have le: "prev_gen_line st \<le> gen_line m" using Cons.prems(3) by simp
  have "reader_agrees ?st ?s" using Cons.prems(5) by (simp add: reader_agrees_def next_lines_def)
  then have step: "read_segment (k + gen_line m) (encode_segment ?st m) ?s = Some ?s1"
    using Cons.prems(2,4) by (intro read_segment_step) (simp_all add: next_lines_ok)
  have "map_option rd_decoded
      (read_rest (\<lambda>n. read_segment (k + n)) (\<lambda>s. s\<lparr>rd_column := 0\<rparr>) (prev_gen_line (after_mapping ?st m)) (encode_sorted (after_mapping ?st m) ms) ?s1) =
    Some (rd_decoded ?s1 @ map (decoded_at k) ms)"
  proof (rule Cons.IH)
    show "reader_agrees (after_mapping ?st m) ?s1" by (simp add: reader_agrees_def after_mapping_def)
    show "list_all (\<lambda>m'. prev_gen_line (after_mapping ?st m) \<le> gen_line m') ms"
      using Cons.prems(1) le by (simp add: list_all_iff)
  qed (use Cons.prems in \<open>simp_all add: after_ok\<close>)
  with step le show ?case
    by (subst read_encoded_step) (simp_all split: if_splits)
qed (simp add: read_rest_Nil)

lemma decode_shifted:
  assumes "list_all mapping_ok ms"
  shows "decode_mappings (replicate k CHR '';'' @ encode_mappings ms) =
    Some (map (decoded_at (int k)) (sort_key (\<lambda>m. (gen_line m, gen_col m)) ms))"
proof -
  let ?ms = "sort_key (\<lambda>m. (gen_line m, gen_col m)) ms" and ?start = "\<lambda>s. s\<lparr>rd_column := 0\<rparr>"
  have start: "(?start ^^ n) (?start reader_start) = reader_start" for n
    by (induction n) (simp_all add: reader_start_def)
  have "list_all mapping_ok ?ms" using assms by (simp add: list_all_iff)
  moreover from this have "list_all (\<lambda>m. prev_gen_line encoder_start \<le> gen_line m) ?ms"
    by (auto simp: list_all_iff mapping_ok_def encoder_start_def)
  moreover have "reader_agrees encoder_start reader_start" by (simp add: reader_agrees_def encoder_start_def reader_start_def)
  ultimately have "map_option rd_decoded (read_rest (\<lambda>n. read_segment (int k + n)) ?start (prev_gen_line encoder_start)
      (encode_sorted encoder_start ?ms) reader_start) = Some (rd_decoded reader_start @ map (decoded_at (int k)) ?ms)"
    by (intro read_encoded sorted_lines) (simp_all add: encoder_start_ok)
  then have "map_option rd_decoded (read_rest read_segment ?start (int k) (encode_mappings ms) reader_start) =
      Some (map (decoded_at (int k)) ?ms)"
    using read_rest_base [of read_segment ?start "int k" 0 "encode_mappings ms" reader_start]
    by (simp add: encode_mappings_def encoder_start_ok reader_start_def)
  moreover have "decode_mappings (replicate k CHR '';'' @ encode_mappings ms) =
      map_option rd_decoded (read_rest read_segment ?start (int k) (encode_mappings ms) reader_start)"
    using start [of 0] start [of k] unfolding decode_mappings_def over_lines_rest read_rest_semicolons by simp
  ultimately show ?thesis by simp
qed

section \<open>Documents\<close>

definition builder_inv :: "source_map_builder \<Rightarrow> bool" where
  "builder_inv b \<longleftrightarrow>
     distinct (smb_sources b) \<and> length (smb_sources_content b) = length (smb_sources b) \<and> int (length (smb_sources b)) < 2 ^ 32 \<and>
     (\<forall>s\<in>set (smb_sources b). CHR 0x5C \<notin> set s) \<and>
     list_all mapping_ok (smb_mappings b) \<and> list_all (\<lambda>m. source_idx m < int (length (smb_sources b))) (smb_mappings b)"

text \<open>The document another build reads: its sources are paths again.\<close>

definition input_of :: "source_map_json \<Rightarrow> input_source_map" where
  "input_of d = \<lparr>in_version = js_version d, in_source_root = [], in_sources = map (split_on CHR ''/'') (js_sources d),
     in_sources_content = js_sources_content d, in_mappings = js_mappings d\<rparr>"

lemma position_None: "position P xs = None \<longleftrightarrow> (\<forall>x\<in>set xs. \<not> P x)"
  by (induction xs) auto

lemma position_bound: "position P xs = Some i \<Longrightarrow> 0 \<le> i \<and> i < int (length xs)"
  by (induction xs arbitrary: i) (auto split: if_splits)

lemma relative_name_id: "CHR 0x5C \<notin> set s \<Longrightarrow> relative_name [] (split_on CHR ''/'' s) = s"
  by (auto simp: relative_name_def Let_def intro!: map_idI)

lemma add_sources_fresh:
  assumes "smb_source_root c = []" "distinct (smb_sources c @ ss)" "length cs = length ss" "\<forall>s\<in>set ss. CHR 0x5C \<notin> set s"
    and "int (length (smb_sources c)) + int (length ss) < 2 ^ 32"
  shows "add_sources [] (map (split_on CHR ''/'') ss) cs c =
    (map int [length (smb_sources c)..<length (smb_sources c) + length ss],
     c\<lparr>smb_sources := smb_sources c @ ss, smb_sources_content := smb_sources_content c @ cs\<rparr>)"
  using assms
proof (induction ss arbitrary: cs c)
  case (Cons s ss)
  obtain d ds where cs: "cs = d # ds" using Cons.prems(3) by (cases cs) auto
  let ?c = "c\<lparr>smb_sources := smb_sources c @ [s], smb_sources_content := smb_sources_content c @ [d]\<rparr>"
  have none: "position (\<lambda>x. x = s) (smb_sources c) = None" using Cons.prems(2) by (auto simp: position_None)
  have small: "int (length (smb_sources c)) < 2 ^ 32" using Cons.prems(5) by simp
  have "add_source (split_on CHR ''/'' s) d c = (int (length (smb_sources c)), ?c)"
    using Cons.prems(1,4) none small by (simp add: add_source_def relative_name_id Let_def take_bit_int_eq_self)
  moreover have "add_sources [] (map (split_on CHR ''/'') ss) ds ?c =
      (map int [length (smb_sources ?c)..<length (smb_sources ?c) + length ss],
       ?c\<lparr>smb_sources := smb_sources ?c @ ss, smb_sources_content := smb_sources_content ?c @ ds\<rparr>)"
    by (rule Cons.IH) (use Cons.prems cs in auto)
  moreover have "[n..<n + length (s # ss)] = n # [Suc n..<Suc n + length ss]" for n
    by (simp add: upt_conv_Cons del: upt_Suc)
  ultimately show ?case
    using cs by (simp add: join_path_def del: upt_Suc)
qed simp

lemma placed_same: "mapping_ok m \<Longrightarrow> source_idx m < int n \<Longrightarrow> placed (map int [0..<n]) k m = m\<lparr>gen_line := take_bit 32 (k + gen_line m)\<rparr>"
  by (cases m) (simp add: placed_def mapping_ok_def nat_less_iff)

text \<open>C24. What one build writes as a source map, another imports: the sources in order with their contents, and
  every mapping, sorted by generated position and moved down by the given lines.\<close>

theorem source_map_round_trip:
  assumes "builder_inv b" "smb_mappings b \<noteq> []"
  shows "add_source_map (Some (input_of (to_json b))) offset (new_builder f []) =
    (True, (new_builder f [])\<lparr>smb_sources := smb_sources b, smb_sources_content := smb_sources_content b,
       smb_mappings := map (\<lambda>m. m\<lparr>gen_line := take_bit 32 (offset + gen_line m)\<rparr>) (sort_key (\<lambda>m. (gen_line m, gen_col m)) (smb_mappings b))\<rparr>)"
proof -
  let ?n = "length (smb_sources b)" and ?ms = "sort_key (\<lambda>m. (gen_line m, gen_col m)) (smb_mappings b)"
  have some: "smb_sources b \<noteq> []" using assms by (cases "smb_mappings b") (auto simp: builder_inv_def mapping_ok_def)
  have ok: "list_all mapping_ok (smb_mappings b)" "list_all (\<lambda>m. source_idx m < int (length (map int [0..<?n]))) (smb_mappings b)"
    using assms(1) by (simp_all add: builder_inv_def)
  have "map (placed (map int [0..<?n]) offset) ?ms = map (\<lambda>m. m\<lparr>gen_line := take_bit 32 (offset + gen_line m)\<rparr>) ?ms"
    using ok by (intro map_cong refl placed_same) (simp_all add: list_all_iff)
  with import_mappings_encoded [OF ok, of offset]
  have "import_mappings (map int [0..<?n]) offset (encode_mappings (smb_mappings b)) =
      Some (map (\<lambda>m. m\<lparr>gen_line := take_bit 32 (offset + gen_line m)\<rparr>) ?ms)" by simp
  moreover have "add_sources [] (map (split_on CHR ''/'') (smb_sources b)) (smb_sources_content b) (new_builder f []) =
      (map int [0..<?n], (new_builder f [])\<lparr>smb_sources := smb_sources b, smb_sources_content := smb_sources_content b\<rparr>)"
    using add_sources_fresh [of "new_builder f []" "smb_sources b" "smb_sources_content b"] assms(1)
    by (simp add: new_builder_def builder_inv_def)
  moreover have "?ms \<noteq> []" using assms(2) by (metis length_0_conv length_sort)
  ultimately show ?thesis
    using some by (simp add: add_source_map_def add_source_map_inner_def input_of_def to_json_def new_builder_def)
qed

definition example_builder :: source_map_builder where
  "example_builder =
     add_mapping \<lparr>gen_line = 2, gen_col = 0, source_idx = 1, orig_line = 70, orig_col = 4\<rparr>
       (add_mapping \<lparr>gen_line = 0, gen_col = 9, source_idx = 0, orig_line = 3, orig_col = 1\<rparr>
         (snd (add_source [''b.ts''] None (snd (add_source [''app'', ''a.ts''] (Some ''x'') (new_builder ''out.js'' [])))))) "

theorem source_map_round_trip_witness:
  "js_mappings (to_json example_builder) = ''SAGC;;ACmEG'' \<and>
   fst (add_source_map (Some (input_of (to_json example_builder))) 1 (new_builder ''x'' []))"
proof
  show "js_mappings (to_json example_builder) = ''SAGC;;ACmEG''" by code_simp
  have "builder_inv example_builder" "smb_mappings example_builder \<noteq> []"
    unfolding builder_inv_def mapping_ok_def atLeastLessThan_iff by code_simp+
  from source_map_round_trip [OF this, of 1 "''x''"]
  show "fst (add_source_map (Some (input_of (to_json example_builder))) 1 (new_builder ''x'' []))" by simp
qed

text \<open>A map that is shifted because lines were put before the bundle names, for every mapping, the same source
  and original line at the generated position moved down by that many lines, and nothing else.\<close>

theorem shifted_map_reads_back:
  assumes "builder_inv b"
  shows "\<exists>d. shift_generated_lines (Map_Document (to_json b)) n = Some (Map_Document d) \<and>
    decode_mappings (js_mappings d) =
      Some (map (\<lambda>m. \<lparr>dm_line = int n + gen_line m, dm_column = gen_col m, dm_source = source_idx m, dm_original_line = orig_line m\<rparr>)
        (sort_key (\<lambda>m. (gen_line m, gen_col m)) (smb_mappings b)))"
proof -
  have "list_all mapping_ok (smb_mappings b)" using assms by (simp add: builder_inv_def)
  from decode_shifted [OF this, of n] decode_shifted [OF this, of 0] show ?thesis
    by (auto simp: to_json_def decoded_at_def [abs_def])
qed

theorem shifted_map_reads_back_witness:
  "\<exists>d. shift_generated_lines (Map_Document (to_json example_builder)) 1 = Some (Map_Document d) \<and>
    decode_mappings (js_mappings d) = Some [\<lparr>dm_line = 1, dm_column = 9, dm_source = 0, dm_original_line = 3\<rparr>,
      \<lparr>dm_line = 3, dm_column = 0, dm_source = 1, dm_original_line = 70\<rparr>]"
proof -
  have "builder_inv example_builder"
    unfolding builder_inv_def mapping_ok_def atLeastLessThan_iff by code_simp
  note shifted_map_reads_back [OF this, of 1]
  moreover have "map (\<lambda>m. \<lparr>dm_line = int 1 + gen_line m, dm_column = gen_col m, dm_source = source_idx m, dm_original_line = orig_line m\<rparr>)
        (sort_key (\<lambda>m. (gen_line m, gen_col m)) (smb_mappings example_builder)) =
      [\<lparr>dm_line = 1, dm_column = 9, dm_source = 0, dm_original_line = 3\<rparr>, \<lparr>dm_line = 3, dm_column = 0, dm_source = 1, dm_original_line = 70\<rparr>]"
    by code_simp
  ultimately show ?thesis by simp
qed

section \<open>Imports of any map\<close>

lemma add_source_inv:
  assumes "builder_inv b" "int (length (smb_sources b)) + 1 < 2 ^ 32" "add_source p content b = (i, b')"
  shows "builder_inv b' \<and> smb_mappings b' = smb_mappings b \<and> i \<in> {0..<int (length (smb_sources b'))} \<and>
    length (smb_sources b) \<le> length (smb_sources b') \<and> length (smb_sources b') \<le> length (smb_sources b) + 1"
proof (cases "position (\<lambda>s. s = relative_name (smb_source_root b) p) (smb_sources b)")
  case (Some j)
  with assms position_bound [OF Some] show ?thesis
    by (auto simp: add_source_def builder_inv_def take_bit_int_eq_self)
next
  case None
  have new: "relative_name (smb_source_root b) p \<notin> set (smb_sources b)"
    using None by (auto simp: position_None)
  have clean: "CHR 0x5C \<notin> set (relative_name (smb_source_root b) p)" by (auto simp: relative_name_def Let_def split: if_splits)
  have old: "list_all (\<lambda>m. source_idx m < int (length (smb_sources b)) + 1) (smb_mappings b)"
    using assms(1) unfolding builder_inv_def list_all_iff by force
  have "i = int (length (smb_sources b))"
    "b' = b\<lparr>smb_sources := smb_sources b @ [relative_name (smb_source_root b) p], smb_sources_content := smb_sources_content b @ [content]\<rparr>"
    using assms(2,3) None by (simp_all add: add_source_def Let_def take_bit_int_eq_self)
  with assms(1,2) new clean old show ?thesis by (simp add: builder_inv_def add.commute)
qed

lemma add_sources_inv:
  assumes "builder_inv b" "int (length (smb_sources b)) + int (length ps) < 2 ^ 32" "add_sources root ps cs b = (is, b')"
  shows "builder_inv b' \<and> smb_mappings b' = smb_mappings b \<and> set is \<subseteq> {0..<int (length (smb_sources b'))} \<and>
    length (smb_sources b) \<le> length (smb_sources b')"
  using assms
proof (induction ps arbitrary: cs b "is" b')
  case (Cons p ps)
  obtain i b1 where one: "add_source (join_path root p) (case cs of [] \<Rightarrow> None | c # _ \<Rightarrow> c) b = (i, b1)" by fastforce
  obtain js b2 where more: "add_sources root ps (drop 1 cs) b1 = (js, b2)" by fastforce
  note first = add_source_inv [OF Cons.prems(1) _ one]
  have "int (length (smb_sources b)) + 1 < 2 ^ 32" using Cons.prems(2) by simp
  with first have inv1: "builder_inv b1" "smb_mappings b1 = smb_mappings b" "i \<in> {0..<int (length (smb_sources b1))}"
    "length (smb_sources b) \<le> length (smb_sources b1)" "length (smb_sources b1) \<le> length (smb_sources b) + 1" by auto
  have "int (length (smb_sources b1)) + int (length ps) < 2 ^ 32" using inv1(5) Cons.prems(2) by simp
  note rest = Cons.IH [OF inv1(1) this more]
  moreover have "is = i # js" "b' = b2" using Cons.prems(3) one more by simp_all
  moreover have "i \<in> {0..<int (length (smb_sources b2))}" using rest inv1(3) by simp
  ultimately show ?case using inv1(2,4) by simp
qed simp

lemma over_segments_keeps:
  assumes "\<And>x s s'. J s \<Longrightarrow> body x s = Some s' \<Longrightarrow> J s'"
  shows "J s \<Longrightarrow> over_segments body xs s = Some s' \<Longrightarrow> J s'"
  by (induction xs arbitrary: s) (auto split: option.splits intro: assms)

lemma over_lines_keeps:
  assumes "\<And>n x s s'. J s \<Longrightarrow> body n x s = Some s' \<Longrightarrow> J s'" "\<And>s. J s \<Longrightarrow> J (start s)"
  shows "J s \<Longrightarrow> over_lines body start n lines s = Some s' \<Longrightarrow> J s'"
proof (induction lines arbitrary: n s)
  case (Cons line lines)
  then obtain s1 where s1: "over_segments (body n) (line_segments line) (start s) = Some s1"
    "over_lines body start (n + 1) lines s1 = Some s'" by (auto split: option.splits)
  have "J s1" by (rule over_segments_keeps [where J = J, OF assms(1) assms(2) [OF Cons.prems(1)] s1(1)])
  from Cons.IH [OF this s1(2)] show ?case .
qed simp

lemma import_segment_ok:
  assumes "set indices \<subseteq> {0..<n}" "n \<le> 2 ^ 32" "list_all (\<lambda>m. mapping_ok m \<and> source_idx m < n) (im_imported s)"
    and "import_segment indices offset line seg s = Some s'"
  shows "list_all (\<lambda>m. mapping_ok m \<and> source_idx m < n) (im_imported s')"
proof (cases "decode_vlq_segment seg")
  case (Some vs)
  show ?thesis
  proof (cases "length vs < 4")
    case False
    let ?i = "add_i64 (im_source s) (vs ! 1)"
    from Some False assms(4) have src: "0 \<le> ?i" "?i < int (length indices)"
      and out: "im_imported s' = im_imported s @ [\<lparr>gen_line = take_bit 32 (offset + take_bit 32 line),
        gen_col = take_bit 32 (add_i64 (im_column s) (vs ! 0)), source_idx = indices ! nat ?i,
        orig_line = take_bit 32 (add_i64 (im_line s) (vs ! 2)), orig_col = take_bit 32 (add_i64 (im_orig_column s) (vs ! 3))\<rparr>]"
      by (auto simp: import_segment_def Let_def not_le split: if_splits)
    have "indices ! nat ?i \<in> set indices" using src by (intro nth_mem) linarith
    then have "indices ! nat ?i \<in> {0..<n}" using assms(1) by blast
    moreover have "take_bit 32 x \<in> {0..<2 ^ 32}" for x :: int
      using take_bit_int_less_exp [of 32 x] by simp
    ultimately show ?thesis using assms(2,3) unfolding out by (simp add: mapping_ok_def)
  qed (use Some assms(3,4) in \<open>simp add: import_segment_def\<close>)
qed (use assms(4) in \<open>simp add: import_segment_def\<close>)

text \<open>C34. Whatever map is imported, at whatever line: the sources stay distinct, each with its content entry, and
  every mapping lies within 32 bits and names a source of the table. An import that is refused changes nothing.\<close>

theorem import_keeps_builder:
  assumes "builder_inv b" "int (length (smb_sources b)) + int (length (in_sources doc)) < 2 ^ 32"
    and "add_source_map (Some doc) offset b = (accepted, b')"
  shows "builder_inv b' \<and> (accepted \<or> b' = b)"
proof (cases accepted)
  case False
  with assms show ?thesis by (auto simp: add_source_map_def split: prod.splits if_splits)
next
  case True
  with assms(3) have inner: "add_source_map_inner doc offset b = (True, b')"
    by (auto simp: add_source_map_def split: prod.splits if_splits)
  obtain indices b1 where src: "add_sources (in_source_root doc) (in_sources doc) (in_sources_content doc) b = (indices, b1)" by fastforce
  note inv = add_sources_inv [OF assms(1,2) src]
  from inner src obtain imported where imported: "import_mappings indices offset (in_mappings doc) = Some imported"
    "b' = b1\<lparr>smb_mappings := smb_mappings b1 @ imported\<rparr>"
    by (auto simp: add_source_map_inner_def split: if_splits option.splits)
  let ?n = "int (length (smb_sources b1))"
  from imported(1) obtain s where s: "over_lines (import_segment indices offset) (\<lambda>st. st\<lparr>im_column := 0\<rparr>) 0
      (split_on CHR '';'' (in_mappings doc)) import_start = Some s" "imported = im_imported s"
    by (auto simp: import_mappings_def)
  have "list_all (\<lambda>m. mapping_ok m \<and> source_idx m < ?n) (im_imported s)"
    by (rule over_lines_keeps [OF _ _ _ s(1)])
      (use inv in \<open>auto simp: builder_inv_def import_start_def intro: import_segment_ok [of indices ?n]\<close>)
  with inv s(2) imported(2) True show ?thesis by (auto simp: builder_inv_def list_all_iff)
qed

definition example_import :: "string \<Rightarrow> input_source_map" where
  "example_import s = \<lparr>in_version = 3, in_source_root = [], in_sources = [[''b.ts'']], in_sources_content = [], in_mappings = s\<rparr>"

theorem import_keeps_builder_witness:
  "builder_inv (snd (add_source_map (Some (example_import ''IAEA'')) 7 example_builder)) \<and>
   map gen_line (smb_mappings (snd (add_source_map (Some (example_import ''IAEA'')) 7 example_builder))) = [0, 2, 7]"
proof
  have "builder_inv example_builder"
    unfolding builder_inv_def mapping_ok_def atLeastLessThan_iff by code_simp
  moreover have "int (length (smb_sources example_builder)) + int (length (in_sources (example_import ''IAEA''))) < 2 ^ 32" by code_simp
  ultimately show "builder_inv (snd (add_source_map (Some (example_import ''IAEA'')) 7 example_builder))"
    using import_keeps_builder [of example_builder "example_import ''IAEA''" 7, OF _ _ prod.collapse [symmetric]] by simp
  show "map gen_line (smb_mappings (snd (add_source_map (Some (example_import ''IAEA'')) 7 example_builder))) = [0, 2, 7]" by code_simp
qed

text \<open>A segment with one field says that the generated columns from there on have no source. The import passes
  over it without adding its column, so the next segment of the line is placed too far to the left: in the line
  \<open>I,CAAA\<close> the mapping is at column 5, where the reader of the same file finds it, and the import puts it at
  column 1.\<close>

theorem one_field_segment_lost:
  "map_option (map dm_column) (decode_mappings ''I,CAAA'') = Some [5] \<and>
   map_option (map gen_col) (import_mappings [0] 0 ''I,CAAA'') = Some [1]"
  by (intro conjI) code_simp+

end
