(* ===== verification/Chunks.thy ===== *)
theory Chunks
  imports Exports Btree_Map Worklist "HOL-Library.List_Lexorder" "HOL-Library.Char_ord"
begin

text \<open>
  Chunk planning for dynamic imports, \<open>src/crates/ruvyxa_bundler/src/chunking.rs\<close>, and the lookup of a module's
  dependency by specifier, \<open>DepIndex\<close> of \<open>src/crates/ruvyxa_bundler/src/linker.rs\<close>.

  A compiled module is the record the compiler stage hands over. The hash (\<open>blake3\<close>, in hexadecimal) is a
  parameter. The recursion of \<open>collect_static_transitive_modules\<close> is written with its pending calls. The parallel
  iterators of \<open>plan_dynamic_chunk_files\<close> collect into an ordered set, so they are plain maps here. The text of a
  chunk is made by the linker and the minifier and is not modelled; which modules it holds is.
\<close>

section \<open>Modules\<close>

datatype import_kind = Static_Import | Dynamic_Import | Require | ReExport | SideEffect

record import_edge =
  edge_specifier :: string
  edge_kind :: import_kind

record compiled_module =
  cm_path :: path
  cm_js :: string
  cm_imports :: "import_edge list"
  cm_deps :: "path list"
  cm_aliases :: "(string, path) btree"
  cm_external :: bool

definition dynamic_import_specifiers :: "compiled_module \<Rightarrow> string list" where
  "dynamic_import_specifiers m = map edge_specifier (filter (\<lambda>e. edge_kind e = Dynamic_Import) (cm_imports m))"

section \<open>Specifiers\<close>

definition slashes :: "string \<Rightarrow> string" where
  "slashes s = map (\<lambda>c. if c = CHR 0x5C then CHR ''/'' else c) s"

definition display_slashes :: "path \<Rightarrow> string" where
  "display_slashes p = slashes (join_with ''/'' p)"

record dep_entry =
  de_normalized :: string
  de_stem :: string
  de_parent_name :: string
  de_is_index :: bool
  de_package_path :: "string option"

definition strip_ending :: "string \<Rightarrow> string \<Rightarrow> string option" where
  "strip_ending s e = (if ends_with s e then Some (take (length s - length e) s) else None)"

fun strip_first_ending :: "string list \<Rightarrow> string \<Rightarrow> string" where
  "strip_first_ending [] s = s"
| "strip_first_ending (e # es) s = (case strip_ending s e of Some t \<Rightarrow> t | None \<Rightarrow> strip_first_ending es s)"

text \<open>\<open>Path::file_stem\<close>: the name before its last dot, or the whole name when nothing stands before it.\<close>

definition name_stem :: "string \<Rightarrow> string" where
  "name_stem name =
     (let before = rev (drop 1 (dropWhile (\<lambda>c. c \<noteq> CHR ''.'') (rev name))) in
      if CHR ''.'' \<in> set name \<and> before \<noteq> [] then before else name)"

definition new_dep_entry :: "path \<Rightarrow> dep_entry" where
  "new_dep_entry dep =
     (let normalized = display_slashes dep in
      \<lparr>de_normalized = normalized,
       de_stem = (if dep = [] then [] else name_stem (last dep)),
       de_parent_name = (if length dep < 2 then [] else last (butlast dep)),
       de_is_index = ends_with normalized ''/index.ts'' \<or> ends_with normalized ''/index.tsx'' \<or>
         ends_with normalized ''/index.js'' \<or> ends_with normalized ''/index.jsx'',
       de_package_path = map_option (\<lambda>at. strip_first_ending [''.tsx'', ''.ts'', ''.jsx'', ''.js'', ''.mjs'', ''.cjs'']
         (drop (at + length ''/node_modules/'') normalized)) (find_str ''/node_modules/'' normalized)\<rparr>)"

function strip_climbs :: "string \<Rightarrow> string" where
  "strip_climbs s =
     (if starts_with s ''./'' then strip_climbs (drop 2 s)
      else if starts_with s ''../'' then strip_climbs (drop 3 s) else s)"
  by pat_completeness auto
termination
  by (relation "measure length") (auto simp: starts_with_iff)

declare strip_climbs.simps [simp del]

definition rsplit_once :: "char \<Rightarrow> string \<Rightarrow> (string \<times> string) option" where
  "rsplit_once c s =
     (if c \<in> set s
      then Some (rev (drop 1 (dropWhile (\<lambda>x. x \<noteq> c) (rev s))), rev (takeWhile (\<lambda>x. x \<noteq> c) (rev s))) else None)"

definition entry_matches :: "string \<Rightarrow> dep_entry \<Rightarrow> bool" where
  "entry_matches specifier e =
     (let normalized = slashes specifier;
          relative = strip_climbs normalized;
          spec_file = (case rsplit_once CHR ''/'' relative of Some (_, f) \<Rightarrow> f | None \<Rightarrow> relative);
          spec_dir = (case rsplit_once CHR ''/'' relative of Some (d, _) \<Rightarrow> d | None \<Rightarrow> []) in
      if de_normalized e = relative \<or>
         (case strip_ending (de_normalized e) relative of Some pre \<Rightarrow> ends_with pre ''/'' | None \<Rightarrow> False) then True
      else if de_stem e = spec_file \<and> (spec_dir = [] \<or> contains_str (de_normalized e) spec_dir) then True
      else if de_is_index e \<and> spec_file = de_parent_name e then True
      else
        (case de_package_path e of
           Some pp \<Rightarrow> pp = normalized \<or> strip_ending pp ''/index'' = Some normalized \<or> strip_ending pp ''/client'' = Some normalized
         | None \<Rightarrow> False))"

definition resolve_by_path :: "path list \<Rightarrow> string \<Rightarrow> path option" where
  "resolve_by_path deps specifier = List.find (\<lambda>d. entry_matches specifier (new_dep_entry d)) deps"

definition dep_resolve :: "compiled_module \<Rightarrow> string \<Rightarrow> path option" where
  "dep_resolve m specifier =
     (case bt_get (cm_aliases m) specifier of Some p \<Rightarrow> Some p | None \<Rightarrow> resolve_by_path (cm_deps m) specifier)"

section \<open>Planning\<close>

type_synonym module_map = "(path, compiled_module) btree"

definition project_module_map :: "compiled_module list \<Rightarrow> module_map" where
  "project_module_map compiled =
     fold (\<lambda>m. bt_insert (cm_path m) m) (filter (\<lambda>m. \<not> cm_external m) compiled) []"

definition local_dep :: "module_map \<Rightarrow> compiled_module \<Rightarrow> string \<Rightarrow> path option" where
  "local_dep mm m specifier =
     (case dep_resolve m specifier of Some d \<Rightarrow> if bt_contains_key d mm then Some d else None | None \<Rightarrow> None)"

definition dynamic_roots :: "compiled_module list \<Rightarrow> module_map \<Rightarrow> path set" where
  "dynamic_roots compiled mm =
     set (concat (map (\<lambda>m. List.map_filter (local_dep mm m) (dynamic_import_specifiers m))
       (filter (\<lambda>m. \<not> cm_external m) compiled)))"

definition static_deps :: "module_map \<Rightarrow> path \<Rightarrow> path list" where
  "static_deps mm p =
     (case bt_get mm p of
        None \<Rightarrow> []
      | Some m \<Rightarrow>
          List.map_filter (\<lambda>e. local_dep mm m (edge_specifier e)) (filter (\<lambda>e. edge_kind e \<noteq> Dynamic_Import) (cm_imports m)))"

definition collect_static_transitive_modules :: "path \<Rightarrow> module_map \<Rightarrow> path set \<Rightarrow> path set option" where
  "collect_static_transitive_modules p mm selected = descend (static_deps mm) [p] selected"

definition graph_fingerprint :: "(string \<Rightarrow> string) \<Rightarrow> compiled_module list \<Rightarrow> string" where
  "graph_fingerprint hash compiled =
     hash (concat (map (\<lambda>m. join_with ''/'' (cm_path m) @ [CHR 0x00] @ cm_js m @ [CHR 0x00])
       (filter (\<lambda>m. \<not> cm_external m) compiled)))"

fun closures_of :: "module_map \<Rightarrow> path list \<Rightarrow> (path \<times> path set) list option" where
  "closures_of mm [] = Some []"
| "closures_of mm (r # rs) =
     (case collect_static_transitive_modules r mm {} of
        None \<Rightarrow> None
      | Some c \<Rightarrow> map_option ((#) (r, c)) (closures_of mm rs))"

definition splits :: "path set \<Rightarrow> (path \<times> path set) list \<Rightarrow> path \<times> path set \<Rightarrow> bool" where
  "splits entry_modules closures = (\<lambda>(root, closure).
     closure \<inter> entry_modules = {} \<and> list_all (\<lambda>(other, c). root = other \<or> closure \<inter> c = {}) closures)"

definition plan_dynamic_chunk_files ::
  "(string \<Rightarrow> string) \<Rightarrow> compiled_module list \<Rightarrow> path \<Rightarrow> (path, string) btree option" where
  "plan_dynamic_chunk_files hash compiled entry =
     (let mm = project_module_map compiled;
          roots = sorted_list_of_set (dynamic_roots compiled mm);
          fingerprint = graph_fingerprint hash compiled in
      case collect_static_transitive_modules entry mm {} of
        None \<Rightarrow> None
      | Some entry_modules \<Rightarrow>
          map_option (\<lambda>closures.
            map (\<lambda>(root, _). (root, ''chunk.'' @ take 16 (hash (fingerprint @ [CHR 0x00] @ join_with ''/'' root)) @ ''.js''))
              (filter (splits entry_modules closures) closures))
            (closures_of mm roots))"

fun collect_unsplit :: "module_map \<Rightarrow> (path, string) btree \<Rightarrow> path list \<Rightarrow> path set \<Rightarrow> path set option" where
  "collect_unsplit mm files [] selected = Some selected"
| "collect_unsplit mm files (r # rs) selected =
     (if bt_contains_key r files then collect_unsplit mm files rs selected
      else
        (case collect_static_transitive_modules r mm selected of
           None \<Rightarrow> None
         | Some selected \<Rightarrow> collect_unsplit mm files rs selected))"

definition static_entry_modules ::
  "compiled_module list \<Rightarrow> path \<Rightarrow> (path, string) btree \<Rightarrow> compiled_module list option" where
  "static_entry_modules compiled entry files =
     (let mm = project_module_map compiled in
      case collect_static_transitive_modules entry mm {} of
        None \<Rightarrow> None
      | Some selected \<Rightarrow>
          map_option (\<lambda>selected. filter (\<lambda>m. cm_path m \<in> selected) compiled)
            (collect_unsplit mm files (sorted_list_of_set (dynamic_roots compiled mm)) selected))"

text \<open>The modules of a chunk, as \<open>build_dynamic_output_chunks\<close> selects them.\<close>

definition chunk_modules :: "compiled_module list \<Rightarrow> path \<Rightarrow> compiled_module list option" where
  "chunk_modules compiled root =
     map_option (\<lambda>selected. filter (\<lambda>m. cm_path m \<in> selected) compiled)
       (collect_static_transitive_modules root (project_module_map compiled) {})"

record dynamic_import_chunk =
  dic_importer :: string
  dic_module :: string
  dic_file :: string

definition dynamic_import_chunks :: "compiled_module list \<Rightarrow> (path, string) btree \<Rightarrow> dynamic_import_chunk list" where
  "dynamic_import_chunks compiled files =
     concat (map (\<lambda>m. List.map_filter (\<lambda>specifier.
         case dep_resolve m specifier of
           None \<Rightarrow> None
         | Some d \<Rightarrow>
             map_option (\<lambda>f. \<lparr>dic_importer = display_slashes (cm_path m), dic_module = display_slashes d, dic_file = f\<rparr>) (bt_get files d))
         (dynamic_import_specifiers m))
       (filter (\<lambda>m. \<not> cm_external m) compiled))"

section \<open>Closures\<close>

abbreviation static_closure :: "module_map \<Rightarrow> path \<Rightarrow> path set" where
  "static_closure mm \<equiv> reach (static_deps mm)"

lemma map_filter_set: "y \<in> set (List.map_filter f xs) \<longleftrightarrow> (\<exists>x\<in>set xs. f x = Some y)"
  by (induction xs) (auto simp: List.map_filter_def split: option.splits)

lemma local_dep_Some: "local_dep mm m s = Some d \<longleftrightarrow> dep_resolve m s = Some d \<and> bt_contains_key d mm"
  by (auto simp: local_dep_def split: option.splits)

lemma static_deps_keys: "set (static_deps mm p) \<subseteq> fst ` set mm"
  by (auto simp: static_deps_def map_filter_set local_dep_Some bt_contains_key_def bt_get_def split: option.splits
    dest!: map_of_SomeD intro: rev_image_eqI)

lemma finite_closure: "finite (static_closure mm p)"
proof -
  have "static_closure mm p \<subseteq> insert p (fst ` set mm)"
    by (rule reach_least) (use static_deps_keys in blast)+
  then show ?thesis by (rule finite_subset) simp
qed

lemma collect_closure:
  assumes "finite S" "\<And>a. a \<in> S \<Longrightarrow> set (static_deps mm a) \<subseteq> S"
  shows "collect_static_transitive_modules p mm S = Some (S \<union> static_closure mm p)"
  unfolding collect_static_transitive_modules_def using assms by (intro descend_reach finite_closure)

lemma collect_from_empty: "collect_static_transitive_modules p mm {} = Some (static_closure mm p)"
  using collect_closure [of "{}" mm p] by simp

lemma closures_of_all: "closures_of mm rs = Some (map (\<lambda>r. (r, static_closure mm r)) rs)"
  by (induction rs) (simp_all add: collect_from_empty)

lemma collect_unsplit_all:
  assumes "finite S" "\<And>a. a \<in> S \<Longrightarrow> set (static_deps mm a) \<subseteq> S"
  shows "collect_unsplit mm files rs S = Some (S \<union> (\<Union>r\<in>{r \<in> set rs. \<not> bt_contains_key r files}. static_closure mm r))"
  using assms
proof (induction rs arbitrary: S)
  case (Cons r rs)
  show ?case
  proof (cases "bt_contains_key r files")
    case True
    with Cons have "{x \<in> set (r # rs). \<not> bt_contains_key x files} = {x \<in> set rs. \<not> bt_contains_key x files}" by auto
    with True Cons show ?thesis by simp
  next
    case False
    have "set (static_deps mm a) \<subseteq> S \<union> static_closure mm r" if "a \<in> S \<union> static_closure mm r" for a
      using that Cons.prems(2) [of a] reach_step [of a "static_deps mm" r] by auto
    moreover have "{x \<in> set (r # rs). \<not> bt_contains_key x files} = insert r {x \<in> set rs. \<not> bt_contains_key x files}"
      using False by auto
    ultimately show ?thesis
      using False Cons.prems Cons.IH [of "S \<union> static_closure mm r"] by (simp add: collect_closure finite_closure Un_assoc)
  qed
qed simp

section \<open>Chunks\<close>

definition is_split :: "compiled_module list \<Rightarrow> path \<Rightarrow> path \<Rightarrow> bool" where
  "is_split compiled entry r \<longleftrightarrow>
     (let mm = project_module_map compiled; roots = dynamic_roots compiled mm in
      r \<in> roots \<and> static_closure mm r \<inter> static_closure mm entry = {} \<and>
      (\<forall>s\<in>roots. r = s \<or> static_closure mm r \<inter> static_closure mm s = {}))"

lemma finite_roots: "finite (dynamic_roots compiled mm)"
  by (simp add: dynamic_roots_def)

lemma plan_files:
  "\<exists>files. plan_dynamic_chunk_files hash compiled entry = Some files \<and> (\<forall>r. bt_contains_key r files \<longleftrightarrow> is_split compiled entry r)"
proof -
  let ?mm = "project_module_map compiled"
  let ?roots = "sorted_list_of_set (dynamic_roots compiled ?mm)"
  let ?name = "\<lambda>r. ''chunk.'' @ take 16 (hash (graph_fingerprint hash compiled @ [CHR 0x00] @ join_with ''/'' r)) @ ''.js''"
  let ?cs = "map (\<lambda>r. (r, static_closure ?mm r)) ?roots"
  let ?files = "map (\<lambda>(r, _). (r, ?name r)) (filter (splits (static_closure ?mm entry) ?cs) ?cs)"
  have "plan_dynamic_chunk_files hash compiled entry = Some ?files"
    by (simp add: plan_dynamic_chunk_files_def Let_def collect_from_empty closures_of_all)
  moreover have "bt_contains_key r ?files \<longleftrightarrow> is_split compiled entry r" for r
  proof -
    have "bt_contains_key r ?files \<longleftrightarrow> r \<in> fst ` set ?files"
      unfolding bt_contains_key_def bt_get_def by (simp add: map_of_eq_None_iff)
    also have "\<dots> \<longleftrightarrow> r \<in> dynamic_roots compiled ?mm \<and> splits (static_closure ?mm entry) ?cs (r, static_closure ?mm r)"
      by (force simp: finite_roots)
    also have "\<dots> \<longleftrightarrow> is_split compiled entry r"
      by (auto simp: splits_def is_split_def list_all_iff Let_def finite_roots)
    finally show ?thesis .
  qed
  ultimately show ?thesis by blast
qed

lemma entry_selection:
  assumes "\<And>r. bt_contains_key r files \<longleftrightarrow> is_split compiled entry r"
  shows "static_entry_modules compiled entry files = Some (filter (\<lambda>m. cm_path m \<in> static_closure (project_module_map compiled) entry \<union>
    (\<Union>r\<in>{r \<in> dynamic_roots compiled (project_module_map compiled). \<not> is_split compiled entry r}. static_closure (project_module_map compiled) r)) compiled)"
  using assms
  by (subst static_entry_modules_def)
    (simp add: Let_def collect_from_empty collect_unsplit_all finite_closure finite_roots reach_step subsetI)

lemma project_module_map_get: "bt_get (project_module_map compiled) p = Some m \<Longrightarrow> m \<in> set compiled \<and> \<not> cm_external m \<and> cm_path m = p"
proof -
  have "bt_get (fold (\<lambda>m. bt_insert (cm_path m) m) ms acc) p = Some m \<Longrightarrow> m \<in> set ms \<and> cm_path m = p \<or> bt_get acc p = Some m" for ms acc
    by (induction ms arbitrary: acc) (fastforce simp: bt_get_insert split: if_splits)+
  from this [of "filter (\<lambda>m. \<not> cm_external m) compiled" "[]"]
  show "bt_get (project_module_map compiled) p = Some m \<Longrightarrow> m \<in> set compiled \<and> \<not> cm_external m \<and> cm_path m = p"
    by (auto simp: project_module_map_def bt_get_def)
qed

text \<open>What can be loaded from the entry: through imports of any kind.\<close>

definition loadable :: "compiled_module list \<Rightarrow> path \<Rightarrow> path set" where
  "loadable compiled entry =
     (let mm = project_module_map compiled in
      {p. (entry, p) \<in> {(a, b). \<exists>m e. bt_get mm a = Some m \<and> e \<in> set (cm_imports m) \<and> local_dep mm m (edge_specifier e) = Some b}\<^sup>*})"

lemma loadable_covered:
  assumes "p \<in> loadable compiled entry"
  shows "p \<in> static_closure (project_module_map compiled) entry \<or>
    (\<exists>r\<in>dynamic_roots compiled (project_module_map compiled). p \<in> static_closure (project_module_map compiled) r)"
proof -
  let ?mm = "project_module_map compiled"
  let ?A = "static_closure ?mm entry \<union> (\<Union>r\<in>dynamic_roots compiled ?mm. static_closure ?mm r)"
  from assms have "(entry, p) \<in> {(a, b). \<exists>m e. bt_get ?mm a = Some m \<and> e \<in> set (cm_imports m) \<and> local_dep ?mm m (edge_specifier e) = Some b}\<^sup>*"
    by (simp add: loadable_def Let_def)
  then have "p \<in> ?A"
  proof (induction rule: rtrancl_induct)
    case (step a b)
    then obtain m e where m: "bt_get ?mm a = Some m" "e \<in> set (cm_imports m)" "local_dep ?mm m (edge_specifier e) = Some b" by auto
    show ?case
    proof (cases "edge_kind e = Dynamic_Import")
      case True
      then have "b \<in> set (List.map_filter (local_dep ?mm m) (dynamic_import_specifiers m))"
        using m by (auto simp: map_filter_set dynamic_import_specifiers_def)
      then have "b \<in> dynamic_roots compiled ?mm"
        using project_module_map_get [OF m(1)] by (auto simp: dynamic_roots_def)
      moreover have "b \<in> static_closure ?mm b" by simp
      ultimately show ?thesis by blast
    next
      case False
      then have "b \<in> set (static_deps ?mm a)" using m by (auto simp: static_deps_def map_filter_set)
      then have "b \<in> static_closure ?mm r" if "a \<in> static_closure ?mm r" for r by (rule reach_step [OF that])
      with step.IH show ?thesis by blast
    qed
  qed simp
  then show ?thesis by blast
qed

definition entry_paths :: "compiled_module list \<Rightarrow> path \<Rightarrow> path set" where
  "entry_paths compiled entry =
     (let mm = project_module_map compiled in
      static_closure mm entry \<union> (\<Union>r\<in>{r \<in> dynamic_roots compiled mm. \<not> is_split compiled entry r}. static_closure mm r))"

lemma split_apart:
  assumes "is_split compiled entry r" "s \<in> dynamic_roots compiled (project_module_map compiled)" "s \<noteq> r"
  shows "static_closure (project_module_map compiled) r \<inter> static_closure (project_module_map compiled) s = {}"
  using assms by (auto simp: is_split_def Let_def)

lemma split_apart_from_entry:
  assumes "is_split compiled entry r"
  shows "static_closure (project_module_map compiled) r \<inter> entry_paths compiled entry = {}"
proof -
  let ?mm = "project_module_map compiled"
  have "static_closure ?mm r \<inter> static_closure ?mm s = {}" if "s \<in> {s \<in> dynamic_roots compiled ?mm. \<not> is_split compiled entry s}" for s
    using that assms by (intro split_apart) auto
  moreover have "static_closure ?mm r \<inter> static_closure ?mm entry = {}" using assms by (simp add: is_split_def Let_def)
  ultimately show ?thesis unfolding entry_paths_def Let_def Int_Un_distrib Int_UN_distrib by simp
qed

lemma loadable_in_a_file:
  assumes "p \<in> loadable compiled entry"
  shows "p \<in> entry_paths compiled entry \<or> (\<exists>r. is_split compiled entry r \<and> p \<in> static_closure (project_module_map compiled) r)"
  using loadable_covered [OF assms]
proof
  assume "\<exists>r\<in>dynamic_roots compiled (project_module_map compiled). p \<in> static_closure (project_module_map compiled) r"
  then obtain r where "r \<in> dynamic_roots compiled (project_module_map compiled)" "p \<in> static_closure (project_module_map compiled) r"
    by (rule bexE)
  then show ?thesis by (cases "is_split compiled entry r") (auto simp: entry_paths_def Let_def)
qed (simp add: entry_paths_def Let_def)

lemma filtered_disjoint:
  "A \<inter> B = {} \<Longrightarrow> f ` set (filter (\<lambda>m. f m \<in> A) xs) \<inter> f ` set (filter (\<lambda>m. f m \<in> B) xs) = {}"
  by auto

text \<open>C25. The planned files share no module: the entry's modules and every chunk's modules are pairwise disjoint, so
  no module is evaluated twice, and each module that can be loaded from the entry, through imports of any kind, is in
  the entry or in a chunk. Planning and selection always end.\<close>

theorem each_module_in_one_file:
  "\<exists>files E. plan_dynamic_chunk_files hash compiled entry = Some files \<and> static_entry_modules compiled entry files = Some E \<and>
    (\<forall>r. bt_contains_key r files \<longrightarrow> (\<exists>C. chunk_modules compiled r = Some C \<and> cm_path ` set C \<inter> cm_path ` set E = {} \<and>
      (\<forall>s D. bt_contains_key s files \<and> s \<noteq> r \<and> chunk_modules compiled s = Some D \<longrightarrow> cm_path ` set C \<inter> cm_path ` set D = {}))) \<and>
    (\<forall>m\<in>set compiled. cm_path m \<in> loadable compiled entry \<longrightarrow>
      m \<in> set E \<or> (\<exists>r C. bt_contains_key r files \<and> chunk_modules compiled r = Some C \<and> m \<in> set C))"
proof -
  let ?mm = "project_module_map compiled"
  let ?E = "filter (\<lambda>m. cm_path m \<in> entry_paths compiled entry) compiled" and ?C = "\<lambda>r. filter (\<lambda>m. cm_path m \<in> static_closure ?mm r) compiled"
  obtain files where files: "plan_dynamic_chunk_files hash compiled entry = Some files"
    "\<And>r. bt_contains_key r files \<longleftrightarrow> is_split compiled entry r"
    using plan_files by blast
  have E: "static_entry_modules compiled entry files = Some ?E"
    unfolding entry_paths_def Let_def by (rule entry_selection) (rule files(2))
  have C: "chunk_modules compiled r = Some (?C r)" for r by (simp add: chunk_modules_def collect_from_empty)
  have one: "\<exists>C. chunk_modules compiled r = Some C \<and> cm_path ` set C \<inter> cm_path ` set ?E = {} \<and>
      (\<forall>s D. bt_contains_key s files \<and> s \<noteq> r \<and> chunk_modules compiled s = Some D \<longrightarrow> cm_path ` set C \<inter> cm_path ` set D = {})"
    if r: "bt_contains_key r files" for r
  proof (intro exI [of _ "?C r"] conjI allI impI C)
    show "cm_path ` set (?C r) \<inter> cm_path ` set ?E = {}"
      using r files(2) by (intro filtered_disjoint split_apart_from_entry) simp
    fix s D
    assume s: "bt_contains_key s files \<and> s \<noteq> r \<and> chunk_modules compiled s = Some D"
    then have "static_closure ?mm r \<inter> static_closure ?mm s = {}"
      using r files(2) by (intro split_apart [of _ entry]) (simp_all add: is_split_def Let_def)
    moreover have "D = ?C s" using s C [of s] by simp
    ultimately show "cm_path ` set (?C r) \<inter> cm_path ` set D = {}" by (simp only: filtered_disjoint)
  qed
  have every: "m \<in> set ?E \<or> (\<exists>r C. bt_contains_key r files \<and> chunk_modules compiled r = Some C \<and> m \<in> set C)"
    if "m \<in> set compiled" "cm_path m \<in> loadable compiled entry" for m
    using loadable_in_a_file [OF that(2)] that(1) files(2) C by auto
  show ?thesis
    by (intro exI [of _ files] exI [of _ ?E] conjI allI ballI impI files(1) E one every)
qed

definition example_module :: "string \<Rightarrow> (import_kind \<times> string) list \<Rightarrow> compiled_module" where
  "example_module name imports =
     \<lparr>cm_path = [name], cm_js = name, cm_imports = map (\<lambda>(k, s). \<lparr>edge_specifier = s, edge_kind = k\<rparr>) imports,
      cm_deps = map (\<lambda>(k, s). [s @ ''.ts'']) imports, cm_aliases = [], cm_external = False\<rparr>"

definition example_modules :: "compiled_module list" where
  "example_modules =
     [example_module ''entry.ts'' [(Static_Import, ''a''), (Dynamic_Import, ''lazy''), (Dynamic_Import, ''mixed'')],
      example_module ''a.ts'' [], example_module ''lazy.ts'' [(Static_Import, ''b'')], example_module ''b.ts'' [],
      example_module ''mixed.ts'' [(Static_Import, ''a'')]]"

theorem each_module_in_one_file_witness:
  "map_option (map fst) (plan_dynamic_chunk_files (\<lambda>s. s) example_modules [''entry.ts'']) = Some [[''lazy.ts'']] \<and>
   (\<exists>files E. plan_dynamic_chunk_files (\<lambda>s. s) example_modules [''entry.ts''] = Some files \<and>
     static_entry_modules example_modules [''entry.ts''] files = Some E)"
proof
  show "map_option (map fst) (plan_dynamic_chunk_files (\<lambda>s. s) example_modules [''entry.ts'']) = Some [[''lazy.ts'']]" by code_simp
  show "\<exists>files E. plan_dynamic_chunk_files (\<lambda>s. s) example_modules [''entry.ts''] = Some files \<and>
     static_entry_modules example_modules [''entry.ts''] files = Some E"
    using each_module_in_one_file [of "\<lambda>s. s" example_modules "[''entry.ts'']"] by (elim exE conjE) (intro exI conjI)
qed

text \<open>The directory of a specifier is looked for anywhere in the text of a dependency's path, not as a folder of
  it: with the dependencies \<open>/p/cart/item.tsx\<close> and \<open>/p/art/item.tsx\<close>, the specifier \<open>./art/item\<close> is bound to the
  first.\<close>

theorem specifier_directory_is_a_substring:
  "resolve_by_path [['''', ''p'', ''cart'', ''item.tsx''], ['''', ''p'', ''art'', ''item.tsx'']] ''./art/item'' =
     Some ['''', ''p'', ''cart'', ''item.tsx'']"
  by code_simp

end
