(* ===== verification/I18n.thy ===== *)
theory I18n
  imports Radix_Router Module_Graph Route_Rules
begin

text \<open>
  Locale routing: the options of \<open>src/crates/ruvyxa_cli/src/config.rs\<close> (\<open>I18nConfigOptions\<close>, \<open>validate_i18n\<close>),
  the redirect of an unprefixed request and the localized head of \<open>src/crates/ruvyxa_dev_server/src/i18n.rs\<close>, and
  \<open>escape_html\<close> of \<open>html_document.rs\<close>.

  The header map is the two headers that are read, as \<open>to_str\<close> gives them. The reading of a \<open>q\<close> value as \<open>f32\<close> is a
  parameter: it answers the number's place in the total order of \<open>total_cmp\<close> and whether it is at most zero.
\<close>

section \<open>Options\<close>

record i18n_options =
  io_locales :: "string list"
  io_default_locale :: string
  io_locale_param :: "string option"
  io_detect_locale :: "bool option"
  io_cookie :: "string option"

definition routing :: "i18n_options \<Rightarrow> i18n_routing" where
  "routing o' =
     \<lparr>locales = io_locales o', default_locale = io_default_locale o',
      locale_param = (case io_locale_param o' of Some p \<Rightarrow> p | None \<Rightarrow> ''lang''),
      detect_locale = (case io_detect_locale o' of Some d \<Rightarrow> d | None \<Rightarrow> True),
      i18n_cookie = (case io_cookie o' of Some c \<Rightarrow> c | None \<Rightarrow> ''RUVYXA_LOCALE'')\<rparr>"

definition valid_locale :: "string \<Rightarrow> bool" where
  "valid_locale locale \<longleftrightarrow>
     locale \<noteq> [] \<and> length locale \<le> 35 \<and>
     list_all (\<lambda>part. part \<noteq> [] \<and> length part \<le> 8 \<and> list_all is_ascii_alphanumeric part) (split_on CHR ''-'' locale)"

definition is_ascii_alphabetic :: "char \<Rightarrow> bool" where
  "is_ascii_alphabetic c \<longleftrightarrow> is_ascii_upper c \<or> is_ascii_lower c"

definition valid_identifier :: "string \<Rightarrow> bool" where
  "valid_identifier s =
     (case s of
        [] \<Rightarrow> False
      | c # cs \<Rightarrow> (is_ascii_alphabetic c \<or> c \<in> set ''_$'') \<and> list_all (\<lambda>c. is_ascii_alphanumeric c \<or> c \<in> set ''_$'') cs)"

definition cookie_name_char :: "char \<Rightarrow> bool" where
  "cookie_name_char c \<longleftrightarrow> is_ascii_alphanumeric c \<or> c \<in> set ''!#$%&*+-.^_|~'' \<or> byte c = 39 \<or> byte c = 96"

datatype i18n_error = Locale_Count | Invalid_Locale string | Duplicate_Locale string | Default_Not_Included | Invalid_Param | Invalid_Cookie

fun check_locales :: "string list \<Rightarrow> string set \<Rightarrow> i18n_error + unit" where
  "check_locales [] normalized = Inr ()"
| "check_locales (l # ls) normalized =
     (if \<not> valid_locale l then Inl (Invalid_Locale l)
      else if map to_ascii_lowercase l \<in> normalized then Inl (Duplicate_Locale l)
      else check_locales ls (insert (map to_ascii_lowercase l) normalized))"

definition validate_i18n :: "i18n_options \<Rightarrow> i18n_error + unit" where
  "validate_i18n o' =
     (if io_locales o' = [] \<or> 32 < length (io_locales o') then Inl Locale_Count
      else
        rbind (check_locales (io_locales o') {}) (\<lambda>_.
        if \<not> list_ex (\<lambda>l. eq_ignore_ascii_case l (io_default_locale o')) (io_locales o') then Inl Default_Not_Included
        else if \<not> valid_identifier (case io_locale_param o' of Some p \<Rightarrow> p | None \<Rightarrow> ''lang'') then Inl Invalid_Param
        else
          (let cookie = (case io_cookie o' of Some c \<Rightarrow> c | None \<Rightarrow> ''RUVYXA_LOCALE'') in
           if cookie = [] \<or> 128 < length cookie \<or> \<not> list_all cookie_name_char cookie then Inl Invalid_Cookie
           else Inr ())))"

section \<open>The locale of a request\<close>

definition canonical_locale :: "i18n_routing \<Rightarrow> string \<Rightarrow> string option" where
  "canonical_locale config locale = List.find (\<lambda>supported. eq_ignore_ascii_case supported locale) (locales config)"

definition path_locale :: "i18n_routing \<Rightarrow> string \<Rightarrow> string option" where
  "path_locale config p =
     (case strip_prefix p ''/'' of
        None \<Rightarrow> None
      | Some rest \<Rightarrow> canonical_locale config (hd (split_on CHR ''/'' rest)))"

record locale_headers =
  lh_cookie :: "string option"
  lh_accept_language :: "string option"

type_synonym f32_reading = "string \<Rightarrow> (int \<times> bool) option"

definition cookie_locale :: "i18n_routing \<Rightarrow> string \<Rightarrow> string option" where
  "cookie_locale config cookie =
     find_map (\<lambda>pair.
       case split_once CHR ''='' (trim pair) of
         None \<Rightarrow> None
       | Some (name, v) \<Rightarrow> if name = i18n_cookie config then canonical_locale config (trim v) else None)
       (split_on CHR '';'' cookie)"

definition accepted_language :: "f32_reading \<Rightarrow> int \<times> bool \<Rightarrow> string \<Rightarrow> (string \<times> int \<times> bool) option" where
  "accepted_language parse_f32 one entry =
     (case split_on CHR '';'' (trim entry) of
        [] \<Rightarrow> None
      | first # parts \<Rightarrow>
          (let language = trim first in
           if language = [] \<or> language = ''*'' then None
           else
             (let quality = Option.bind (find_map (\<lambda>part. strip_prefix (trim part) ''q='') parts) parse_f32 in
              Some (language, case quality of Some q \<Rightarrow> q | None \<Rightarrow> one))))"

definition language_locale :: "i18n_routing \<Rightarrow> string \<times> int \<times> bool \<Rightarrow> string option" where
  "language_locale config entry =
     (case entry of (language, _, nonpositive) \<Rightarrow>
        if nonpositive then None
        else
          (case canonical_locale config language of
             Some l \<Rightarrow> Some l
           | None \<Rightarrow>
               List.find (\<lambda>l. eq_ignore_ascii_case (hd (split_on CHR ''-'' l)) (hd (split_on CHR ''-'' language))) (locales config)))"

definition preferred_locale :: "f32_reading \<Rightarrow> int \<times> bool \<Rightarrow> i18n_routing \<Rightarrow> locale_headers \<Rightarrow> string" where
  "preferred_locale parse_f32 one config headers =
     (if \<not> detect_locale config then default_locale config
      else
        (case Option.bind (lh_cookie headers) (cookie_locale config) of
           Some l \<Rightarrow> l
         | None \<Rightarrow>
             (case lh_accept_language headers of
                None \<Rightarrow> default_locale config
              | Some accept \<Rightarrow>
                  (let languages = sort_key (\<lambda>(_, q, _). - q) (List.map_filter (accepted_language parse_f32 one) (split_on CHR '','' accept)) in
                   case find_map (language_locale config) languages of
                     Some l \<Rightarrow> l
                   | None \<Rightarrow> default_locale config))))"

section \<open>Redirects\<close>

definition prefixed_path :: "string \<Rightarrow> string \<Rightarrow> string" where
  "prefixed_path l p = (if p = ''/'' then ''/'' @ l else ''/'' @ l @ p)"

text \<open>\<open>char::from(byte)\<close> pushed to a \<open>String\<close>: a byte above 127 is a character of two bytes.\<close>

definition push_latin1 :: "char \<Rightarrow> string" where
  "push_latin1 c = (if byte c < 128 then [c] else [char_of (192 + byte c div 64), char_of (128 + byte c mod 64)])"

definition encode_query_byte :: "char \<Rightarrow> string" where
  "encode_query_byte c =
     (if byte c \<in> {9, 10, 13} then []
      else if c = CHR '' '' then ''%20''
      else if byte c = 34 then ''%22''
      else if c = CHR ''<'' then ''%3C''
      else if c = CHR ''>'' then ''%3E''
      else if byte c \<le> 31 \<or> byte c = 127 then [CHR ''%'', hex_digit (byte c div 16), hex_digit (byte c mod 16)]
      else push_latin1 c)"

definition encoded_query :: "string \<Rightarrow> string" where
  "encoded_query q = concat (map encode_query_byte q)"

definition with_query :: "string \<Rightarrow> string option \<Rightarrow> string" where
  "with_query location query =
     (case query of
        None \<Rightarrow> location
      | Some q \<Rightarrow> if q = [] then location else location @ ''?'' @ encoded_query q)"

text \<open>\<open>Path::new(p).extension()\<close>: of the last component that is not empty and not a dot.\<close>

definition request_extension :: "string \<Rightarrow> string option" where
  "request_extension p = path_extension (filter (\<lambda>s. s \<noteq> [] \<and> s \<noteq> ''.'') (split_on CHR ''/'' p))"

definition left_alone :: "i18n_routing \<Rightarrow> string \<Rightarrow> string \<Rightarrow> bool" where
  "left_alone config p meth \<longleftrightarrow>
     \<not> (meth = ''GET'' \<or> meth = ''HEAD'') \<or> p = ''/__ruvyxa'' \<or> starts_with p ''/__ruvyxa/'' \<or> p = ''/api'' \<or>
     starts_with p ''/api/'' \<or> request_extension p \<noteq> None \<or> path_locale config p \<noteq> None"

definition page_at_path :: "radix_router \<Rightarrow> route_manifest \<Rightarrow> string \<Rightarrow> bool" where
  "page_at_path router manifest p =
     (case find router manifest p of Some rm \<Rightarrow> entry_kind (matched_route rm) = Page | None \<Rightarrow> False)"

definition locale_redirect_path ::
  "f32_reading \<Rightarrow> int \<times> bool \<Rightarrow> i18n_routing option \<Rightarrow> route_manifest \<Rightarrow> radix_router \<Rightarrow> string \<Rightarrow> string option \<Rightarrow> string \<Rightarrow>
   locale_headers \<Rightarrow> string option" where
  "locale_redirect_path parse_f32 one config manifest router p query meth headers =
     (case config of
        None \<Rightarrow> None
      | Some config \<Rightarrow>
          if left_alone config p meth then None
          else
            (let candidate = prefixed_path (preferred_locale parse_f32 one config headers) p;
                 fallback = prefixed_path (default_locale config) p in
             map_option (\<lambda>location. with_query location query)
               (if page_at_path router manifest candidate then Some candidate
                else if page_at_path router manifest fallback then Some fallback else None)))"

section \<open>The localized head\<close>

definition replace_char :: "char \<Rightarrow> string \<Rightarrow> string \<Rightarrow> string" where
  "replace_char c t s = concat (map (\<lambda>x. if x = c then t else [x]) s)"

definition escape_html :: "string \<Rightarrow> string" where
  "escape_html s =
     replace_char (char_of (39::nat)) ''&#39;'' (replace_char (char_of (34::nat)) ''&quot;''
       (replace_char CHR ''>'' ''&gt;'' (replace_char CHR ''<'' ''&lt;'' (replace_char CHR ''&'' ''&amp;'' s))))"

definition localized_path :: "string \<Rightarrow> string option \<Rightarrow> string" where
  "localized_path l rest =
     (case rest of
        None \<Rightarrow> ''/'' @ l
      | Some r \<Rightarrow> if r = [] then ''/'' @ l else ''/'' @ l @ ''/'' @ r)"

definition quote_char :: string where
  "quote_char = [char_of (34::nat)]"

definition alternate_link :: "string \<Rightarrow> string \<Rightarrow> string" where
  "alternate_link hreflang href =
     ''<link rel='' @ quote_char @ ''alternate'' @ quote_char @ '' hreflang='' @ quote_char @ hreflang @ quote_char @
     '' href='' @ quote_char @ escape_html href @ quote_char @ ''>''"

definition localized_head :: "i18n_routing option \<Rightarrow> string \<Rightarrow> string \<Rightarrow> route_params \<Rightarrow> (string \<times> string) option" where
  "localized_head config route_path request_path params =
     (case config of
        None \<Rightarrow> None
      | Some config \<Rightarrow>
          if get (split_on CHR ''/'' route_path) 1 \<noteq> Some (''['' @ locale_param config @ '']'') then None
          else
            (case params (locale_param config) of
               Some (JString v) \<Rightarrow>
                 map_option (\<lambda>l.
                   let rest = Option.bind (strip_prefix request_path ''/'') (\<lambda>p. map_option snd (split_once CHR ''/'' p)) in
                   (l, concat (map (\<lambda>alternate. alternate_link alternate (localized_path alternate rest)) (locales config)) @
                       alternate_link ''x-default'' (localized_path (default_locale config) rest)))
                   (canonical_locale config v)
             | _ \<Rightarrow> None))"

section \<open>Redirects settle\<close>

definition supported :: "i18n_routing \<Rightarrow> string \<Rightarrow> bool" where
  "supported config l \<longleftrightarrow> (\<exists>s\<in>set (locales config). eq_ignore_ascii_case s l)"

lemma find_Some_member: "List.find P xs = Some x \<Longrightarrow> x \<in> set xs \<and> P x"
  by (induction xs) (auto split: if_splits)

lemma find_map_Some_member: "find_map f xs = Some y \<Longrightarrow> \<exists>x\<in>set xs. f x = Some y"
  by (induction xs) (auto simp: option_or_def split: option.splits)

lemma member_supported: "l \<in> set (locales config) \<Longrightarrow> supported config l"
  by (auto simp: supported_def eq_ignore_ascii_case_def)

lemma canonical_supported: "canonical_locale config l \<noteq> None \<longleftrightarrow> supported config l"
  by (auto simp: canonical_locale_def supported_def find_None_iff)

lemma preferred_supported:
  assumes "supported config (default_locale config)"
  shows "supported config (preferred_locale parse_f32 one config headers)"
proof -
  have "l \<in> set (locales config)" if "cookie_locale config c = Some l" for c l
  proof -
    have "\<exists>pair\<in>set (split_on CHR '';'' c). (case split_once CHR ''='' (trim pair) of
        None \<Rightarrow> None | Some (name, v) \<Rightarrow> if name = i18n_cookie config then canonical_locale config (trim v) else None) = Some l"
      using that unfolding cookie_locale_def by (intro find_map_Some_member) simp
    then show ?thesis by (auto simp: canonical_locale_def dest!: find_Some_member split: option.splits if_splits)
  qed
  moreover have "l \<in> set (locales config)" if "find_map (language_locale config) es = Some l" for es l
  proof -
    from find_map_Some_member [OF that] obtain a q z where "language_locale config (a, q, z) = Some l" by force
    then show ?thesis
      by (auto simp: language_locale_def canonical_locale_def dest!: find_Some_member split: option.splits if_splits)
  qed
  ultimately show ?thesis
    using assms member_supported
    by (auto simp: preferred_locale_def Let_def split: option.split bind_splits)
qed

lemma join_with_chars: "set (join_with [c] ws) \<subseteq> insert c (\<Union>(set ` set ws))"
  by (induction "[c]" ws rule: join_with.induct) auto

lemma valid_locale_chars: "valid_locale l \<Longrightarrow> c \<in> set l \<Longrightarrow> is_ascii_alphanumeric c \<or> c = CHR ''-''"
  using join_with_chars [of "CHR ''-''" "split_on CHR ''-'' l"] by (fastforce simp: valid_locale_def list_all_iff)

lemma check_locales_valid: "check_locales ls seen = Inr () \<Longrightarrow> \<forall>l\<in>set ls. valid_locale l"
  by (induction ls arbitrary: seen) (auto split: if_splits)

lemma validate_i18n_facts:
  assumes "validate_i18n o' = Inr ()"
  shows "supported (routing o') (default_locale (routing o'))" and "\<forall>l\<in>set (locales (routing o')). valid_locale l"
  using assms check_locales_valid [of "io_locales o'" "{}"]
  by (auto simp: validate_i18n_def routing_def supported_def list_ex_iff rbind_Inr_iff split: if_splits)

lemma lowercase_slash: "to_ascii_lowercase c = CHR ''/'' \<Longrightarrow> c = CHR ''/''"
proof (cases "is_ascii_upper c")
  case True
  assume "to_ascii_lowercase c = CHR ''/''"
  then have "byte (char_of (byte c + 32)) = byte CHR ''/''" using True by (simp add: to_ascii_lowercase_def)
  then have "(byte c + 32) mod 256 = 47" by (simp add: byte_def)
  moreover have "65 \<le> byte c" "byte c \<le> 90" using True by (simp_all add: is_ascii_upper_def)
  ultimately show "c = CHR ''/''" by simp
qed (simp add: to_ascii_lowercase_def)

lemma supported_no_slash:
  assumes "supported config l" "\<forall>s\<in>set (locales config). valid_locale s"
  shows "CHR ''/'' \<notin> set l"
proof
  assume "CHR ''/'' \<in> set l"
  then have "to_ascii_lowercase CHR ''/'' \<in> set (map to_ascii_lowercase l)" by simp
  moreover have "to_ascii_lowercase CHR ''/'' = CHR ''/''" by code_simp
  moreover obtain s where s: "s \<in> set (locales config)" "map to_ascii_lowercase s = map to_ascii_lowercase l"
    using assms(1) by (auto simp: supported_def eq_ignore_ascii_case_def)
  ultimately have "CHR ''/'' \<in> to_ascii_lowercase ` set s" by (metis image_set)
  then have "CHR ''/'' \<in> set s" using lowercase_slash by force
  then have "is_ascii_alphanumeric CHR ''/'' \<or> CHR ''/'' = CHR ''-''"
    using assms(2) s(1) valid_locale_chars by blast
  moreover have "\<not> is_ascii_alphanumeric CHR ''/''" by code_simp
  ultimately show False by simp
qed

lemma prefixed_path_locale:
  assumes "supported config l" "\<forall>s\<in>set (locales config). valid_locale s" "starts_with p ''/''"
  shows "path_locale config (prefixed_path l p) \<noteq> None"
proof -
  have no: "CHR ''/'' \<notin> set l" by (rule supported_no_slash [OF assms(1,2)])
  obtain rest where "p = CHR ''/'' # rest" using assms(3) by (auto simp: starts_with_iff)
  then have "strip_prefix (prefixed_path l p) ''/'' = Some (if p = ''/'' then l else l @ CHR ''/'' # rest)"
    by (simp add: prefixed_path_def strip_prefix_Some_iff)
  moreover have "hd (split_on CHR ''/'' (l @ CHR ''/'' # r)) = l" "hd (split_on CHR ''/'' l) = l" for r
    using no by (simp_all add: split_on_append split_on_free)
  ultimately show ?thesis
    using assms(1) by (auto simp: path_locale_def canonical_supported [symmetric])
qed


definition example_i18n :: i18n_options where
  "example_i18n = \<lparr>io_locales = [''en'', ''th''], io_default_locale = ''en'', io_locale_param = None, io_detect_locale = None, io_cookie = None\<rparr>"

definition localized_manifest :: route_manifest where
  "localized_manifest = \<lparr>app_dir = [], routes = [page_at ''/[lang]/about''], i18n = None\<rparr>"

definition thai_visitor :: locale_headers where
  "thai_visitor = \<lparr>lh_cookie = None, lh_accept_language = Some ''fr, th;q=0.9''\<rparr>"


section \<open>The query of a redirect\<close>

definition uri_safe :: "char \<Rightarrow> bool" where
  "uri_safe c \<longleftrightarrow> 33 \<le> byte c \<and> byte c \<le> 126 \<and> byte c \<noteq> 34 \<and> c \<noteq> CHR ''<'' \<and> c \<noteq> CHR ''>''"

lemma safe_byte_kept: "uri_safe c \<Longrightarrow> encode_query_byte c = [c]"
  by (auto simp: uri_safe_def encode_query_byte_def push_latin1_def byte_def)

lemma hex_digit_safe:
  assumes "d < 16"
  shows "uri_safe (hex_digit d)"
proof -
  have "d \<in> {0, 1, 2, 3, 4, 5, 6, 7, 8, 9, 10, 11, 12, 13, 14, 15}" using assms unfolding insert_iff empty_iff by arith
  then show ?thesis by (elim insertE emptyE) (hypsubst, code_simp)+
qed

lemma escapes_safe:
  "list_all uri_safe ''%20''" "list_all uri_safe ''%22''" "list_all uri_safe ''%3C''" "list_all uri_safe ''%3E''" "uri_safe CHR ''%''"
  by code_simp+

lemma encode_query_byte_safe:
  assumes "byte c < 128"
  shows "list_all uri_safe (encode_query_byte c)"
proof -
  have space: "c = CHR '' ''" if "byte c = 32"
  proof -
    have "c = char_of (byte c)" by simp
    also have "\<dots> = char_of (32::nat)" using that by (simp only:)
    also have "\<dots> = CHR '' ''" by code_simp
    finally show ?thesis .
  qed
  have "byte c div 16 < 16" "byte c mod 16 < 16" using assms by simp_all
  then have hex: "uri_safe (hex_digit (byte c div 16))" "uri_safe (hex_digit (byte c mod 16))" by (simp_all add: hex_digit_safe)
  have "push_latin1 c = [c]" using assms by (simp add: push_latin1_def)
  moreover have "uri_safe c" if "32 \<noteq> byte c" "byte c \<noteq> 34" "c \<noteq> CHR ''<''" "c \<noteq> CHR ''>''" "\<not> (byte c \<le> 31 \<or> byte c = 127)"
    using that assms by (simp add: uri_safe_def)
  ultimately show ?thesis
    using space hex escapes_safe by (simp add: encode_query_byte_def) metis
qed

text \<open>The query of an ASCII request comes out without a space, a quotation mark, an angle bracket or a control
  character, so the location header cannot be split; and a second redirect reproduces it unchanged.\<close>

theorem encoded_query_safe:
  assumes "\<forall>c\<in>set q. byte c < 128"
  shows "(\<forall>c\<in>set (encoded_query q). uri_safe c) \<and> encoded_query (encoded_query q) = encoded_query q"
proof -
  have safe: "\<forall>c\<in>set (encoded_query q). uri_safe c"
  proof
    fix c
    assume "c \<in> set (encoded_query q)"
    then obtain x where "x \<in> set q" "c \<in> set (encode_query_byte x)" by (auto simp: encoded_query_def)
    with assms encode_query_byte_safe [of x] show "uri_safe c" by (simp add: list_all_iff)
  qed
  have "concat (map encode_query_byte s) = s" if "\<forall>c\<in>set s. uri_safe c" for s
    using that by (induction s) (simp_all add: safe_byte_kept)
  with safe show ?thesis by (simp add: encoded_query_def)
qed

theorem encoded_query_safe_witness:
  "encoded_query (''a b'' @ [char_of (10::nat)] @ ''<c%20'') = ''a%20b%3Cc%20'' \<and>
   encoded_query (encoded_query (''a b'' @ [char_of (10::nat)] @ ''<c%20'')) = encoded_query (''a b'' @ [char_of (10::nat)] @ ''<c%20'')"
proof
  have "\<forall>c\<in>set (''a b'' @ [char_of (10::nat)] @ ''<c%20''). byte c < 128" by code_simp
  from encoded_query_safe [OF this]
  show "encoded_query (encoded_query (''a b'' @ [char_of (10::nat)] @ ''<c%20'')) = encoded_query (''a b'' @ [char_of (10::nat)] @ ''<c%20'')" ..
qed code_simp

text \<open>Beyond ASCII every byte of the query becomes a character of its own: the two bytes of an accented letter
  come out as four, and the next redirect doubles them again.\<close>

theorem encoded_query_garbles:
  "encoded_query [CHR 0xC3, CHR 0xA9] = [CHR 0xC3, CHR 0x83, CHR 0xC2, CHR 0xA9] \<and>
   length (encoded_query (encoded_query [CHR 0xC3, CHR 0xA9])) = 8"
  by (intro conjI) code_simp+

end
