(* ===== verification/Asset_Paths.thy ===== *)
theory Asset_Paths
  imports Module_Graph Chunks
begin

text \<open>
  Paths of static files (\<open>static_assets.rs\<close>): which request paths may be joined to a root, which file
  answers one, and which paths name an asset at all.

  A path is its text, as the code hands it to the file system; its components are those of a Unix
  \<open>std::path::Path\<close>, on which \<open>without_verbatim_prefix\<close> is the identity. The file system is a record of what
  it answers when asked about a path.
\<close>

section \<open>Path texts\<close>

datatype component = Root_Dir | Cur_Dir | Parent_Dir | Normal string

fun is_normal :: "component \<Rightarrow> bool" where
  "is_normal (Normal _) = True"
| "is_normal _ = False"

text \<open>\<open>Path::components\<close>: empty segments and every dot but a leading one are dropped.\<close>

definition path_components :: "string \<Rightarrow> component list" where
  "path_components s =
     (if starts_with s ''/'' then [Root_Dir] else if hd (split_on (CHR ''/'') s) = ''.'' then [Cur_Dir] else []) @
     map (\<lambda>w. if w = ''..'' then Parent_Dir else Normal w)
       (filter (\<lambda>w. w \<noteq> [] \<and> w \<noteq> ''.'') (split_on (CHR ''/'') s))"

text \<open>\<open>Path::join\<close>.\<close>

definition join_raw :: "string \<Rightarrow> string \<Rightarrow> string" where
  "join_raw base rel =
     (if starts_with rel ''/'' then rel
      else if base = [] \<or> ends_with base ''/'' then base @ rel else base @ ''/'' @ rel)"

text \<open>The file name of a path that does not end in a dot segment, the last extension replaced.\<close>

definition drop_slashes :: "string \<Rightarrow> string" where
  "drop_slashes p = rev (dropWhile (\<lambda>c. c = CHR ''/'') (rev p))"

definition raw_name :: "string \<Rightarrow> string" where
  "raw_name p = rev (takeWhile (\<lambda>c. c \<noteq> CHR ''/'') (rev (drop_slashes p)))"

definition raw_extension :: "string \<Rightarrow> string option" where
  "raw_extension p = file_extension (raw_name p)"

definition file_stem :: "string \<Rightarrow> string" where
  "file_stem name = (case file_extension name of None \<Rightarrow> name | Some e \<Rightarrow> take (length name - length e - 1) name)"

definition with_extension :: "string \<Rightarrow> string \<Rightarrow> string" where
  "with_extension p ext =
     (let q = drop_slashes p; name = raw_name p in
      take (length q - length name) q @ file_stem name @ ''.'' @ ext)"

section \<open>Requests that may reach the file system\<close>

text \<open>\<open>char::is_control\<close> on UTF-8 text: the ASCII controls and U+0080 to U+009F.\<close>

fun has_control :: "string \<Rightarrow> bool" where
  "has_control [] = False"
| "has_control (c # cs) =
     (byte c < 32 \<or> byte c = 127 \<or>
      (byte c = 194 \<and> (case cs of [] \<Rightarrow> False | d # _ \<Rightarrow> 128 \<le> byte d \<and> byte d \<le> 159)) \<or> has_control cs)"

definition is_safe_relative_path :: "string \<Rightarrow> bool" where
  "is_safe_relative_path p =
     (p \<noteq> [] \<and> CHR 0x5C \<notin> set p \<and> list_all is_normal (path_components p) \<and>
      list_all (\<lambda>segment. segment = [] \<or>
          (segment \<noteq> ''.'' \<and> segment \<noteq> ''..'' \<and> CHR '':'' \<notin> set segment \<and> \<not> has_control segment))
        (split_on (CHR ''/'') p))"

text \<open>\<open>candidate.strip_prefix(root)\<close> on components.\<close>

definition lexically_contained :: "string \<Rightarrow> string \<Rightarrow> bool" where
  "lexically_contained root candidate =
     (let rc = path_components root; cc = path_components candidate in
      take (length rc) cc = rc \<and> list_all is_normal (drop (length rc) cc))"

record asset_files =
  is_file :: "string \<Rightarrow> bool"
  path_exists :: "string \<Rightarrow> bool"
  canonicalize :: "string \<Rightarrow> string option"

definition path_starts_with :: "string \<Rightarrow> string \<Rightarrow> bool" where
  "path_starts_with p root =
     (take (length (path_components root)) (path_components p) = path_components root)"

definition contained_public_asset :: "asset_files \<Rightarrow> string \<Rightarrow> string \<Rightarrow> string option" where
  "contained_public_asset fs public_dir candidate =
     (if \<not> lexically_contained public_dir candidate then None
      else if \<not> path_exists fs public_dir \<or> \<not> path_exists fs candidate then None
      else
        (case (canonicalize fs public_dir, canonicalize fs candidate) of
           (Some root, Some file) \<Rightarrow> if path_starts_with file root then Some file else None
         | _ \<Rightarrow> None))"

definition is_convertible_image_url :: "string \<Rightarrow> bool" where
  "is_convertible_image_url p =
     (map_option (map to_ascii_lowercase) (raw_extension p) \<in> {Some ''png'', Some ''jpg'', Some ''jpeg''})"

text \<open>The sources of a \<open>.webp\<close> address. The code sorts them and drops repetitions, then asks whether one is
  left; the order is not observable.\<close>

definition webp_sources :: "asset_files \<Rightarrow> string \<Rightarrow> string \<Rightarrow> string list" where
  "webp_sources fs public_dir requested =
     remdups (List.map_filter
       (\<lambda>ext. let p = with_extension requested ext in
          if is_file fs p then contained_public_asset fs public_dir p else None)
       [''png'', ''jpg'', ''jpeg'', ''PNG'', ''JPG'', ''JPEG''])"

definition resolve_public_asset :: "asset_files \<Rightarrow> string \<Rightarrow> string \<Rightarrow> string option" where
  "resolve_public_asset fs public_dir request_path =
     (if \<not> is_safe_relative_path request_path then None
      else if contains_str request_path ''../'' then None
      else
        (let requested = join_raw public_dir request_path in
         if is_file fs requested then contained_public_asset fs public_dir requested
         else
           (case (if raw_extension requested = Some ''webp'' then webp_sources fs public_dir requested else []) of
              [source] \<Rightarrow> Some source
            | _ \<Rightarrow>
                (if is_convertible_image_url requested \<and> is_file fs (with_extension requested ''webp'')
                 then contained_public_asset fs public_dir (with_extension requested ''webp'') else None))))"

definition resolve_client_file :: "asset_files \<Rightarrow> string \<Rightarrow> string \<Rightarrow> string option" where
  "resolve_client_file fs client_dir request_path =
     (case strip_prefix request_path ''/__ruvyxa/client/'' of
        None \<Rightarrow> None
      | Some name \<Rightarrow>
          (if name = [] \<or> CHR ''/'' \<in> set name \<or> CHR 0x5C \<in> set name \<or> contains_str name ''..'' then None
           else contained_public_asset fs client_dir (join_raw client_dir name)))"

section \<open>Paths that name an asset\<close>

definition STATIC_ASSET_EXTENSIONS :: "string list" where
  "STATIC_ASSET_EXTENSIONS =
    [''apng'', ''avif'', ''bmp'', ''css'', ''eot'', ''gif'', ''ico'', ''jpeg'', ''jpg'', ''js'', ''map'', ''mjs'', ''mov'',
     ''mp3'', ''mp4'', ''ogg'', ''otf'', ''png'', ''svg'', ''ttf'', ''wav'', ''webm'', ''webp'', ''woff'', ''woff2'']"

definition is_crawler_discovery_path :: "string \<Rightarrow> bool" where
  "is_crawler_discovery_path p =
     (trim_end_matches ''/'' p \<in> {''/robots.txt'', ''/sitemap.xml'', ''/sitemap_index.xml''})"

definition is_static_asset_request :: "string \<Rightarrow> bool" where
  "is_static_asset_request p =
     (is_crawler_discovery_path p \<or>
      (case rsplit_once (CHR ''.'') (last (split_on (CHR ''/'') p)) of
         None \<Rightarrow> False
       | Some (name, ext) \<Rightarrow>
           name \<noteq> [] \<and> ext \<noteq> [] \<and> map to_ascii_lowercase ext \<in> set STATIC_ASSET_EXTENSIONS))"

definition CONTENT_TYPES :: "(string \<times> string) list" where
  "CONTENT_TYPES =
    [(''css'', ''text/css; charset=utf-8''), (''js'', ''text/javascript; charset=utf-8''),
     (''mjs'', ''text/javascript; charset=utf-8''), (''json'', ''application/json; charset=utf-8''),
     (''map'', ''application/json; charset=utf-8''), (''webmanifest'', ''application/manifest+json; charset=utf-8''),
     (''html'', ''text/html; charset=utf-8''), (''txt'', ''text/plain; charset=utf-8''),
     (''xml'', ''application/xml; charset=utf-8''), (''svg'', ''image/svg+xml''), (''png'', ''image/png''),
     (''jpg'', ''image/jpeg''), (''jpeg'', ''image/jpeg''), (''webp'', ''image/webp''), (''avif'', ''image/avif''),
     (''gif'', ''image/gif''), (''ico'', ''image/x-icon''), (''woff'', ''font/woff''), (''woff2'', ''font/woff2''),
     (''wasm'', ''application/wasm''), (''apng'', ''image/apng''), (''bmp'', ''image/bmp''),
     (''eot'', ''application/vnd.ms-fontobject''), (''mov'', ''video/quicktime''), (''mp3'', ''audio/mpeg''),
     (''mp4'', ''video/mp4''), (''ogg'', ''audio/ogg''), (''otf'', ''font/otf''), (''ttf'', ''font/ttf''),
     (''wav'', ''audio/wav''), (''webm'', ''video/webm'')]"

definition content_type_for :: "string \<Rightarrow> string" where
  "content_type_for p =
     (case Option.bind (raw_extension p) (\<lambda>e. map_of CONTENT_TYPES (map to_ascii_lowercase e)) of
        None \<Rightarrow> ''application/octet-stream'' | Some t \<Rightarrow> t)"

definition client_asset_content_type :: "string \<Rightarrow> string" where
  "client_asset_content_type p =
     (case raw_extension p of
        Some e \<Rightarrow>
          (if e = ''css'' then ''text/css; charset=utf-8''
           else if e = ''map'' \<or> e = ''json'' then ''application/json; charset=utf-8''
           else ''text/javascript; charset=utf-8'')
      | None \<Rightarrow> ''text/javascript; charset=utf-8'')"

section \<open>Components of joined paths\<close>

lemma starts_with_append_ne: "s \<noteq> [] \<Longrightarrow> starts_with (s @ t) [c] \<longleftrightarrow> starts_with s [c]"
  by (cases s) (auto simp: starts_with_def)

lemma normal_start:
  assumes "list_all is_normal (path_components p)"
  shows "\<not> starts_with p ''/''" "hd (split_on (CHR ''/'') p) \<noteq> ''.''" "Parent_Dir \<notin> set (path_components p)"
proof -
  show "\<not> starts_with p ''/''" "hd (split_on (CHR ''/'') p) \<noteq> ''.''"
    using assms by (auto simp: path_components_def split: if_splits)
  show "Parent_Dir \<notin> set (path_components p)"
    using assms by (auto simp: list_all_iff)
qed

lemma hd_split_on_sep: "hd (split_on c (s @ c # t)) = hd (split_on c s)"
  by (simp add: split_on_append_sep)

lemma components_slash: "s \<noteq> [] \<Longrightarrow> path_components (s @ ''/'') = path_components s"
  by (simp add: path_components_def starts_with_append_ne hd_split_on_sep split_on_append_sep)

lemma components_below:
  assumes "list_all is_normal (path_components p)" "s \<noteq> []"
  shows "path_components (s @ CHR ''/'' # p) = path_components s @ path_components p"
  using normal_start [OF assms(1)] assms(2)
  by (simp add: path_components_def starts_with_append_ne hd_split_on_sep split_on_append_sep)

lemma components_join:
  assumes "list_all is_normal (path_components p)"
  shows "path_components (join_raw dir p) = path_components dir @ path_components p"
proof -
  consider "dir = []" | "ends_with dir ''/''" "dir \<noteq> []" | "\<not> ends_with dir ''/''" "dir \<noteq> []" by blast
  then show ?thesis
  proof cases
    case 1
    moreover have "\<not> starts_with [] ''/''" by (simp add: starts_with_def)
    ultimately show ?thesis using normal_start [OF assms] by (simp add: join_raw_def path_components_def)
  next
    case 2
    then obtain d where d: "dir = d @ ''/''" by (auto simp: ends_with_iff)
    show ?thesis
    proof (cases "d = []")
      case True
      then show ?thesis using normal_start [OF assms] d 2
        by (simp add: join_raw_def path_components_def starts_with_def)
    next
      case False
      then show ?thesis using components_below [OF assms False] components_slash [OF False] normal_start [OF assms] 2
        by (simp add: join_raw_def d)
    qed
  next
    case 3
    then show ?thesis using components_below [OF assms, of dir] normal_start [OF assms] by (simp add: join_raw_def)
  qed
qed

lemma contained_self: "lexically_contained dir dir"
  by (simp add: lexically_contained_def)

lemma contained_iff:
  "lexically_contained root p \<longleftrightarrow> (\<exists>ns. list_all is_normal ns \<and> path_components p = path_components root @ ns)"
  by (auto simp: lexically_contained_def Let_def intro: exI [of _ "drop (length (path_components root)) (path_components p)"])
    (metis append_take_drop_id)

lemma safe_components:
  assumes "is_safe_relative_path p"
  shows "list_all is_normal (path_components p)" "path_components p \<noteq> []"
proof -
  show n: "list_all is_normal (path_components p)" using assms by (simp add: is_safe_relative_path_def)
  have "p \<noteq> []" using assms by (simp add: is_safe_relative_path_def)
  then obtain c t where p: "p = c # t" by (cases p) auto
  have "c \<noteq> CHR ''/''" using normal_start(1) [OF n] p by (auto simp: starts_with_def)
  then obtain w ws where w: "split_on (CHR ''/'') p = w # ws" "w \<noteq> []"
    using p by (cases "split_on (CHR ''/'') t") auto
  then show "path_components p \<noteq> []"
    using normal_start(2) [OF n] by (auto simp: path_components_def)
qed

lemma components_name:
  assumes "CHR ''/'' \<notin> set w" "w \<notin> {[], ''.'', ''..''}"
  shows "path_components w = [Normal w]"
  using assms by (cases w) (auto simp: path_components_def split_on_free starts_with_def)

subsection \<open>Replacing the extension\<close>

lemma drop_slashes_split: "\<exists>k. p = drop_slashes p @ replicate k (CHR ''/'')"
proof -
  let ?t = "takeWhile (\<lambda>c. c = CHR ''/'') (rev p)"
  have "?t = replicate (length ?t) (CHR ''/'')"
    by (rule replicate_eqI) (auto dest: set_takeWhileD)
  moreover have "p = drop_slashes p @ rev ?t"
    unfolding drop_slashes_def rev_append [symmetric] by simp
  ultimately show ?thesis by (metis rev_replicate)
qed

lemma components_drop_slashes: "drop_slashes p \<noteq> [] \<Longrightarrow> path_components (drop_slashes p) = path_components p"
proof -
  assume "drop_slashes p \<noteq> []"
  then have "path_components (drop_slashes p @ replicate k (CHR ''/'')) = path_components (drop_slashes p)" for k
  proof (induction k)
    case (Suc k)
    then show ?case
      using components_slash [of "drop_slashes p @ replicate k (CHR ''/'')"]
      by (simp add: replicate_append_same [symmetric])
  qed simp
  then show ?thesis using drop_slashes_split [of p] by metis
qed

definition raw_parent :: "string \<Rightarrow> string" where
  "raw_parent p = take (length (drop_slashes p) - length (raw_name p)) (drop_slashes p)"

lemma raw_parent_name:
  "drop_slashes p = raw_parent p @ raw_name p" "CHR ''/'' \<notin> set (raw_name p)"
  "raw_parent p = [] \<or> ends_with (raw_parent p) ''/''"
proof -
  let ?q = "drop_slashes p" and ?d = "dropWhile (\<lambda>c. c \<noteq> CHR ''/'') (rev (drop_slashes p))"
  have q: "?q = rev ?d @ raw_name p"
    unfolding raw_name_def rev_append [symmetric] by simp
  then have parent: "raw_parent p = rev ?d" unfolding raw_parent_def by (metis add_diff_cancel_right' append_eq_conv_conj length_append)
  then show "?q = raw_parent p @ raw_name p" using q by simp
  show "CHR ''/'' \<notin> set (raw_name p)" by (auto simp: raw_name_def dest: set_takeWhileD)
  show "raw_parent p = [] \<or> ends_with (raw_parent p) ''/''"
    unfolding parent by (cases ?d) (auto simp: ends_with_def starts_with_def dest: arg_cong [of _ _ hd] dropWhile_eq_Cons_conv [THEN iffD1])
qed

lemma file_extension_stem:
  assumes "file_extension name = Some e"
  shows "name = file_stem name @ ''.'' @ e" "file_stem name \<noteq> []"
proof -
  define after where "after = takeWhile (\<lambda>c. c \<noteq> CHR ''.'') (rev name)"
  define rest where "rest = dropWhile (\<lambda>c. c \<noteq> CHR ''.'') (rev name)"
  have e: "CHR ''.'' \<in> set name" "e = rev after" "drop (length after + 1) (rev name) \<noteq> []"
    using assms by (auto simp: file_extension_def Let_def after_def split: if_splits)
  have split: "rev name = after @ rest" by (simp add: after_def rest_def)
  have "rest \<noteq> []" "\<And>c s. rest = c # s \<Longrightarrow> c = CHR ''.''"
    using e(1) by (auto simp: rest_def dropWhile_eq_Nil_conv dropWhile_eq_Cons_conv)
  then obtain stem where stem: "rest = CHR ''.'' # stem" by (cases rest) auto
  have "name = rev (after @ rest)" by (simp flip: split)
  then have name: "name = rev stem @ ''.'' @ e" by (simp add: stem e(2))
  then have "file_stem name = rev stem" using assms by (simp add: file_stem_def)
  moreover have "drop (length after + 1) (rev name) = stem" by (simp add: split stem)
  ultimately show "name = file_stem name @ ''.'' @ e" "file_stem name \<noteq> []" using name e(3) by simp_all
qed

lemma stem_of_name:
  assumes "CHR ''/'' \<notin> set name" "name \<notin> {[], ''.'', ''..''}" "CHR ''/'' \<notin> set ext" "ext \<notin> {[], ''.''}"
  shows "CHR ''/'' \<notin> set (file_stem name @ ''.'' @ ext)" "file_stem name @ ''.'' @ ext \<notin> {[], ''.'', ''..''}"
proof -
  have s: "file_stem name \<noteq> []" "set (file_stem name) \<subseteq> set name"
    using file_extension_stem [of name] assms(2)
    by (cases "file_extension name"; auto simp: file_stem_def dest: in_set_takeD)+
  then show "CHR ''/'' \<notin> set (file_stem name @ ''.'' @ ext)" using assms(1,3) by auto
  show "file_stem name @ ''.'' @ ext \<notin> {[], ''.'', ''..''}"
    using s(1) assms(4) by (auto simp: append_eq_Cons_conv Cons_eq_append_conv)
qed

text \<open>The name of a request is one of its segments.\<close>

lemma name_is_segment: "raw_name p \<in> set (split_on (CHR ''/'') p)"
proof -
  obtain k where k: "p = raw_parent p @ raw_name p @ replicate k (CHR ''/'')"
    using drop_slashes_split [of p] raw_parent_name(1) [of p] by (metis append.assoc)
  have "raw_name p \<in> set (split_on (CHR ''/'') (raw_name p @ replicate k (CHR ''/'')))"
    using raw_parent_name(2) [of p] by (cases k) (auto simp: split_on_free split_on_append)
  moreover have "raw_parent p = [] \<or> (\<exists>d. raw_parent p = d @ ''/'')"
    using raw_parent_name(3) [of p] by (auto simp: ends_with_iff)
  moreover have "split_on (CHR ''/'') ((d @ ''/'') @ t) = split_on (CHR ''/'') d @ split_on (CHR ''/'') t" for d t
    by (simp add: split_on_append_sep)
  ultimately show ?thesis
    using k by (metis Un_iff append_Nil set_append)
qed

lemma drop_slashes_end: "drop_slashes p = [] \<or> last (drop_slashes p) \<noteq> CHR ''/''"
  using hd_dropWhile [of "\<lambda>c. c = CHR ''/''" "rev p"] by (auto simp: drop_slashes_def last_rev)

lemma safe_name:
  assumes "is_safe_relative_path p"
  shows "raw_name p \<notin> {[], ''.'', ''..''}" "drop_slashes p \<noteq> []"
proof -
  have segments: "list_all (\<lambda>w. w = [] \<or> w \<noteq> ''.'' \<and> w \<noteq> ''..'') (split_on (CHR ''/'') p)"
    using assms by (auto simp: is_safe_relative_path_def list_all_iff)
  have start: "p \<noteq> []" "\<not> starts_with p ''/''"
    using assms normal_start(1) [OF safe_components(1) [OF assms]] by (auto simp: is_safe_relative_path_def)
  show ne: "drop_slashes p \<noteq> []"
  proof
    assume "drop_slashes p = []"
    then obtain k where k: "p = replicate k (CHR ''/'')" using drop_slashes_split [of p] by auto
    with start(1) obtain j where "k = Suc j" by (cases k) auto
    with k start(2) show False by (simp add: starts_with_def)
  qed
  have "raw_name p \<noteq> []"
    using drop_slashes_end [of p] raw_parent_name [of p] ne by (auto simp: ends_with_iff)
  then show "raw_name p \<notin> {[], ''.'', ''..''}"
    using segments name_is_segment [of p] by (auto simp: list_all_iff)
qed

lemma with_extension_parts: "with_extension p ext = raw_parent p @ file_stem (raw_name p) @ ''.'' @ ext"
  by (simp add: with_extension_def raw_parent_def Let_def)

text \<open>Replacing the extension of a request that is safe to join replaces its last component only.\<close>

lemma components_with_extension:
  assumes "is_safe_relative_path r" and ext: "CHR ''/'' \<notin> set ext" "ext \<notin> {[], ''.''}"
  shows "list_all is_normal (path_components (with_extension r ext))"
proof -
  let ?name = "raw_name r" and ?new = "file_stem (raw_name r) @ ''.'' @ ext"
  note name = raw_parent_name(2) [of r] safe_name(1) [OF assms(1)]
  have below: "path_components (raw_parent r @ w) = path_components (raw_parent r) @ [Normal w]"
    if "CHR ''/'' \<notin> set w" "w \<notin> {[], ''.'', ''..''}" for w
  proof -
    have w: "path_components w = [Normal w]" by (rule components_name [OF that])
    have "join_raw (raw_parent r) w = raw_parent r @ w"
      using raw_parent_name(3) [of r] normal_start(1) [of w] w by (auto simp: join_raw_def)
    then show ?thesis using components_join [of w "raw_parent r"] w by simp
  qed
  have "list_all is_normal (path_components (raw_parent r @ ?name))"
    using safe_components(1) [OF assms(1)] components_drop_slashes [OF safe_name(2) [OF assms(1)]]
      raw_parent_name(1) [of r] by simp
  then show ?thesis
    using below [OF name] below [OF stem_of_name [OF name ext]] by (simp add: with_extension_parts)
qed

lemma name_below:
  assumes "pre = [] \<or> ends_with pre ''/''" and ne: "drop_slashes r \<noteq> []"
  shows "drop_slashes (pre @ r) = pre @ drop_slashes r" "raw_name (pre @ r) = raw_name r"
    "raw_parent (pre @ r) = pre @ raw_parent r"
proof -
  show slashes: "drop_slashes (pre @ r) = pre @ drop_slashes r"
    using ne by (auto simp: drop_slashes_def dropWhile_append dropWhile_eq_Nil_conv)
  let ?P = "\<lambda>c. c \<noteq> CHR ''/''"
  have "takeWhile ?P (rev (drop_slashes r) @ rev pre) = takeWhile ?P (rev (drop_slashes r))"
  proof (cases "CHR ''/'' \<in> set (drop_slashes r)")
    case True
    then show ?thesis by (intro takeWhile_append1 [of "CHR ''/''"]) auto
  next
    case False
    then have "takeWhile ?P (rev (drop_slashes r)) = rev (drop_slashes r)"
      by (auto simp: takeWhile_eq_all_conv)
    moreover have "takeWhile ?P (rev pre) = []"
      using assms(1) by (auto simp: ends_with_iff)
    moreover have "takeWhile ?P (rev (drop_slashes r) @ rev pre) = rev (drop_slashes r) @ takeWhile ?P (rev pre)"
      by (rule takeWhile_append2) (use False in auto)
    ultimately show ?thesis by (simp only: append_Nil2)
  qed
  then show name: "raw_name (pre @ r) = raw_name r"
    by (simp add: raw_name_def slashes)
  have "length (raw_name r) \<le> length (drop_slashes r)"
    using raw_parent_name(1) [of r] by (metis le_add2 length_append)
  then show "raw_parent (pre @ r) = pre @ raw_parent r"
    by (simp add: raw_parent_def slashes name)
qed

lemma join_raw_prefix:
  assumes "\<not> starts_with r ''/''"
  obtains pre where "pre = [] \<or> ends_with pre ''/''" "join_raw dir r = pre @ r"
    "\<And>s. \<not> starts_with s ''/'' \<Longrightarrow> join_raw dir s = pre @ s"
proof (cases "dir = [] \<or> ends_with dir ''/''")
  case True
  then have "join_raw dir s = dir @ s" if "\<not> starts_with s ''/''" for s
    using that by (auto simp: join_raw_def)
  with True show ?thesis using that [of dir] assms by blast
next
  case False
  then have "join_raw dir s = (dir @ ''/'') @ s" if "\<not> starts_with s ''/''" for s
    using that by (simp add: join_raw_def)
  moreover have "ends_with (dir @ ''/'') ''/''" by (simp only: ends_with_iff) blast
  ultimately show ?thesis using that [of "dir @ ''/''"] assms by blast
qed

lemma with_extension_join:
  assumes "is_safe_relative_path r" "CHR ''/'' \<notin> set ext" "ext \<notin> {[], ''.''}"
  shows "with_extension (join_raw dir r) ext = join_raw dir (with_extension r ext)"
proof -
  obtain pre where pre: "pre = [] \<or> ends_with pre ''/''" "join_raw dir r = pre @ r"
    "\<And>s. \<not> starts_with s ''/'' \<Longrightarrow> join_raw dir s = pre @ s"
    using join_raw_prefix [OF normal_start(1) [OF safe_components(1) [OF assms(1)]]] by blast
  note below = name_below [OF pre(1) safe_name(2) [OF assms(1)]]
  have "join_raw dir (with_extension r ext) = pre @ with_extension r ext"
    by (rule pre(3) [OF normal_start(1) [OF components_with_extension [OF assms]]])
  then show ?thesis
    by (simp add: pre(2) with_extension_parts below(2,3))
qed

section \<open>What a request can reach\<close>

definition IMAGE_EXTENSIONS :: "string list" where
  "IMAGE_EXTENSIONS = [''png'', ''jpg'', ''jpeg'', ''PNG'', ''JPG'', ''JPEG'', ''webp'']"

lemma image_extension: "ext \<in> set IMAGE_EXTENSIONS \<Longrightarrow> CHR ''/'' \<notin> set ext \<and> ext \<notin> {[], ''.''}"
  by (auto simp: IMAGE_EXTENSIONS_def)

text \<open>Every path that a lookup asks the file system about names something below the root.\<close>

lemma probed_below:
  assumes "is_safe_relative_path r"
  shows "lexically_contained dir (join_raw dir r)"
    and "ext \<in> set IMAGE_EXTENSIONS \<Longrightarrow> lexically_contained dir (with_extension (join_raw dir r) ext)"
  using safe_components(1) [OF assms] components_with_extension [OF assms] with_extension_join [OF assms] image_extension
  by (auto simp: contained_iff components_join)

definition agree_below :: "string \<Rightarrow> asset_files \<Rightarrow> asset_files \<Rightarrow> bool" where
  "agree_below dir fs fs' \<longleftrightarrow> (\<forall>p. lexically_contained dir p \<longrightarrow>
     is_file fs p = is_file fs' p \<and> path_exists fs p = path_exists fs' p \<and> canonicalize fs p = canonicalize fs' p)"

lemma contained_asset_agree:
  "agree_below dir fs fs' \<Longrightarrow> contained_public_asset fs dir p = contained_public_asset fs' dir p"
  using contained_self by (simp add: contained_public_asset_def agree_below_def)

lemma contained_asset_SomeD:
  assumes "contained_public_asset fs dir p = Some f"
  shows "lexically_contained dir p" "canonicalize fs p = Some f" "\<exists>root. canonicalize fs dir = Some root \<and> path_starts_with f root"
  using assms by (auto simp: contained_public_asset_def split: if_splits option.splits)

lemma map_filter_eq: "(\<And>x. x \<in> set xs \<Longrightarrow> f x = g x) \<Longrightarrow> List.map_filter f xs = List.map_filter g xs"
  by (induction xs) (simp_all add: List.map_filter_simps split: option.split)

lemma map_filter_memD: "y \<in> set (List.map_filter f xs) \<Longrightarrow> \<exists>x\<in>set xs. f x = Some y"
  by (induction xs) (auto simp: List.map_filter_simps split: option.splits)

lemma webp_sources_agree:
  assumes "agree_below dir fs fs'" "is_safe_relative_path r"
  shows "webp_sources fs dir (join_raw dir r) = webp_sources fs' dir (join_raw dir r)"
proof -
  have "is_file fs (with_extension (join_raw dir r) ext) = is_file fs' (with_extension (join_raw dir r) ext)"
    if "ext \<in> set [''png'', ''jpg'', ''jpeg'', ''PNG'', ''JPG'', ''JPEG'']" for ext
  proof -
    have "ext \<in> set IMAGE_EXTENSIONS" using that unfolding IMAGE_EXTENSIONS_def by auto
    then show ?thesis using probed_below(2) [OF assms(2)] assms(1) unfolding agree_below_def by blast
  qed
  then show ?thesis
    unfolding webp_sources_def Let_def contained_asset_agree [OF assms(1)]
    by (intro arg_cong [of _ _ remdups] map_filter_eq) simp
qed

section \<open>Containment\<close>

text \<open>A file that answers a request is what a path below the public directory resolves to, and what it
  resolves to lies below what the directory itself resolves to: neither a traversal nor a symbolic link
  leads out. The same holds for the client bundle directory.\<close>

lemma resolved_contained:
  assumes "resolve_public_asset fs dir r = Some f \<or> resolve_client_file fs dir r = Some f"
  shows "\<exists>p root. lexically_contained dir p \<and> canonicalize fs p = Some f \<and>
    canonicalize fs dir = Some root \<and> path_starts_with f root"
proof -
  have "\<exists>p. contained_public_asset fs dir p = Some f" if "webp_sources fs dir q = [f]" for q
  proof -
    have "f \<in> set (webp_sources fs dir q)" using that by simp
    then show ?thesis
      unfolding webp_sources_def set_remdups Let_def by (elim map_filter_memD [THEN bexE]) (meson option.distinct(1))
  qed
  then have "\<exists>p. contained_public_asset fs dir p = Some f" if "resolve_public_asset fs dir r = Some f"
    using that unfolding resolve_public_asset_def Let_def
    by (auto split: if_split_asm list.split_asm simp del: file_stem_def)
  moreover have "\<exists>p. contained_public_asset fs dir p = Some f" if "resolve_client_file fs dir r = Some f"
    using that by (auto simp: resolve_client_file_def split: if_splits option.splits)
  ultimately have "\<exists>p. contained_public_asset fs dir p = Some f"
    using assms by blast
  then show ?thesis using contained_asset_SomeD by blast
qed

text \<open>A root with one image, and a link in it that leads out.\<close>

definition gallery_files :: asset_files where
  "gallery_files =
     \<lparr>is_file = (\<lambda>p. p \<in> {''/srv/public/hero.PNG'', ''/srv/public/leak.css''}),
      path_exists = (\<lambda>p. p \<in> {''/srv/public'', ''/srv/public/hero.PNG'', ''/srv/public/leak.css''}),
      canonicalize = (\<lambda>p. if p = ''/srv/public/leak.css'' then Some ''/etc/secret.css''
                         else if p \<in> {''/srv/public'', ''/srv/public/hero.PNG''} then Some p else None)\<rparr>"

lemma gallery_contained:
  "resolve_public_asset gallery_files ''/srv/public'' ''hero.webp'' = Some ''/srv/public/hero.PNG'' \<and>
   (\<exists>p root. lexically_contained ''/srv/public'' p \<and> canonicalize gallery_files p = Some ''/srv/public/hero.PNG'' \<and>
     canonicalize gallery_files ''/srv/public'' = Some root \<and> path_starts_with ''/srv/public/hero.PNG'' root) \<and>
   resolve_public_asset gallery_files ''/srv/public'' ''leak.css'' = None"
proof (intro conjI)
  show r: "resolve_public_asset gallery_files ''/srv/public'' ''hero.webp'' = Some ''/srv/public/hero.PNG''"
    by code_simp
  show "\<exists>p root. lexically_contained ''/srv/public'' p \<and> canonicalize gallery_files p = Some ''/srv/public/hero.PNG'' \<and>
     canonicalize gallery_files ''/srv/public'' = Some root \<and> path_starts_with ''/srv/public/hero.PNG'' root"
    by (rule resolved_contained [OF disjI1 [OF r]])
  show "resolve_public_asset gallery_files ''/srv/public'' ''leak.css'' = None"
    by code_simp
qed

text \<open>A lookup asks the file system only about paths below the public directory: two file systems that
  answer alike there give the same file, so no request can find out what exists elsewhere.\<close>

lemma lookup_agree:
  assumes "agree_below dir fs fs'"
  shows "resolve_public_asset fs dir r = resolve_public_asset fs' dir r"
proof (cases "is_safe_relative_path r")
  case True
  have files: "is_file fs p = is_file fs' p" if "lexically_contained dir p" for p
    using assms that by (simp add: agree_below_def)
  have "is_file fs (join_raw dir r) = is_file fs' (join_raw dir r)"
    "is_file fs (with_extension (join_raw dir r) ''webp'') = is_file fs' (with_extension (join_raw dir r) ''webp'')"
    using probed_below [OF True] by (auto intro!: files simp: IMAGE_EXTENSIONS_def)
  then show ?thesis
    unfolding resolve_public_asset_def Let_def contained_asset_agree [OF assms] webp_sources_agree [OF assms True]
    by (simp only:)
qed (simp add: resolve_public_asset_def)

text \<open>The substring test beside the join refuses more than the segment rule it repeats: a directory whose
  name ends in two dots is a safe segment, and no file below it is ever served.\<close>

theorem dotted_directory_refused:
  "is_safe_relative_path ''v1../app.css'' \<and> resolve_public_asset fs dir ''v1../app.css'' = None"
proof -
  have "is_safe_relative_path ''v1../app.css''" "contains_str ''v1../app.css'' ''../''" by code_simp+
  then show ?thesis by (simp add: resolve_public_asset_def)
qed

text \<open>A dot segment inside a candidate is not seen by the component walk.\<close>

lemma dot_segment_contained: "lexically_contained ''/srv/public'' ''/srv/public/./a.css''"
  by code_simp

end
