(* ===== verification/Decimal.thy ===== *)
theory Decimal
  imports Manifest
begin

text \<open>
  Decimal texts: what \<open>show_nat\<close> prints, \<open>parse_unsigned\<close> reads back. A shared library of the theories
  whose code prints numbers into headers and reads them again.
\<close>

section \<open>Digits\<close>

definition digit_char :: "int \<Rightarrow> char" where
  "digit_char d = char_of (48 + nat d)"

lemma digit_char_props:
  assumes "0 \<le> d" "d < 10"
  shows "is_ascii_digit (digit_char d)" "to_digit 10 (digit_char d) = Some d" "digit_char d \<noteq> CHR ''+''"
    "digit_char d \<noteq> CHR ''-''" "digit_char d \<noteq> CHR '',''" "\<not> is_space (digit_char d)"
proof -
  have "list_all (\<lambda>d. is_ascii_digit (digit_char d) \<and> to_digit 10 (digit_char d) = Some d \<and>
      digit_char d \<noteq> CHR ''+'' \<and> digit_char d \<noteq> CHR ''-'' \<and> digit_char d \<noteq> CHR '','' \<and>
      \<not> is_space (digit_char d)) [0, 1, 2, 3, 4, 5, 6, 7, 8, 9]"
    by code_simp
  moreover have "d \<in> set [0, 1, 2, 3, 4, 5, 6, 7, 8, 9]" using assms by (simp, arith)
  ultimately show "is_ascii_digit (digit_char d)" "to_digit 10 (digit_char d) = Some d"
    "digit_char d \<noteq> CHR ''+''" "digit_char d \<noteq> CHR ''-''" "digit_char d \<noteq> CHR '',''"
    "\<not> is_space (digit_char d)"
    unfolding list_all_iff by blast+
qed

lemma digit_chars:
  "char_of (48::nat) = CHR ''0''" "char_of (49::nat) = CHR ''1''" "char_of (50::nat) = CHR ''2''"
  "char_of (51::nat) = CHR ''3''" "char_of (52::nat) = CHR ''4''" "char_of (53::nat) = CHR ''5''"
  "char_of (54::nat) = CHR ''6''" "char_of (55::nat) = CHR ''7''" "char_of (56::nat) = CHR ''8''"
  "char_of (57::nat) = CHR ''9''"
  by code_simp+

section \<open>Reading digits\<close>

lemma parse_decimal_digits:
  assumes "list_all (\<lambda>d. 0 \<le> d \<and> d < 10) ds"
  shows "parse_decimal limit acc (map digit_char ds) =
    (let v = foldl (\<lambda>a d. a * 10 + d) acc ds in if v < limit then Some v else None)"
  using assms by (induction ds arbitrary: acc) (auto simp: digit_char_props)

lemma read_digit_chars:
  assumes "list_all (\<lambda>d. 0 \<le> d \<and> d < 10) ds" "ds \<noteq> []"
  shows "parse_unsigned limit (map digit_char ds) =
    (let v = foldl (\<lambda>a d. a * 10 + d) 0 ds in if v < limit then Some v else None)"
    and "list_all is_ascii_digit (map digit_char ds)"
proof -
  obtain d ds' where ds: "ds = d # ds'" using assms(2) by (cases ds) auto
  then have "digit_char d \<noteq> CHR ''+''" using assms(1) by (auto simp: digit_char_props)
  then show "parse_unsigned limit (map digit_char ds) =
    (let v = foldl (\<lambda>a d. a * 10 + d) 0 ds in if v < limit then Some v else None)"
    using parse_decimal_digits [OF assms(1), of limit 0] by (simp add: parse_unsigned_def ds)
  show "list_all is_ascii_digit (map digit_char ds)"
    using assms(1) by (auto simp: list_all_iff digit_char_props)
qed

section \<open>Printed numbers\<close>

lemma show_nat_digits:
  "\<exists>ds. show_nat n = map digit_char ds \<and> list_all (\<lambda>d. 0 \<le> d \<and> d < 10) ds \<and> ds \<noteq> [] \<and>
    foldl (\<lambda>a d. a * 10 + d) 0 ds = int n"
proof (induction n rule: show_nat.induct)
  case (1 n)
  show ?case
  proof (cases "n < 10")
    case True
    then have "show_nat n = map digit_char [int n]"
      by (simp add: show_nat.simps digit_char_def)
    with True show ?thesis by (intro exI [of _ "[int n]"]) simp
  next
    case False
    with 1 obtain ds where ds: "show_nat (n div 10) = map digit_char ds" "list_all (\<lambda>d. 0 \<le> d \<and> d < 10) ds"
      "ds \<noteq> []" "foldl (\<lambda>a d. a * 10 + d) 0 ds = int (n div 10)" by blast
    have "show_nat n = map digit_char (ds @ [int (n mod 10)])"
      using False ds(1) by (subst show_nat.simps) (simp add: digit_char_def nat_mod_distrib)
    moreover have "foldl (\<lambda>a d. a * 10 + d) 0 (ds @ [int (n mod 10)]) = int n"
      using ds(4) by (simp add: zdiv_int zmod_int)
    ultimately show ?thesis
      using ds(2,3) by (intro exI [of _ "ds @ [int (n mod 10)]"]) (simp add: zmod_int)
  qed
qed

lemma parse_show_nat: "parse_unsigned limit (show_nat n) = (if int n < limit then Some (int n) else None)"
  using show_nat_digits [of n] read_digit_chars(1) by (auto simp: Let_def)

lemma show_nat_all_digits: "list_all is_ascii_digit (show_nat n)" "show_nat n \<noteq> []"
  using show_nat_digits [of n] read_digit_chars(2) by auto

lemma ascii_digit_char: "is_ascii_digit c \<Longrightarrow> c \<noteq> CHR ''-'' \<and> c \<noteq> CHR '','' \<and> c \<noteq> CHR ''+'' \<and> \<not> is_space c"
  by (auto simp: is_ascii_digit_def is_space_def byte_def)

lemma trim_free: "list_all (\<lambda>c. \<not> is_space c) s \<Longrightarrow> trim s = s"
proof -
  assume "list_all (\<lambda>c. \<not> is_space c) s"
  then have "dropWhile is_space s = s" "dropWhile is_space (rev s) = rev s"
    by (auto simp: list_all_iff dropWhile_eq_self_iff hd_conv_nth rev_nth intro!: nth_mem)
  then show ?thesis by (simp add: trim_def)
qed

lemma trim_show_nat [simp]: "trim (show_nat n) = show_nat n"
  using show_nat_all_digits(1) [of n] by (intro trim_free) (auto simp: list_all_iff ascii_digit_char)

lemma show_nat_separators [simp]: "CHR '','' \<notin> set (show_nat n)" "CHR ''-'' \<notin> set (show_nat n)"
  using show_nat_all_digits(1) [of n] ascii_digit_char by (auto simp: list_all_iff)

end
