(* ===== verification/Http_Date.thy ===== *)
theory Http_Date
  imports Decimal
begin

text \<open>
  The dates of HTTP validators (\<open>static_assets.rs\<close>): the civil date of an epoch second, its inverse, the
  \<open>IMF-fixdate\<close> a response carries and the parser of the one a request carries.

  A \<open>SystemTime\<close> is the number of nanoseconds since the Unix epoch, negative before it. The \<open>i64\<close> and
  \<open>u32\<close> values of the source stay far within their width for every \<open>u64\<close> second, so they are \<open>int\<close>;
  division of the source is on values that are not negative, or is \<open>div_euclid\<close> by a positive divisor,
  and is \<open>div\<close> in both cases. The reference calendar counts days one after the other.
\<close>

section \<open>The civil calendar\<close>

type_synonym system_time = int

definition NANOS :: int where "NANOS = 1000000000"

definition epoch_seconds :: "system_time \<Rightarrow> int option" where
  "epoch_seconds t = (if t < 0 then None else Some (t div NANOS))"

text \<open>The date part of \<open>civil_from_epoch\<close>, from the number of days.\<close>

definition civil_from_days :: "int \<Rightarrow> int \<times> int \<times> int" where
  "civil_from_days days =
     (let shifted = days + 719468;
          era = shifted div 146097;
          day_of_era = shifted mod 146097;
          year_of_era = (day_of_era - day_of_era div 1460 + day_of_era div 36524 - day_of_era div 146096) div 365;
          day_of_year = day_of_era - (365 * year_of_era + year_of_era div 4 - year_of_era div 100);
          march_month = (5 * day_of_year + 2) div 153;
          day = day_of_year - (153 * march_month + 2) div 5 + 1;
          month = (if march_month < 10 then march_month + 3 else march_month - 9) in
      (year_of_era + era * 400 + (if month \<le> 2 then 1 else 0), month, day))"

record civil =
  year :: int
  month :: int
  day :: int
  weekday :: int
  hour :: int
  minute :: int
  second :: int

definition civil_from_epoch :: "int \<Rightarrow> civil" where
  "civil_from_epoch seconds =
     (let days = seconds div 86400; time = seconds mod 86400; (y, m, d) = civil_from_days days in
      \<lparr>year = y, month = m, day = d, weekday = (days + 4) mod 7, hour = time div 3600,
       minute = (time div 60) mod 60, second = time mod 60\<rparr>)"

definition epoch_days_from_civil :: "int \<Rightarrow> int \<Rightarrow> int \<Rightarrow> int" where
  "epoch_days_from_civil y0 m d =
     (let y = y0 - (if m \<le> 2 then 1 else 0);
          era = y div 400;
          year_of_era = y mod 400;
          march_month = (if m > 2 then m - 3 else m + 9);
          day_of_year = (153 * march_month + 2) div 5 + d - 1;
          day_of_era = year_of_era * 365 + year_of_era div 4 - year_of_era div 100 + day_of_year in
      era * 146097 + day_of_era - 719468)"

subsection \<open>Header dates\<close>

definition HTTP_WEEKDAYS :: "string list" where
  "HTTP_WEEKDAYS = [''Sun'', ''Mon'', ''Tue'', ''Wed'', ''Thu'', ''Fri'', ''Sat'']"

definition HTTP_MONTHS :: "string list" where
  "HTTP_MONTHS = [''Jan'', ''Feb'', ''Mar'', ''Apr'', ''May'', ''Jun'', ''Jul'', ''Aug'', ''Sep'', ''Oct'',
    ''Nov'', ''Dec'']"

text \<open>The format \<open>{:0w}\<close> of a number that is not negative.\<close>

definition zero_padded :: "nat \<Rightarrow> int \<Rightarrow> string" where
  "zero_padded w n = (let s = show_nat (nat n) in replicate (w - length s) (CHR ''0'') @ s)"

definition http_date :: "system_time \<Rightarrow> string option" where
  "http_date t =
     map_option (\<lambda>seconds. let c = civil_from_epoch seconds in
         HTTP_WEEKDAYS ! nat (weekday c) @ '', '' @ zero_padded 2 (day c) @ '' '' @
         HTTP_MONTHS ! nat (month c - 1) @ '' '' @ zero_padded 4 (year c) @ '' '' @
         zero_padded 2 (hour c) @ '':'' @ zero_padded 2 (minute c) @ '':'' @ zero_padded 2 (second c) @ '' GMT'')
       (epoch_seconds t)"

definition slice :: "nat \<Rightarrow> nat \<Rightarrow> string \<Rightarrow> string" where
  "slice i j s = take (j - i) (drop i s)"

text \<open>The closure \<open>number\<close>: a slice of digits only, read as a \<open>u64\<close>.\<close>

definition date_number :: "string \<Rightarrow> nat \<Rightarrow> nat \<Rightarrow> int option" where
  "date_number s i j =
     (let digits = slice i j s in
      if list_all is_ascii_digit digits then parse_unsigned (2 ^ 64) digits else None)"

fun name_position :: "'a \<Rightarrow> 'a list \<Rightarrow> nat option" where
  "name_position x [] = None"
| "name_position x (y # ys) = (if x = y then Some 0 else map_option Suc (name_position x ys))"

definition parse_http_date :: "string \<Rightarrow> int option" where
  "parse_http_date s0 =
     (let s = trim s0 in
      if length s \<noteq> 29 \<or> \<not> ends_with s '' GMT'' then None
      else if slice 0 3 s \<notin> set HTTP_WEEKDAYS \<or> s ! 3 \<noteq> CHR '','' \<or> s ! 4 \<noteq> CHR '' '' then None
      else
        (case (date_number s 5 7, name_position (slice 8 11 s) HTTP_MONTHS, date_number s 12 16,
               date_number s 17 19, date_number s 20 22, date_number s 23 25) of
           (Some d, Some m, Some y, Some h, Some mi, Some sec) \<Rightarrow>
             (if d < 1 \<or> 31 < d \<or> 23 < h \<or> 59 < mi \<or> 60 < sec then None
              else
                (let days = epoch_days_from_civil y (int m + 1) d in
                 if days < 0 then None else Some (days * 86400 + h * 3600 + mi * 60 + sec)))
         | _ \<Rightarrow> None))"

section \<open>The reference calendar\<close>

definition is_leap :: "int \<Rightarrow> bool" where
  "is_leap y \<longleftrightarrow> 4 dvd y \<and> (\<not> 100 dvd y \<or> 400 dvd y)"

definition days_in_month :: "int \<Rightarrow> int \<Rightarrow> int" where
  "days_in_month y m = (if m = 2 then if is_leap y then 29 else 28 else if m \<in> {4, 6, 9, 11} then 30 else 31)"

definition valid_date :: "int \<times> int \<times> int \<Rightarrow> bool" where
  "valid_date = (\<lambda>(y, m, d). 1 \<le> m \<and> m \<le> 12 \<and> 1 \<le> d \<and> d \<le> days_in_month y m)"

definition next_day :: "int \<times> int \<times> int \<Rightarrow> int \<times> int \<times> int" where
  "next_day = (\<lambda>(y, m, d).
     if d < days_in_month y m then (y, m, d + 1) else if m < 12 then (y, m + 1, 1) else (y + 1, 1, 1))"

definition epoch_date :: "int \<times> int \<times> int" where "epoch_date = (1970, 1, 1)"

section \<open>The calendar functions agree with it\<close>

text \<open>The days before the March that starts a year.\<close>

definition march_start :: "int \<Rightarrow> int" where
  "march_start y = 365 * y + y div 4 - y div 100 + y div 400"

lemma march_start_era:
  "y div 400 * 146097 + (y mod 400 * 365 + y mod 400 div 4 - y mod 400 div 100) = march_start y"
proof -
  have y: "y = 400 * (y div 400) + y mod 400" by simp
  have "(y mod 400 + 100 * (y div 400) * 4) div 4 = 100 * (y div 400) + y mod 400 div 4"
    "(y mod 400 + 4 * (y div 400) * 100) div 100 = 4 * (y div 400) + y mod 400 div 100"
    by (rule div_mult_self1, simp)+
  then have "y div 4 = 100 * (y div 400) + y mod 400 div 4" "y div 100 = 4 * (y div 400) + y mod 400 div 100"
    by simp_all
  then show ?thesis
    using y unfolding march_start_def by linarith
qed

lemma div_Suc_int:
  assumes "0 < (n::int)"
  shows "(y + 1) div n = y div n + (if n dvd y + 1 then 1 else 0)"
proof (cases "y mod n + 1 = n")
  case True
  have "y + 1 = n * (y div n + 1)"
    unfolding distrib_left using True mult_div_mod_eq [of n y] by linarith
  then show ?thesis
    using assms by simp
next
  case False
  have r: "0 \<le> y mod n" "y mod n + 1 < n"
    using False pos_mod_bound [OF assms, of y] pos_mod_sign [OF assms, of y] by auto
  have y: "y + 1 = n * (y div n) + (y mod n + 1)"
    using mult_div_mod_eq [of n y] by linarith
  have q: "(y + 1) div n = y div n"
    by (rule int_div_pos_eq [OF y]) (use r in linarith)+
  have "(y + 1) mod n = y mod n + 1"
    by (rule int_mod_pos_eq [OF y]) (use r in linarith)+
  then have "\<not> n dvd y + 1"
    unfolding dvd_eq_mod_eq_0 using r by linarith
  with q show ?thesis
    by simp
qed

lemma leap_count:
  assumes "(c \<longrightarrow> b)" "(b \<longrightarrow> a)"
  shows "(if a then 1 else 0) - (if b then 1 else 0) + (if c then 1 else (0::int)) =
    (if a \<and> (\<not> b \<or> c) then 1 else 0)"
  using assms by (cases a; cases b; cases c) simp_all

lemma march_start_Suc: "march_start (y + 1) = march_start y + (if is_leap (y + 1) then 366 else 365)"
proof -
  have "(100::int) dvd 400" "(4::int) dvd 100"
    by simp_all
  then have "400 dvd y + 1 \<longrightarrow> 100 dvd y + 1" "100 dvd y + 1 \<longrightarrow> 4 dvd y + 1"
    by (blast intro: dvd_trans)+
  note count = leap_count [OF this, folded is_leap_def]
  have "(y + 1) div 4 = y div 4 + (if 4 dvd y + 1 then 1 else 0)"
    "(y + 1) div 100 = y div 100 + (if 100 dvd y + 1 then 1 else 0)"
    "(y + 1) div 400 = y div 400 + (if 400 dvd y + 1 then 1 else 0)"
    by (rule div_Suc_int, simp)+
  then have "march_start (y + 1) = march_start y + 365 + (if is_leap (y + 1) then 1 else 0)"
    unfolding march_start_def count [symmetric] by (simp only: distrib_left)
  then show ?thesis
    by simp
qed

lemma epoch_days_march:
  "epoch_days_from_civil y m d =
     march_start (y - (if m \<le> 2 then 1 else 0)) +
     ((153 * (if m > 2 then m - 3 else m + 9) + 2) div 5 + d - 1) - 719468"
  unfolding epoch_days_from_civil_def Let_def march_start_era [symmetric] by simp

lemma month_cases: "1 \<le> m \<Longrightarrow> m \<le> 12 \<Longrightarrow> m \<in> {1, 2, 3, 4, 5, 6, 7, 8, 9, 10, 11, 12::int}"
  by (simp, arith)

lemma valid_next_day: "valid_date c \<Longrightarrow> valid_date (next_day c)"
  by (auto simp: valid_date_def next_day_def days_in_month_def split: prod.splits if_splits)

lemma epoch_days_next:
  assumes "valid_date (y, m, d)"
  shows "(\<lambda>(y, m, d). epoch_days_from_civil y m d) (next_day (y, m, d)) = epoch_days_from_civil y m d + 1"
proof -
  have m: "m \<in> {1, 2, 3, 4, 5, 6, 7, 8, 9, 10, 11, 12}" and d: "1 \<le> d" "d \<le> days_in_month y m"
    using assms month_cases by (auto simp: valid_date_def)
  have "march_start y = march_start (y - 1) + (if is_leap y then 366 else 365)"
    using march_start_Suc [of "y - 1"] by simp
  then show ?thesis
    using m d by (auto simp: next_day_def epoch_days_march days_in_month_def)
qed

subsection \<open>From a day of the era to its year\<close>

text \<open>A day of the 400-year era, by century \<open>b\<close>, four-year group \<open>k\<close>, year \<open>j\<close> of the group and day
  of the year that starts in March; the 366th day exists where the following year is a leap year.\<close>

definition era_day :: "int \<Rightarrow> int \<Rightarrow> int \<Rightarrow> int \<Rightarrow> int \<Rightarrow> bool" where
  "era_day b k j doy doe \<longleftrightarrow> 0 \<le> b \<and> b < 4 \<and> 0 \<le> k \<and> k < 25 \<and> 0 \<le> j \<and> j < 4 \<and> 0 \<le> doy \<and> doy \<le> 365 \<and>
     (doy = 365 \<longrightarrow> j = 3 \<and> (k \<noteq> 24 \<or> b = 3)) \<and> doe = 36524 * b + 1461 * k + 365 * j + doy"

lemma era_dayD:
  assumes "era_day b k j doy doe"
  shows "0 \<le> b" "b < 4" "0 \<le> k" "k < 25" "0 \<le> j" "j < 4" "0 \<le> doy" "doy \<le> 365"
    "doe = 36524 * b + 1461 * k + 365 * j + doy"
    and "doy = 365 \<Longrightarrow> j = 3" "doy = 365 \<Longrightarrow> k \<noteq> 24 \<or> b = 3"
  using assms by (auto simp: era_day_def)

lemma centuries:
  assumes "era_day b k j doy doe"
  shows "doe div 36524 - doe div 146096 = b"
proof (cases "doe = 146096")
  case True
  then have "b = 3"
    using era_dayD(1-9) [OF assms] by linarith
  with True show ?thesis by simp
next
  case False
  have "1461 * k + 365 * j + doy < 36524"
  proof (cases "doy = 365")
    case True
    then show ?thesis
      using False era_dayD [OF assms] by linarith
  qed (use era_dayD(1-9) [OF assms] in linarith)
  then have "doe div 36524 = b"
    by (intro int_div_pos_eq [of _ _ _ "1461 * k + 365 * j + doy"]) (use era_dayD(1-9) [OF assms] in linarith)+
  moreover have "doe div 146096 = 0"
    by (rule div_pos_pos_trivial) (use False era_dayD(1-9) [OF assms] in linarith)+
  ultimately show ?thesis by simp
qed

lemma leap_days:
  assumes "era_day b k j doy doe"
  obtains e where "doe div 1460 = 25 * b + k + e" "0 \<le> doy - e" "doy - e < 365"
proof (cases "24 * b + k + 365 * j + doy < 1460")
  case True
  have "doe div 1460 = 25 * b + k"
    by (rule int_div_pos_eq [of _ _ _ "24 * b + k + 365 * j + doy"]) (use True era_dayD(1-9) [OF assms] in auto)
  moreover have "doy < 365"
    using era_dayD [OF assms] True by (cases "doy = 365") auto
  ultimately show ?thesis
    using that [of 0] era_dayD(7) [OF assms] by simp
next
  case False
  have "doe div 1460 = 25 * b + k + 1"
    by (rule int_div_pos_eq [of _ _ _ "24 * b + k + 365 * j + doy - 1460"])
      (use False era_dayD(1-9) [OF assms] in auto)
  moreover have "1 \<le> doy"
    using False era_dayD(1-9) [OF assms] by linarith
  ultimately show ?thesis
    using that [of 1] era_dayD(8) [OF assms] by simp
qed

lemma year_of_era:
  assumes "era_day b k j doy doe"
  shows "(doe - doe div 1460 + doe div 36524 - doe div 146096) div 365 = 100 * b + 4 * k + j"
proof -
  obtain e where e: "doe div 1460 = 25 * b + k + e" "0 \<le> doy - e" "doy - e < 365"
    by (rule leap_days [OF assms])
  show ?thesis
    by (rule int_div_pos_eq [of _ _ _ "doy - e"]) (use e centuries [OF assms] era_dayD(9) [OF assms] in auto)
qed

lemma day_of_year:
  assumes "era_day b k j doy doe"
  shows "doe - (365 * (100 * b + 4 * k + j) + (100 * b + 4 * k + j) div 4 - (100 * b + 4 * k + j) div 100) = doy"
proof -
  have "(100 * b + 4 * k + j) div 4 = 25 * b + k"
    by (rule int_div_pos_eq [of _ _ _ j]) (use era_dayD(5,6) [OF assms] in auto)
  moreover have "(100 * b + 4 * k + j) div 100 = b"
    by (rule int_div_pos_eq [of _ _ _ "4 * k + j"]) (use era_dayD(3-6) [OF assms] in auto)
  ultimately show ?thesis
    using era_dayD(9) [OF assms] by simp
qed

text \<open>The month of a day of such a year, and back.\<close>

lemma march_month_of_day:
  assumes m: "1 \<le> m" "m \<le> 12" and d: "1 \<le> d" "d \<le> days_in_month y m"
  defines "mp \<equiv> if m > 2 then m - 3 else m + 9"
  defines "doy \<equiv> (153 * mp + 2) div 5 + d - 1"
  shows "(5 * doy + 2) div 153 = mp" and "0 \<le> doy" and "doy \<le> 365"
    and "doy = 365 \<longleftrightarrow> m = 2 \<and> d = 29"
proof -
  have d31: "d \<le> 31" "m \<in> {4, 6, 9, 11} \<Longrightarrow> d \<le> 30" "m = 2 \<Longrightarrow> d \<le> 29"
    using d(2) by (auto simp: days_in_month_def split: if_splits)
  show "0 \<le> doy" "doy \<le> 365" "doy = 365 \<longleftrightarrow> m = 2 \<and> d = 29"
    using month_cases [OF m] d(1) d31 unfolding doy_def mp_def by auto
  have "153 * mp \<le> 5 * doy + 2 \<and> 5 * doy + 2 - 153 * mp < 153"
    using month_cases [OF m] d(1) d31 unfolding doy_def mp_def by auto
  then show "(5 * doy + 2) div 153 = mp"
    by (intro int_div_pos_eq [of _ _ _ "5 * doy + 2 - 153 * mp"]) auto
qed

text \<open>Where the year before a leap year stands in the era.\<close>

lemma era_parts:
  assumes "yoe = y mod (400::int)"
  shows "yoe = 100 * (yoe div 100) + 4 * (yoe mod 100 div 4) + yoe mod 4"
    and "y = 400 * (y div 400) + yoe" and "yoe mod 100 = 4 * (yoe mod 100 div 4) + yoe mod 4"
    and "0 \<le> yoe" "yoe < 400" "0 \<le> yoe mod 100" "yoe mod 100 < 100" "0 \<le> yoe mod 4" "yoe mod 4 < 4"
    and "yoe div 4 = 25 * (yoe div 100) + yoe mod 100 div 4"
proof -
  have "yoe mod 100 mod 4 = yoe mod 4"
    by (rule mod_mod_cancel) simp
  then show tens: "yoe mod 100 = 4 * (yoe mod 100 div 4) + yoe mod 4"
    using mult_div_mod_eq [of 4 "yoe mod 100"] by auto
  then show parts: "yoe = 100 * (yoe div 100) + 4 * (yoe mod 100 div 4) + yoe mod 4"
    using mult_div_mod_eq [of 100 yoe] by linarith
  show "y = 400 * (y div 400) + yoe"
    unfolding assms by simp
  show r: "0 \<le> yoe" "yoe < 400" "0 \<le> yoe mod 100" "yoe mod 100 < 100" "0 \<le> yoe mod 4" "yoe mod 4 < 4"
    unfolding assms by (rule pos_mod_sign pos_mod_bound, simp)+
  show "yoe div 4 = 25 * (yoe div 100) + yoe mod 100 div 4"
    by (rule int_div_pos_eq [of _ _ _ "yoe mod 4"]) (use parts r in auto)
qed

lemma before_leap_year:
  assumes "is_leap (y + 1)" and yoe: "yoe = y mod 400"
  shows "yoe mod 4 = 3" and "yoe mod 100 div 4 \<noteq> 24 \<or> yoe div 100 = 3"
proof -
  note parts = era_parts [OF yoe]
  have lp: "4 dvd y + 1" "\<not> 100 dvd y + 1 \<or> 400 dvd y + 1"
    using assms(1) by (auto simp: is_leap_def)
  have "y + 1 = 4 * (100 * (y div 400) + 25 * (yoe div 100) + yoe mod 100 div 4) + (yoe mod 4 + 1)"
    using parts(1,2) by simp
  with lp(1) have "4 dvd yoe mod 4 + 1"
    by (metis dvd_add_right_iff dvd_triv_left)
  then show m3: "yoe mod 4 = 3"
    using parts(8,9) zdvd_imp_le [of 4 "yoe mod 4 + 1"] by linarith
  show "yoe mod 100 div 4 \<noteq> 24 \<or> yoe div 100 = 3"
  proof (rule disjCI)
    assume "\<not> yoe div 100 = 3"
    show "yoe mod 100 div 4 \<noteq> 24"
    proof
      assume k: "yoe mod 100 div 4 = 24"
      have y: "y + 1 = 400 * (y div 400) + 100 * (yoe div 100 + 1)"
        using k m3 parts(1,2) by simp
      then have "y + 1 = 100 * (4 * (y div 400) + yoe div 100 + 1)" by simp
      then have "100 dvd y + 1" by (metis dvd_triv_left)
      with lp(2) have "400 dvd y + 1" by blast
      with y have "400 dvd 100 * (yoe div 100 + 1)"
        by (metis dvd_add_right_iff dvd_triv_left)
      moreover have "0 < 100 * (yoe div 100 + 1)"
        using parts(1,4,8) k m3 by simp
      ultimately have "400 \<le> 100 * (yoe div 100 + 1)"
        by (rule zdvd_imp_le)
      then show False
        using parts(1,5) k m3 \<open>\<not> yoe div 100 = 3\<close> by simp
    qed
  qed
qed

lemma era_day_of_date:
  assumes "valid_date (y0, m, d)"
  defines "y \<equiv> y0 - (if m \<le> 2 then 1 else 0)"
  defines "mp \<equiv> if m > 2 then m - 3 else m + 9"
  defines "yoe \<equiv> y mod 400"
  defines "doy \<equiv> (153 * mp + 2) div 5 + d - 1"
  shows "era_day (yoe div 100) (yoe mod 100 div 4) (yoe mod 4) doy (yoe * 365 + yoe div 4 - yoe div 100 + doy)"
proof -
  have v: "1 \<le> m" "m \<le> 12" "1 \<le> d" "d \<le> days_in_month y0 m"
    using assms(1) by (auto simp: valid_date_def)
  note doy = march_month_of_day(2-4) [OF v, folded mp_def, folded doy_def]
  note parts = era_parts [of yoe y, OF yoe_def [THEN meta_eq_to_obj_eq]]
  have "is_leap (y + 1)" if "doy = 365"
    using that doy(3) v(4) by (auto simp: days_in_month_def y_def split: if_splits)
  then have "doy = 365 \<longrightarrow> yoe mod 4 = 3 \<and> (yoe mod 100 div 4 \<noteq> 24 \<or> yoe div 100 = 3)"
    using before_leap_year [of y yoe] yoe_def by blast
  moreover have "yoe * 365 + yoe div 4 - yoe div 100 + doy =
      36524 * (yoe div 100) + 1461 * (yoe mod 100 div 4) + 365 * (yoe mod 4) + doy"
    using parts(1,10) by linarith
  moreover have "0 \<le> yoe div 100" "yoe div 100 < 4" "0 \<le> yoe mod 100 div 4" "yoe mod 100 div 4 < 25"
    using parts by linarith+
  ultimately show ?thesis
    unfolding era_day_def using doy(1,2) parts(8,9) by blast
qed

lemma civil_from_epoch_days:
  assumes "valid_date (y, m, d)"
  shows "civil_from_days (epoch_days_from_civil y m d) = (y, m, d)"
proof -
  have v: "1 \<le> m" "m \<le> 12" "1 \<le> d" "d \<le> days_in_month y m"
    using assms by (auto simp: valid_date_def)
  define y1 where "y1 = y - (if m \<le> 2 then 1 else 0)"
  define yoe where "yoe = y1 mod 400"
  define mp where "mp = (if m > 2 then m - 3 else m + 9)"
  define doy where "doy = (153 * mp + 2) div 5 + d - 1"
  define doe where "doe = yoe * 365 + yoe div 4 - yoe div 100 + doy"
  note parts = era_parts [OF yoe_def]
  have era: "era_day (yoe div 100) (yoe mod 100 div 4) (yoe mod 4) doy doe"
    unfolding doe_def doy_def mp_def yoe_def y1_def by (rule era_day_of_date [OF assms])
  have yr: "(doe - doe div 1460 + doe div 36524 - doe div 146096) div 365 = yoe"
    using year_of_era [OF era] parts(1) by linarith
  have dy: "doe - (365 * yoe + yoe div 4 - yoe div 100) = doy"
    unfolding doe_def by simp
  have shifted: "epoch_days_from_civil y m d + 719468 = 146097 * (y1 div 400) + doe"
    unfolding epoch_days_from_civil_def Let_def doe_def doy_def mp_def yoe_def y1_def by simp
  have "0 \<le> doe" "doe < 146097"
    using era_dayD(1-9) [OF era] by linarith+
  then have "(epoch_days_from_civil y m d + 719468) div 146097 = y1 div 400"
    "(epoch_days_from_civil y m d + 719468) mod 146097 = doe"
    using int_div_pos_eq [OF shifted] int_mod_pos_eq [OF shifted] by blast+
  moreover have "(5 * doy + 2) div 153 = mp"
    unfolding doy_def mp_def by (rule march_month_of_day(1) [OF v])
  moreover have "doy - (153 * mp + 2) div 5 + 1 = d"
    unfolding doy_def by simp
  moreover have "(if mp < 10 then mp + 3 else mp - 9) = m"
    using v(1,2) by (auto simp: mp_def)
  moreover have "yoe + y1 div 400 * 400 = y1"
    using parts(2) by linarith
  ultimately show ?thesis
    unfolding civil_from_days_def Let_def by (simp only: yr dy) (simp add: y1_def)
qed

lemma civil_from_days_iterates:
  "civil_from_days (int n) = (next_day ^^ n) epoch_date \<and> valid_date ((next_day ^^ n) epoch_date) \<and>
   (\<lambda>(y, m, d). epoch_days_from_civil y m d) ((next_day ^^ n) epoch_date) = int n"
proof -
  have "valid_date ((next_day ^^ n) epoch_date) \<and>
    (\<lambda>(y, m, d). epoch_days_from_civil y m d) ((next_day ^^ n) epoch_date) = int n"
  proof (induction n)
    case 0
    show ?case
      by (simp add: epoch_date_def valid_date_def days_in_month_def epoch_days_from_civil_def)
  next
    case (Suc n)
    then show ?case
      using epoch_days_next valid_next_day by (cases "(next_day ^^ n) epoch_date") simp
  qed
  then show ?thesis
    using civil_from_epoch_days by (cases "(next_day ^^ n) epoch_date") (metis case_prod_conv)
qed

lemma civil_from_days_inverse:
  assumes "0 \<le> n"
  shows "(\<lambda>(y, m, d). epoch_days_from_civil y m d) (civil_from_days n) = n" "valid_date (civil_from_days n)"
  using civil_from_days_iterates [of "nat n"] assms by auto

section \<open>Printing and reading header dates\<close>

lemma march_start_mono: "x \<le> y \<Longrightarrow> march_start x \<le> march_start y"
proof (induction y rule: int_ge_induct)
  case (step y)
  then show ?case using march_start_Suc [of y] by (simp split: if_splits)
qed simp

lemma civil_year_range:
  assumes "0 \<le> n" "n < 2932897" "civil_from_days n = (y, m, d)"
  shows "0 \<le> y" "y < 10000"
proof -
  have n: "epoch_days_from_civil y m d = n" and v: "1 \<le> m" "m \<le> 12" "1 \<le> d" "d \<le> days_in_month y m"
    using civil_from_days_inverse [OF assms(1)] assms(3) by (auto simp: valid_date_def)
  note doy = march_month_of_day(2,3) [OF v]
  show "0 \<le> y"
  proof (rule ccontr)
    assume "\<not> 0 \<le> y"
    then have "march_start (y - (if m \<le> 2 then 1 else 0)) \<le> march_start 0"
      by (intro march_start_mono) auto
    then show False
      using n doy assms(1) unfolding epoch_days_march by (simp add: march_start_def)
  qed
  show "y < 10000"
  proof (rule ccontr)
    assume y: "\<not> y < 10000"
    show False
    proof (cases "m \<le> 2")
      case True
      then have "march_start 9999 \<le> march_start (y - 1)" "m = 1 \<or> m = 2"
        using y v by (auto intro: march_start_mono)
      then show False
        using n v assms(2) True unfolding epoch_days_march by (auto simp: march_start_def)
    next
      case False
      then have "march_start 10000 \<le> march_start y"
        using y by (auto intro: march_start_mono)
      then show False
        using n doy assms(2) False unfolding epoch_days_march by (auto simp: march_start_def)
    qed
  qed
qed

lemma zero_padded_one: "0 \<le> n \<Longrightarrow> n < 10 \<Longrightarrow> zero_padded 1 n = [digit_char n]"
  by (simp add: zero_padded_def show_nat.simps digit_char_def)

lemma zero_padded_Suc:
  assumes "0 \<le> n" "0 < w"
  shows "zero_padded (Suc w) n = zero_padded w (n div 10) @ [digit_char (n mod 10)]"
proof (cases "n < 10")
  case True
  have "char_of (48::nat) = CHR ''0''" by code_simp
  then have "show_nat (nat (n div 10)) = [CHR ''0'']" "show_nat (nat n) = [digit_char (n mod 10)]"
    using assms True by (simp_all add: show_nat.simps digit_char_def div_pos_pos_trivial)
  then show ?thesis
    using assms by (cases w) (simp_all add: zero_padded_def flip: replicate_append_same)
next
  case False
  then have "show_nat (nat n) = show_nat (nat (n div 10)) @ [digit_char (n mod 10)]"
    using assms by (subst show_nat.simps) (simp add: digit_char_def nat_div_distrib nat_mod_distrib)
  then show ?thesis
    by (simp add: zero_padded_def Let_def)
qed

lemma zero_padded_two:
  "0 \<le> n \<Longrightarrow> n < 100 \<Longrightarrow> zero_padded 2 n = [digit_char (n div 10), digit_char (n mod 10)]"
  using zero_padded_Suc [of n 1] zero_padded_one [of "n div 10"] by (simp add: numeral_2_eq_2)

lemma zero_padded_four:
  assumes "0 \<le> n" "n < 10000"
  shows "zero_padded 4 n =
    [digit_char (n div 10 div 10 div 10), digit_char (n div 10 div 10 mod 10), digit_char (n div 10 mod 10),
     digit_char (n mod 10)]"
proof -
  have "zero_padded 4 n = zero_padded 2 (n div 10 div 10) @ [digit_char (n div 10 mod 10), digit_char (n mod 10)]"
    using assms zero_padded_Suc [of n 3] zero_padded_Suc [of "n div 10" 2] by (simp add: eval_nat_numeral)
  then show ?thesis
    using assms zero_padded_two [of "n div 10 div 10"] by simp
qed

lemma name_position_nth: "distinct xs \<Longrightarrow> i < length xs \<Longrightarrow> name_position (xs ! i) xs = Some i"
  by (induction xs arbitrary: i) (auto simp: nth_Cons split: nat.splits)

lemma http_date_names:
  "HTTP_WEEKDAYS ! nat ((n + 4) mod 7) \<in> set HTTP_WEEKDAYS"
  "1 \<le> m \<Longrightarrow> m \<le> 12 \<Longrightarrow> name_position (HTTP_MONTHS ! nat (m - 1)) HTTP_MONTHS = Some (nat (m - 1))"
  "1 \<le> m \<Longrightarrow> m \<le> 12 \<Longrightarrow> length (HTTP_MONTHS ! nat (m - 1)) = 3"
proof -
  have "(n + 4) mod 7 \<ge> 0" "(n + 4) mod 7 < 7" by simp_all
  then show "HTTP_WEEKDAYS ! nat ((n + 4) mod 7) \<in> set HTTP_WEEKDAYS"
    by (intro nth_mem) (auto simp: HTTP_WEEKDAYS_def)
  assume m: "1 \<le> m" "m \<le> 12"
  have "distinct HTTP_MONTHS" "length HTTP_MONTHS = 12" "list_all (\<lambda>s. length s = 3) HTTP_MONTHS"
    by code_simp+
  then show "name_position (HTTP_MONTHS ! nat (m - 1)) HTTP_MONTHS = Some (nat (m - 1))"
    "length (HTTP_MONTHS ! nat (m - 1)) = 3"
    using m by (auto simp: list_all_length intro!: name_position_nth)
qed

lemma weekday_letters:
  assumes "w \<in> set HTTP_WEEKDAYS"
  obtains a b c where "w = [a, b, c]" "\<not> is_space a"
  using assms by (auto simp: HTTP_WEEKDAYS_def is_space_def byte_def)

text \<open>The two halves of the format: what is printed is cut apart at fixed positions.\<close>

lemma fixdate_parts:
  assumes w: "w \<in> set HTTP_WEEKDAYS" and mo: "length mo = 3"
    and len: "length d = 2" "length y = 4" "length h = 2" "length mi = 2" "length sc = 2"
  defines "s \<equiv> w @ '', '' @ d @ '' '' @ mo @ '' '' @ y @ '' '' @ h @ '':'' @ mi @ '':'' @ sc @ '' GMT''"
  shows "trim s = s" "length s = 29" "ends_with s '' GMT''" "slice 0 3 s = w" "s ! 3 = CHR '',''" "s ! 4 = CHR '' ''"
    "slice 5 7 s = d" "slice 8 11 s = mo" "slice 12 16 s = y" "slice 17 19 s = h" "slice 20 22 s = mi"
    "slice 23 25 s = sc"
proof -
  obtain a b c where abc: "w = [a, b, c]" "\<not> is_space a" using weekday_letters [OF w] .
  obtain p q r where pqr: "mo = [p, q, r]" using mo by (auto simp: numeral_3_eq_3 length_Suc_conv)
  obtain d1 d2 where d: "d = [d1, d2]" using len(1) by (auto simp: numeral_2_eq_2 length_Suc_conv)
  obtain y1 y2 y3 y4 where y: "y = [y1, y2, y3, y4]" using len(2) by (auto simp: eval_nat_numeral length_Suc_conv)
  obtain h1 h2 where h: "h = [h1, h2]" using len(3) by (auto simp: numeral_2_eq_2 length_Suc_conv)
  obtain m1 m2 where mi: "mi = [m1, m2]" using len(4) by (auto simp: numeral_2_eq_2 length_Suc_conv)
  obtain s1 s2 where sc: "sc = [s1, s2]" using len(5) by (auto simp: numeral_2_eq_2 length_Suc_conv)
  note n = d y h mi sc
  have s: "s = [a, b, c, CHR '','', CHR '' '', d1, d2, CHR '' '', p, q, r, CHR '' '', y1, y2, y3, y4, CHR '' '',
    h1, h2, CHR '':'', m1, m2, CHR '':'', s1, s2, CHR '' '', CHR ''G'', CHR ''M'', CHR ''T'']"
    by (simp add: s_def abc pqr n)
  have "\<not> is_space (CHR ''T'')" by code_simp
  then show "trim s = s"
    by (simp add: s trim_def abc(2))
  show "length s = 29" "ends_with s '' GMT''" "slice 0 3 s = w" "s ! 3 = CHR '',''" "s ! 4 = CHR '' ''"
    "slice 5 7 s = d" "slice 8 11 s = mo" "slice 12 16 s = y" "slice 17 19 s = h" "slice 20 22 s = mi"
    "slice 23 25 s = sc"
    by (simp_all add: s ends_with_def starts_with_def slice_def abc pqr n)
qed

lemma date_number_digits:
  assumes "slice i j s = map digit_char ds" "list_all (\<lambda>d. 0 \<le> d \<and> d < 10) ds" "ds \<noteq> []"
    "foldl (\<lambda>a d. a * 10 + d) 0 ds = n" "n < 2 ^ 64"
  shows "date_number s i j = Some n"
  unfolding date_number_def Let_def assms(1) using read_digit_chars [OF assms(2,3)] assms(4,5)
  by (simp only: if_True Let_def)

lemma date_number_padded:
  assumes "slice i j s = zero_padded 2 n" "0 \<le> n" "n < 100"
  shows "date_number s i j = Some n"
  by (rule date_number_digits [of i j s "[n div 10, n mod 10]"])
    (use assms zero_padded_two [OF assms(2,3)] in auto)

lemma date_number_year:
  assumes "slice i j s = zero_padded 4 n" "0 \<le> n" "n < 10000"
  shows "date_number s i j = Some n"
proof (rule date_number_digits)
  let ?ds = "[n div 10 div 10 div 10, n div 10 div 10 mod 10, n div 10 mod 10, n mod 10]"
  show "slice i j s = map digit_char ?ds"
    using assms(1) zero_padded_four [OF assms(2,3)] by (simp only: list.map)
  have "0 \<le> n div 10" "n div 10 < 1000"
    using assms(2,3) by simp_all
  moreover from this have "0 \<le> n div 10 div 10" "n div 10 div 10 < 100"
    by simp_all
  ultimately show "list_all (\<lambda>d. 0 \<le> d \<and> d < 10) ?ds"
    by auto
  show "foldl (\<lambda>a d. a * 10 + d) 0 ?ds = n"
    by simp
qed (use assms in auto)

lemma zero_padded_length:
  "0 \<le> n \<Longrightarrow> n < 100 \<Longrightarrow> length (zero_padded 2 n) = 2" "0 \<le> n \<Longrightarrow> n < 10000 \<Longrightarrow> length (zero_padded 4 n) = 4"
  by (simp only: zero_padded_two, simp) (simp only: zero_padded_four, simp)

lemma clock_fields:
  assumes "0 \<le> t" "t < (86400::int)"
  shows "0 \<le> t div 3600" "t div 3600 < 24" "0 \<le> t div 60 mod 60" "t div 60 mod 60 < 60" "0 \<le> t mod 60" "t mod 60 < 60"
    and "t div 3600 * 3600 + t div 60 mod 60 * 60 + t mod 60 = t"
proof -
  show "0 \<le> t div 3600" "t div 3600 < 24" "0 \<le> t div 60 mod 60" "t div 60 mod 60 < 60" "0 \<le> t mod 60" "t mod 60 < 60"
    using assms by simp_all
  have "t div 3600 = t div 60 div 60"
    using zdiv_zmult2_eq [of 60 t 60] by simp
  then show "t div 3600 * 3600 + t div 60 mod 60 * 60 + t mod 60 = t"
    using mult_div_mod_eq [of 60 "t div 60"] mult_div_mod_eq [of 60 t] by linarith
qed

text \<open>Reading a date that was printed, given the fields it was printed from.\<close>

lemma printed_fields_read:
  assumes date: "valid_date (y, m, d)" "0 \<le> y" "y < 10000"
    and clock: "0 \<le> h" "h < 24" "0 \<le> mi" "mi < 60" "0 \<le> sc" "sc < 60"
    and w: "w \<in> set HTTP_WEEKDAYS" and days: "0 \<le> epoch_days_from_civil y m d"
  shows "parse_http_date (w @ '', '' @ zero_padded 2 d @ '' '' @ HTTP_MONTHS ! nat (m - 1) @ '' '' @ zero_padded 4 y @ '' '' @
      zero_padded 2 h @ '':'' @ zero_padded 2 mi @ '':'' @ zero_padded 2 sc @ '' GMT'') =
    Some (epoch_days_from_civil y m d * 86400 + h * 3600 + mi * 60 + sc)" (is "parse_http_date ?s = _")
proof -
  have v: "1 \<le> m" "m \<le> 12" and d: "1 \<le> d" "d \<le> 31"
    using date(1) by (auto simp: valid_date_def days_in_month_def split: if_splits)
  have two: "0 \<le> d" "d < 100" "h < 100" "mi < 100" "sc < 100"
    using d clock by linarith+
  note parts = fixdate_parts [OF w http_date_names(3) [OF v] zero_padded_length(1) [OF two(1,2)]
    zero_padded_length(2) [OF date(2,3)] zero_padded_length(1) [OF clock(1) two(3)]
    zero_padded_length(1) [OF clock(3) two(4)] zero_padded_length(1) [OF clock(5) two(5)]]
  note numbers = date_number_padded [OF parts(7) two(1,2)] date_number_year [OF parts(9) date(2,3)]
    date_number_padded [OF parts(10) clock(1) two(3)] date_number_padded [OF parts(11) clock(3) two(4)]
    date_number_padded [OF parts(12) clock(5) two(5)]
  have "int (nat (m - 1)) + 1 = m" using v by simp
  then show ?thesis
    unfolding parse_http_date_def Let_def parts(1-6,8) numbers http_date_names(2) [OF v]
    using w d clock days parts(3) by simp
qed

lemma printed_date_read:
  assumes seconds: "0 \<le> n" "n < 253402300800"
    and t: "epoch_seconds t = Some n"
  shows "\<exists>s. http_date t = Some s \<and> parse_http_date s = Some n"
proof -
  obtain y m d where c: "civil_from_days (n div 86400) = (y, m, d)"
    by (cases "civil_from_days (n div 86400)") auto
  have days: "0 \<le> n div 86400" "n div 86400 < 2932897"
    using seconds by auto
  have v: "valid_date (y, m, d)" and inverse: "epoch_days_from_civil y m d = n div 86400"
    using civil_from_days_inverse [OF days(1)] by (auto simp: c)
  have time: "0 \<le> n mod 86400" "n mod 86400 < 86400" by simp_all
  note clock = clock_fields [OF time]
  have "n div 86400 * 86400 + (n mod 86400 div 3600 * 3600 + n mod 86400 div 60 mod 60 * 60 + n mod 86400 mod 60) = n"
    unfolding clock(7) by (rule div_mult_mod_eq)
  then show ?thesis
    using printed_fields_read [OF v civil_year_range [OF days c] clock(1-6) http_date_names(1) [of "n div 86400"]] days(1)
    by (simp only: http_date_def t civil_from_epoch_def c Let_def inverse option.map prod.case civil.select_convs
        add.assoc option.inject ex_simps simp_thms HOL.ex_simps)
qed

lemma weekday_iterates: "((\<lambda>w. (w + 1) mod 7) ^^ n) 4 = (int n + 4) mod 7"
  by (induction n) (simp_all add: mod_simps algebra_simps)

section \<open>The properties\<close>

text \<open>C10. The civil date of an epoch second is the one a calendar shows that starts at Thursday,
  1 January 1970 and turns one page per day, by the Gregorian lengths of months and leap years; it is a
  valid date, the time of day adds up to the rest of the second count, and the inverse function
  returns the number of pages.\<close>

theorem civil_is_calendar:
  assumes "0 \<le> s"
  defines "c \<equiv> civil_from_epoch s" and "pages \<equiv> nat (s div 86400)"
  shows "(year c, month c, day c) = (next_day ^^ pages) (1970, 1, 1) \<and> valid_date (year c, month c, day c) \<and>
    weekday c = ((\<lambda>w. (w + 1) mod 7) ^^ pages) 4 \<and>
    hour c \<in> {0..<24} \<and> minute c \<in> {0..<60} \<and> second c \<in> {0..<60} \<and>
    hour c * 3600 + minute c * 60 + second c = s mod 86400 \<and>
    epoch_days_from_civil (year c) (month c) (day c) = s div 86400"
proof -
  have p: "int pages = s div 86400" using assms(1) by (simp add: pages_def)
  obtain y m d where it: "(next_day ^^ pages) (1970, 1, 1) = (y, m, d)"
    by (cases "(next_day ^^ pages) (1970, 1, 1)") auto
  have date: "civil_from_days (s div 86400) = (y, m, d)" "valid_date (y, m, d)"
    "epoch_days_from_civil y m d = s div 86400"
    using civil_from_days_iterates [of pages, unfolded epoch_date_def it] by (simp_all add: p)
  have "0 \<le> s mod 86400" "s mod 86400 < 86400" by simp_all
  note clock = clock_fields [OF this]
  have c: "c = \<lparr>year = y, month = m, day = d, weekday = (s div 86400 + 4) mod 7, hour = s mod 86400 div 3600,
      minute = s mod 86400 div 60 mod 60, second = s mod 86400 mod 60\<rparr>"
    unfolding c_def civil_from_epoch_def Let_def date prod.case ..
  show ?thesis
    unfolding c civil.select_convs weekday_iterates p it atLeastLessThan_iff using date(2,3) clock by blast
qed

theorem civil_is_calendar_witness:
  "(let c = civil_from_epoch 951868800 in
      (year c, month c, day c) = (next_day ^^ nat (951868800 div 86400)) (1970, 1, 1)) \<and>
   civil_from_epoch 951868799 = \<lparr>year = 2000, month = 2, day = 29, weekday = 2, hour = 23, minute = 59, second = 59\<rparr>"
proof
  show "let c = civil_from_epoch 951868800 in
      (year c, month c, day c) = (next_day ^^ nat (951868800 div 86400)) (1970, 1, 1)"
    unfolding Let_def by (rule civil_is_calendar [OF zero_le_numeral, THEN conjunct1])
  show "civil_from_epoch 951868799 =
      \<lparr>year = 2000, month = 2, day = 29, weekday = 2, hour = 23, minute = 59, second = 59\<rparr>"
    by code_simp
qed



text \<open>The parser takes the weekday at its word, does not look at the separators between the fields, and
  rolls a day that the month does not have over into the next month: two different header texts, one of
  them no date at all, are read as the same second.\<close>

theorem impossible_dates_accepted:
  "parse_http_date ''Mon, 31 Feb 2021 08:49:37 GMT'' = Some 1614761377 \<and>
   parse_http_date ''Wed, 03 Mar 2021 08:49:37 GMT'' = Some 1614761377 \<and>
   parse_http_date ''Fri, 03xMar+2021T08.49.37 GMT'' = Some 1614761377"
  by (intro conjI) code_simp+

end
