(* ===== verification/Validators.thy ===== *)
theory Validators
  imports Http_Date Client_Ip
begin

text \<open>
  Conditional and range requests for static files (\<open>static_assets.rs\<close>): entity tags and how they are
  compared, \<open>If-None-Match\<close> and \<open>If-Modified-Since\<close>, \<open>Range\<close> and \<open>If-Range\<close>.

  A byte position is an \<open>int\<close> with the \<open>u64\<close> limit where the parser applies it; \<open>saturating_sub\<close> is
  written out. The request's headers are those of \<open>Client_Ip\<close>: the first value of a name, absent where it
  is not visible text.
\<close>

section \<open>Entity tags\<close>

text \<open>\<open>blake3\<close> in hexadecimal is the parameter \<open>hash\<close>; the tag holds its first 16 digits.\<close>

type_synonym content_hash = "string \<Rightarrow> string"

definition compute_etag :: "content_hash \<Rightarrow> string \<Rightarrow> string" where
  "compute_etag hash bytes = ''\"'' @ take 16 (hash bytes) @ ''\"''"

definition weak_content_etag :: "content_hash \<Rightarrow> string \<Rightarrow> string" where
  "weak_content_etag hash bytes = ''W/'' @ compute_etag hash bytes"

definition normalized_etag :: "string \<Rightarrow> string" where
  "normalized_etag value =
     trim_matches (CHR ''\"'') (case strip_prefix (trim value) ''W/'' of Some r \<Rightarrow> r | None \<Rightarrow> trim value)"

definition etag_matches :: "string \<Rightarrow> string \<Rightarrow> bool" where
  "etag_matches value etag =
     (let target = normalized_etag etag in
      list_ex (\<lambda>candidate. let c = trim candidate in c = ''*'' \<or> normalized_etag c = target)
        (split_on (CHR '','') value))"

section \<open>Freshness\<close>

definition request_matches_etag :: "headers option \<Rightarrow> string \<Rightarrow> bool" where
  "request_matches_etag hs etag =
     (case Option.bind hs (\<lambda>h. header_str h ''if-none-match'') of
        None \<Rightarrow> False | Some value \<Rightarrow> etag_matches value etag)"

definition not_modified_since :: "headers option \<Rightarrow> system_time \<Rightarrow> bool" where
  "not_modified_since hs modified =
     (case Option.bind hs (\<lambda>h. header_str h ''if-modified-since'') of
        None \<Rightarrow> False
      | Some value \<Rightarrow>
          (case (parse_http_date value, epoch_seconds modified) of
             (Some since, Some m) \<Rightarrow> m \<le> since
           | _ \<Rightarrow> False))"

definition request_is_fresh :: "headers option \<Rightarrow> string \<Rightarrow> system_time option \<Rightarrow> bool" where
  "request_is_fresh hs etag modified =
     (let none_match = Option.bind (Option.bind hs (\<lambda>h. header_str h ''if-none-match''))
            (\<lambda>v. if trim v = [] then None else Some (trim v)) in
      if none_match \<noteq> None then request_matches_etag hs etag
      else (case modified of None \<Rightarrow> False | Some m \<Rightarrow> not_modified_since hs m))"

section \<open>Byte ranges\<close>

record byte_range =
  br_start :: int
  br_end :: int

definition byte_range_len :: "byte_range \<Rightarrow> int" where
  "byte_range_len r = br_end r - br_start r + 1"

datatype range_request = Whole | Partial byte_range | Unsatisfiable

definition byte_position :: "string \<Rightarrow> int option" where
  "byte_position s =
     (if s = [] \<or> \<not> list_all is_ascii_digit s then None
      else Some (case parse_unsigned (2 ^ 64) s of Some n \<Rightarrow> n | None \<Rightarrow> 2 ^ 64 - 1))"

definition parse_single_byte_range :: "string \<Rightarrow> int \<Rightarrow> range_request" where
  "parse_single_byte_range value len =
     (case strip_prefix (trim value) ''bytes='' of
        None \<Rightarrow> Whole
      | Some spec0 \<Rightarrow>
          (let spec = trim spec0 in
           if CHR '','' \<in> set spec then Whole
           else
             (case split_once (CHR ''-'') spec of
                None \<Rightarrow> Whole
              | Some (first0, last0) \<Rightarrow>
                  (let first = trim first0; last = trim last0 in
                   if first = [] then
                     (case byte_position last of
                        None \<Rightarrow> Whole
                      | Some n \<Rightarrow>
                          (if n = 0 \<or> len = 0 then Unsatisfiable
                           else Partial \<lparr>br_start = max 0 (len - n), br_end = len - 1\<rparr>))
                   else
                     (case byte_position first of
                        None \<Rightarrow> Whole
                      | Some start \<Rightarrow>
                          (if start \<ge> len then Unsatisfiable
                           else
                             (case (if last = [] then Some (len - 1)
                                    else map_option (\<lambda>e. min e (len - 1)) (byte_position last)) of
                                None \<Rightarrow> Whole
                              | Some e \<Rightarrow>
                                  (if e < start then Unsatisfiable
                                   else Partial \<lparr>br_start = start, br_end = e\<rparr>))))))))"

definition if_range_matches :: "string \<Rightarrow> string option \<Rightarrow> system_time option \<Rightarrow> bool" where
  "if_range_matches if_range validator modified =
     (if starts_with if_range ''\"'' \<or> starts_with if_range ''W/''
      then (case validator of None \<Rightarrow> False | Some v \<Rightarrow> normalized_etag if_range = normalized_etag v)
      else (case (parse_http_date if_range, Option.bind modified epoch_seconds) of
              (Some sent, Some current) \<Rightarrow> sent = current
            | _ \<Rightarrow> False))"

definition requested_range :: "headers option \<Rightarrow> int \<Rightarrow> string option \<Rightarrow> system_time option \<Rightarrow> range_request" where
  "requested_range hs len validator modified =
     (case hs of
        None \<Rightarrow> Whole
      | Some h \<Rightarrow>
          (case header_str h ''range'' of
             None \<Rightarrow> Whole
           | Some value \<Rightarrow>
               (case header_str h ''if-range'' of
                  None \<Rightarrow> parse_single_byte_range value len
                | Some if_range \<Rightarrow>
                    (if if_range_matches if_range validator modified
                     then parse_single_byte_range value len else Whole))))"

section \<open>What a range names\<close>

text \<open>The abstract contract of a specifier \<open>first-last\<close>: the positions of the file it selects.\<close>

definition selected :: "nat option \<Rightarrow> nat option \<Rightarrow> int \<Rightarrow> int set" where
  "selected f l len =
     {i. 0 \<le> i \<and> i < len \<and>
         (case (f, l) of
            (Some a, Some b) \<Rightarrow> int a \<le> i \<and> i \<le> int b
          | (Some a, None) \<Rightarrow> int a \<le> i
          | (None, Some n) \<Rightarrow> len - int n \<le> i
          | (None, None) \<Rightarrow> False)}"

definition shown_position :: "nat option \<Rightarrow> string" where
  "shown_position p = (case p of None \<Rightarrow> [] | Some n \<Rightarrow> show_nat n)"

definition range_header :: "nat option \<Rightarrow> nat option \<Rightarrow> string" where
  "range_header f l = ''bytes='' @ shown_position f @ ''-'' @ shown_position l"

lemma byte_position_shown: "byte_position (show_nat n) = Some (min (int n) (2 ^ 64 - 1))"
  using show_nat_all_digits [of n] by (simp add: byte_position_def parse_show_nat)

lemma parse_decimal_range: "0 \<le> acc \<Longrightarrow> parse_decimal limit acc s = Some n \<Longrightarrow> 0 \<le> n \<and> n < limit"
proof (induction s arbitrary: acc)
  case (Cons c s)
  then obtain d where d: "to_digit 10 c = Some d" "parse_decimal limit (acc * 10 + d) s = Some n"
    by (auto split: option.splits)
  then have "0 \<le> d" by (auto simp: to_digit_def Let_def split: if_splits)
  with Cons.prems(1) have "0 \<le> acc * 10 + d" by simp
  then show ?case using Cons.IH d(2) by blast
qed (auto split: if_splits)

lemma byte_position_range: "byte_position s = Some n \<Longrightarrow> 0 \<le> n \<and> n < 2 ^ 64"
  using parse_decimal_range [of 0 "2 ^ 64"]
  by (auto simp: byte_position_def parse_unsigned_def Let_def split: if_splits option.splits)

lemma shown_position_chars:
  "list_all (\<lambda>c. is_ascii_digit c) (shown_position p)" "trim (shown_position p) = shown_position p"
  "shown_position p = [] \<longleftrightarrow> p = None"
  using show_nat_all_digits by (cases p; simp add: shown_position_def trim_free)+

lemma range_header_cut:
  "trim (range_header f l) = range_header f l"
  "strip_prefix (range_header f l) ''bytes='' = Some (shown_position f @ ''-'' @ shown_position l)"
  "trim (shown_position f @ ''-'' @ shown_position l) = shown_position f @ ''-'' @ shown_position l"
  "CHR '','' \<notin> set (shown_position f @ ''-'' @ shown_position l)"
  "split_once (CHR ''-'') (shown_position f @ ''-'' @ shown_position l) = Some (shown_position f, shown_position l)"
proof -
  have digits: "c \<noteq> CHR ''-'' \<and> c \<noteq> CHR '','' \<and> \<not> is_space c"
    if "c \<in> set (shown_position f) \<union> set (shown_position l)" for c
    using that shown_position_chars(1) [of f] shown_position_chars(1) [of l] ascii_digit_char [of c]
    unfolding list_all_iff by blast
  have "list_all (\<lambda>c. \<not> is_space c) ''bytes='' \<and> \<not> is_space (CHR ''-'')"
    by code_simp
  then show "trim (range_header f l) = range_header f l"
    "trim (shown_position f @ ''-'' @ shown_position l) = shown_position f @ ''-'' @ shown_position l"
    using digits by (auto intro!: trim_free simp: range_header_def list_all_iff)
  show "strip_prefix (range_header f l) ''bytes='' = Some (shown_position f @ ''-'' @ shown_position l)"
    by (simp only: range_header_def strip_prefix_Some_iff)
  show "CHR '','' \<notin> set (shown_position f @ ''-'' @ shown_position l)"
    using digits by auto
  have "takeWhile (\<lambda>x. x \<noteq> CHR ''-'') (shown_position f @ CHR ''-'' # shown_position l) = shown_position f"
    "dropWhile (\<lambda>x. x \<noteq> CHR ''-'') (shown_position f @ CHR ''-'' # shown_position l) = CHR ''-'' # shown_position l"
    using digits by (auto simp: takeWhile_append dropWhile_append)
  then show "split_once (CHR ''-'') (shown_position f @ ''-'' @ shown_position l) = Some (shown_position f, shown_position l)"
    by (simp add: split_once_def)
qed

text \<open>The answer for a range that is not read, for one that is empty and for one that is not.\<close>

definition answers :: "range_request \<Rightarrow> int set \<Rightarrow> bool" where
  "answers r positions =
     (case r of
        Whole \<Rightarrow> False
      | Unsatisfiable \<Rightarrow> positions = {}
      | Partial b \<Rightarrow> br_start b \<le> br_end b \<and> positions = {br_start b..br_end b})"

section \<open>The properties\<close>

text \<open>C38. A range that is honoured lies inside the file: its first position is at most its last, the last
  is below the length, so its length is between one and the file's and no subtraction of \<open>ByteRange::len\<close>
  or of the slice wraps.\<close>

theorem range_within_file:
  assumes "0 \<le> len" and "requested_range hs len validator modified = Partial r"
  shows "0 \<le> br_start r \<and> br_start r \<le> br_end r \<and> br_end r < len \<and> 1 \<le> byte_range_len r \<and> byte_range_len r \<le> len"
proof -
  obtain value0 where "parse_single_byte_range value0 len = Partial r"
    using assms(2) by (auto simp: requested_range_def split: option.splits if_splits)
  then show ?thesis
    using assms(1)
    by (auto simp: parse_single_byte_range_def byte_range_len_def Let_def dest: byte_position_range
        split: option.splits if_splits prod.splits)
qed

definition media_headers :: "string \<Rightarrow> headers" where
  "media_headers value = (\<lambda>_. [])(''range'' := [Some value])"

theorem range_within_file_witness:
  "requested_range (Some (media_headers ''bytes=-18446744073709551616'')) 10 None None = Partial \<lparr>br_start = 0, br_end = 9\<rparr> \<and>
   byte_range_len \<lparr>br_start = 0, br_end = 9\<rparr> \<le> 10"
proof -
  have r: "requested_range (Some (media_headers ''bytes=-18446744073709551616'')) 10 None None =
      Partial \<lparr>br_start = 0, br_end = 9\<rparr>"
    by code_simp
  then show ?thesis
    using range_within_file [OF _ r] by simp
qed

text \<open>C9. The answer to a specifier of decimal positions of any size is the one its meaning gives: exactly
  the positions of the file that it names, or 416 where it names none. It is never ignored.\<close>

theorem range_answers_selection:
  assumes "0 \<le> len" "len < 2 ^ 64" "f \<noteq> None \<or> l \<noteq> None"
  shows "answers (parse_single_byte_range (range_header f l) len) (selected f l len)"
  using assms
  unfolding parse_single_byte_range_def range_header_cut Let_def option.case prod.case shown_position_chars(2)
  by (cases f; cases l)
    (auto simp: range_header_cut(4) shown_position_chars(3) answers_def selected_def byte_position_shown shown_position_def show_nat_all_digits min_def
      split: if_splits)

theorem range_answers_selection_witness:
  "answers (parse_single_byte_range (range_header (Some 7) (Some (10 ^ 30))) 10) (selected (Some 7) (Some (10 ^ 30)) 10) \<and>
   parse_single_byte_range ''bytes=7-'' 10 = Partial \<lparr>br_start = 7, br_end = 9\<rparr>"
proof
  show "answers (parse_single_byte_range (range_header (Some 7) (Some (10 ^ 30))) 10)
      (selected (Some 7) (Some (10 ^ 30)) 10)"
    by (rule range_answers_selection) simp_all
qed code_simp

subsection \<open>A tag that comes back\<close>

text \<open>\<open>to_hex\<close> writes hexadecimal digits, at least sixteen of them.\<close>

definition hex_hash :: "content_hash \<Rightarrow> bool" where
  "hex_hash hash \<longleftrightarrow> (\<forall>b. 16 \<le> length (hash b) \<and> list_all is_ascii_alphanumeric (hash b))"

lemma plain_char:
  "is_ascii_alphanumeric c \<Longrightarrow> c \<noteq> CHR ''\"'' \<and> c \<noteq> CHR '','' \<and> c \<noteq> CHR ''*'' \<and> c \<noteq> CHR ''/'' \<and> \<not> is_space c"
  by (auto simp: is_ascii_alphanumeric_def is_ascii_digit_def is_ascii_upper_def is_ascii_lower_def is_space_def byte_def)

lemma trim_quoted: "trim (CHR ''\"'' # s @ ''\"'') = CHR ''\"'' # s @ ''\"''" "trim (''W/\"'' @ s @ ''\"'') = ''W/\"'' @ s @ ''\"''"
proof -
  have "\<not> is_space (CHR ''\"'')" "\<not> is_space (CHR ''W'')" by code_simp+
  then show "trim (CHR ''\"'' # s @ ''\"'') = CHR ''\"'' # s @ ''\"''" "trim (''W/\"'' @ s @ ''\"'') = ''W/\"'' @ s @ ''\"''"
    by (simp_all add: trim_def)
qed

lemma dropWhile_free: "c \<notin> set s \<Longrightarrow> dropWhile (\<lambda>x. x = c) s = s"
  by (cases s) auto

lemma trim_matches_quotes:
  assumes "CHR ''\"'' \<notin> set s"
  shows "trim_matches (CHR ''\"'') (CHR ''\"'' # s @ ''\"'') = s"
proof (cases s)
  case (Cons c t)
  with assms have "dropWhile (\<lambda>x. x = CHR ''\"'') (CHR ''\"'' # s @ ''\"'') = s @ ''\"''" by auto
  moreover have "dropWhile (\<lambda>x. x = CHR ''\"'') (rev s) = rev s"
    by (rule dropWhile_free) (use assms in simp)
  ultimately show ?thesis by (simp add: trim_matches_def)
qed (simp add: trim_matches_def)

lemma normalized_etag_quoted:
  assumes "CHR ''\"'' \<notin> set s"
  shows "normalized_etag (CHR ''\"'' # s @ ''\"'') = s" "normalized_etag (''W/\"'' @ s @ ''\"'') = s"
  using trim_matches_quotes [OF assms] trim_quoted
  by (simp_all add: normalized_etag_def strip_prefix_def starts_with_def)

lemma etag_plain:
  assumes "hex_hash hash"
  shows "CHR ''\"'' \<notin> set (take 16 (hash b))" "CHR '','' \<notin> set (compute_etag hash b)"
    "normalized_etag (compute_etag hash b) = take 16 (hash b)"
    "normalized_etag (weak_content_etag hash b) = take 16 (hash b)"
    "trim (compute_etag hash b) = compute_etag hash b" "compute_etag hash b \<noteq> ''*''"
    "trim (weak_content_etag hash b) = weak_content_etag hash b" "weak_content_etag hash b \<noteq> ''*''"
    "CHR '','' \<notin> set (weak_content_etag hash b)"
proof -
  have "c \<noteq> CHR ''\"'' \<and> c \<noteq> CHR '',''" if "c \<in> set (take 16 (hash b))" for c
    using assms that plain_char [of c] in_set_takeD [of c 16 "hash b"] by (auto simp: hex_hash_def list_all_iff)
  then show q: "CHR ''\"'' \<notin> set (take 16 (hash b))" and "CHR '','' \<notin> set (compute_etag hash b)"
    by (auto simp: compute_etag_def)
  show "normalized_etag (compute_etag hash b) = take 16 (hash b)"
    "normalized_etag (weak_content_etag hash b) = take 16 (hash b)"
    using normalized_etag_quoted [OF q] by (simp_all add: compute_etag_def weak_content_etag_def)
  show "trim (compute_etag hash b) = compute_etag hash b" "compute_etag hash b \<noteq> ''*''"
    "trim (weak_content_etag hash b) = weak_content_etag hash b" "weak_content_etag hash b \<noteq> ''*''"
    using trim_quoted by (simp_all add: compute_etag_def weak_content_etag_def)
  show "CHR '','' \<notin> set (weak_content_etag hash b)"
    using \<open>CHR '','' \<notin> set (compute_etag hash b)\<close> by (simp add: weak_content_etag_def)
qed

definition conditional_headers :: "string option \<Rightarrow> string option \<Rightarrow> headers" where
  "conditional_headers none_match since =
     (\<lambda>_. [])(''if-none-match'' := map Some (case none_match of None \<Rightarrow> [] | Some v \<Rightarrow> [v]),
             ''if-modified-since'' := map Some (case since of None \<Rightarrow> [] | Some v \<Rightarrow> [v]))"

lemma fresh_by_tag:
  assumes "trim value = value" "value \<noteq> []" "value \<noteq> ''*''" "CHR '','' \<notin> set value"
  shows "request_is_fresh (Some (conditional_headers (Some value) since)) etag modified \<longleftrightarrow>
    normalized_etag value = normalized_etag etag"
  using assms by (simp add: request_is_fresh_def request_matches_etag_def etag_matches_def conditional_headers_def
      header_str_def split_on_free)

text \<open>A client that holds a tag of this server is told "unchanged" exactly when the bytes now served
  carry the same tag, whatever date it sends beside the tag, and a weak tag counts as its strong form.\<close>

theorem tag_decides_freshness:
  assumes "hex_hash hash"
  shows "(request_is_fresh (Some (conditional_headers (Some (compute_etag hash held)) since))
      (compute_etag hash current) modified \<longleftrightarrow> take 16 (hash held) = take 16 (hash current)) \<and>
    (request_is_fresh (Some (conditional_headers (Some (weak_content_etag hash held)) since))
      (weak_content_etag hash current) modified \<longleftrightarrow> take 16 (hash held) = take 16 (hash current))"
proof -
  have "compute_etag hash held \<noteq> []" "weak_content_etag hash held \<noteq> []"
    by (simp_all add: compute_etag_def weak_content_etag_def)
  then show ?thesis
    using fresh_by_tag [of "compute_etag hash held"] fresh_by_tag [of "weak_content_etag hash held"] etag_plain [OF assms]
    by simp
qed

theorem tag_decides_freshness_witness:
  "hex_hash (\<lambda>b. replicate 16 (if b = ''old'' then CHR ''a'' else CHR ''b'')) \<and>
   \<not> request_is_fresh
     (Some (conditional_headers (Some (compute_etag (\<lambda>b. replicate 16 (if b = ''old'' then CHR ''a'' else CHR ''b'')) ''old''))
       (Some ''Sun, 06 Nov 1994 08:49:37 GMT'')))
     (compute_etag (\<lambda>b. replicate 16 (if b = ''old'' then CHR ''a'' else CHR ''b'')) ''new'') (Some 0)"
proof
  have "is_ascii_alphanumeric (CHR ''a'') \<and> is_ascii_alphanumeric (CHR ''b'')" by code_simp
  then show h: "hex_hash (\<lambda>b. replicate 16 (if b = ''old'' then CHR ''a'' else CHR ''b''))"
    by (simp add: hex_hash_def list_all_iff)
  show "\<not> request_is_fresh
     (Some (conditional_headers (Some (compute_etag (\<lambda>b. replicate 16 (if b = ''old'' then CHR ''a'' else CHR ''b'')) ''old''))
       (Some ''Sun, 06 Nov 1994 08:49:37 GMT'')))
     (compute_etag (\<lambda>b. replicate 16 (if b = ''old'' then CHR ''a'' else CHR ''b'')) ''new'') (Some 0)"
    using tag_decides_freshness [OF h, of "''old''" "Some ''Sun, 06 Nov 1994 08:49:37 GMT''" "''new''" "Some 0"]
    by simp
qed

text \<open>A client that sends back the date this server printed for the file, and no tag, is told
  "unchanged" exactly while the file's modification time is not in a later second.\<close>

theorem date_decides_freshness:
  assumes "0 \<le> sent" "sent < 253402300800 * NANOS" "0 \<le> modified" and "http_date sent = Some value"
  shows "request_is_fresh (Some (conditional_headers None (Some value))) etag (Some modified) \<longleftrightarrow>
    modified div NANOS \<le> sent div NANOS"
proof -
  have "epoch_seconds sent = Some (sent div NANOS)" "0 \<le> sent div NANOS" "sent div NANOS < 253402300800"
    using assms(1,2) by (auto simp: epoch_seconds_def NANOS_def)
  with printed_date_read [of "sent div NANOS" sent] assms(4) have "parse_http_date value = Some (sent div NANOS)"
    by simp
  then show ?thesis
    using assms(3) by (simp add: request_is_fresh_def not_modified_since_def conditional_headers_def header_str_def
        epoch_seconds_def)
qed

theorem date_decides_freshness_witness:
  "\<exists>value. http_date 784111777999999999 = Some value \<and>
     request_is_fresh (Some (conditional_headers None (Some value))) etag (Some 784111777000000000) \<and>
     \<not> request_is_fresh (Some (conditional_headers None (Some value))) etag (Some 784111778000000000)"
proof -
  obtain value0 where v: "http_date 784111777999999999 = Some value0"
    by (auto simp: http_date_def epoch_seconds_def)
  show ?thesis
    using date_decides_freshness [OF _ _ _ v, of 784111777000000000 etag]
      date_decides_freshness [OF _ _ _ v, of 784111778000000000 etag] v
    by (auto simp: NANOS_def)
qed

text \<open>An entity tag in \<open>If-Range\<close> is compared weakly: a weak validator satisfies it, so a partial answer is
  given on the strength of a tag that does not identify the bytes.\<close>

theorem if_range_compares_weakly:
  "requested_range (Some ((media_headers ''bytes=4-'')(''if-range'' := [Some ''W/\"a-5f5e100\"'']))) 10
     (Some ''W/\"a-5f5e100\"'') None = Partial \<lparr>br_start = 4, br_end = 9\<rparr> \<and>
   requested_range (Some ((media_headers ''bytes=4-'')(''if-range'' := [Some ''\"a-5f5e100\"'']))) 10
     (Some ''W/\"a-5f5e100\"'') None = Partial \<lparr>br_start = 4, br_end = 9\<rparr>"
  by (intro conjI) code_simp+

end
