(* ===== verification/Responses.thy ===== *)
theory Responses
  imports Client_Ip Manifest
begin

text \<open>
  Response construction, \<open>src/crates/ruvyxa_dev_server/src/response.rs\<close>: the security headers every response
  carries and how a project turns them off, HTML and JSON responses, and a cached document served from its one
  compressed copy (\<open>CachedDocument\<close> of \<open>render_cache.rs\<close>).

  A \<open>HeaderMap\<close> maps a lower-case name to its values in order. The two compressors are parameters: each
  returns the compressed bytes, or nothing where writing fails.
\<close>

section \<open>Responses and headers\<close>

type_synonym header_map = "string \<Rightarrow> string list"

record http_response =
  status :: int
  headers_of :: header_map
  body :: string

definition no_headers :: header_map where "no_headers = (\<lambda>_. [])"

definition insert_header :: "string \<Rightarrow> string \<Rightarrow> http_response \<Rightarrow> http_response" where
  "insert_header name value r = r\<lparr>headers_of := (headers_of r)(name := [value])\<rparr>"

definition get_header :: "http_response \<Rightarrow> string \<Rightarrow> string option" where
  "get_header r name = (case headers_of r name of [] \<Rightarrow> None | v # _ \<Rightarrow> Some v)"

definition DEFAULT_SECURITY_HEADERS :: "(string \<times> string) list" where
  "DEFAULT_SECURITY_HEADERS =
    [(''x-content-type-options'', ''nosniff''),
     (''referrer-policy'', ''strict-origin-when-cross-origin''),
     (''permissions-policy'', ''camera=(), microphone=(), geolocation=()''),
     (''cross-origin-opener-policy'', ''same-origin''),
     (''cross-origin-resource-policy'', ''same-origin''),
     (''x-frame-options'', ''DENY''),
     (''x-permitted-cross-domain-policies'', ''none'')]"

definition insert_default_header :: "string \<Rightarrow> string \<Rightarrow> http_response \<Rightarrow> http_response" where
  "insert_default_header name value r = (if headers_of r name = [] then insert_header name value r else r)"

definition apply_security_headers :: "http_response \<Rightarrow> http_response" where
  "apply_security_headers r = fold (\<lambda>(n, v). insert_default_header n v) DEFAULT_SECURITY_HEADERS r"

definition remove_default_header :: "string \<Rightarrow> string \<Rightarrow> http_response \<Rightarrow> http_response" where
  "remove_default_header name default_value r =
     (if get_header r name = Some default_value then r\<lparr>headers_of := (headers_of r)(name := [])\<rparr> else r)"

definition finalize_security_headers :: "http_response \<Rightarrow> bool \<Rightarrow> http_response" where
  "finalize_security_headers r enabled =
     (if enabled then apply_security_headers r
      else fold (\<lambda>(n, v). remove_default_header n v) DEFAULT_SECURITY_HEADERS r)"

section \<open>Bodies\<close>

definition html_response :: "int \<Rightarrow> string \<Rightarrow> http_response" where
  "html_response code html =
     (let r = insert_header ''content-type'' ''text/html; charset=utf-8''
                \<lparr>status = code, headers_of = no_headers, body = html\<rparr>;
          r = (if 400 \<le> code \<and> code < 600 then insert_header ''cache-control'' ''no-store, max-age=0'' r else r) in
      apply_security_headers r)"

definition streamed_html_response :: "string \<Rightarrow> http_response" where
  "streamed_html_response html = insert_header ''cache-control'' ''no-store, max-age=0'' (html_response 200 html)"

definition uncacheable :: "http_response \<Rightarrow> http_response" where
  "uncacheable r = insert_header ''cache-control'' ''no-store, max-age=0'' r"

text \<open>\<open>serde_json\<close> is a parameter; its failure answers 500 in plain text, without the security headers.\<close>

definition json_response :: "('a \<Rightarrow> string + string) \<Rightarrow> int \<Rightarrow> 'a \<Rightarrow> http_response" where
  "json_response to_json code value =
     (case to_json value of
        Inr b \<Rightarrow>
          apply_security_headers
            (insert_header ''content-type'' ''application/json; charset=utf-8''
              \<lparr>status = code, headers_of = no_headers(''content-type'' := [''text/plain; charset=utf-8'']), body = b\<rparr>)
      | Inl e \<Rightarrow>
          \<lparr>status = 500, headers_of = no_headers(''content-type'' := [''text/plain; charset=utf-8'']),
           body = ''Failed to serialize JSON response: '' @ e\<rparr>)"

section \<open>A cached document and its compressed copy\<close>

record compressed_document =
  encoding :: string
  cd_bytes :: string

text \<open>\<open>CachedDocument::compressed\<close> on the shared slot. Between the look at the slot and the store another
  request may fill it: \<open>at_set\<close> is the slot when the store happens, and the store then has no effect. The
  answer comes with the slot that is left.\<close>

definition compressed ::
  "(string \<Rightarrow> bool) \<Rightarrow> (string \<Rightarrow> compressed_document option) \<Rightarrow> string \<Rightarrow>
   compressed_document option \<Rightarrow> compressed_document option \<Rightarrow>
   compressed_document option \<times> compressed_document option" where
  "compressed accepts encode html slot at_set =
     (case slot of
        Some existing \<Rightarrow> (if accepts (encoding existing) then Some existing else None, slot)
      | None \<Rightarrow>
          (case encode html of
             None \<Rightarrow> (None, at_set)
           | Some built \<Rightarrow>
               (let stored = (case at_set of None \<Rightarrow> built | Some other \<Rightarrow> other) in
                (if accepts (encoding stored) then Some stored else None, Some stored))))"

definition accept_encoding_allows :: "string \<Rightarrow> string \<Rightarrow> bool" where
  "accept_encoding_allows accept enc =
     list_ex (\<lambda>part.
        (case split_on (CHR '';'') part of
           [] \<Rightarrow> False
         | name # parameters \<Rightarrow>
             trim name = enc \<and>
             \<not> list_ex (\<lambda>p. filter (\<lambda>c. c \<noteq> CHR '' '') (trim p) = ''q=0'') parameters))
       (split_on (CHR '','') accept)"

record compressors =
  brotli :: "string \<Rightarrow> string option"
  gzip :: "string \<Rightarrow> string option"

definition encode_document :: "compressors \<Rightarrow> string \<Rightarrow> string \<Rightarrow> compressed_document option" where
  "encode_document z html accept =
     option_or
       (if accept_encoding_allows accept ''br''
        then map_option (\<lambda>b. \<lparr>encoding = ''br'', cd_bytes = b\<rparr>) (brotli z html) else None)
       (if accept_encoding_allows accept ''gzip''
        then map_option (\<lambda>b. \<lparr>encoding = ''gzip'', cd_bytes = b\<rparr>) (gzip z html) else None)"

definition MIN_COMPRESSIBLE_BYTES :: nat where "MIN_COMPRESSIBLE_BYTES = 256"

definition accepted_encodings :: "headers option \<Rightarrow> string" where
  "accepted_encodings hs =
     map to_ascii_lowercase
       (case Option.bind hs (\<lambda>h. header_str h ''accept-encoding'') of None \<Rightarrow> [] | Some v \<Rightarrow> v)"

definition cached_html_response ::
  "compressors \<Rightarrow> int \<Rightarrow> string \<Rightarrow> headers option \<Rightarrow> compressed_document option \<Rightarrow> compressed_document option \<Rightarrow>
   http_response \<times> compressed_document option" where
  "cached_html_response z code html hs slot at_set =
     (let accept = accepted_encodings hs;
          (encoded, slot') =
            (if length html < MIN_COMPRESSIBLE_BYTES then (None, if slot = None then at_set else slot)
             else compressed (accept_encoding_allows accept) (\<lambda>h. encode_document z h accept) html slot at_set) in
      case encoded of
        None \<Rightarrow> (insert_default_header ''vary'' ''accept-encoding'' (html_response code html), slot')
      | Some c \<Rightarrow>
          (insert_header ''vary'' ''accept-encoding''
             (insert_header ''content-encoding'' (encoding c) (html_response code (cd_bytes c))), slot'))"

section \<open>Lemmas\<close>

lemma default_names_distinct: "distinct (map fst DEFAULT_SECURITY_HEADERS)"
  by code_simp

lemma headers_insert_default [simp]:
  "headers_of (insert_default_header n v r) m = (if m = n \<and> headers_of r n = [] then [v] else headers_of r m)"
  by (simp add: insert_default_header_def insert_header_def)

lemma status_body_simps [simp]:
  "status (insert_header n v r) = status r" "body (insert_header n v r) = body r"
  "status (insert_default_header n v r) = status r" "body (insert_default_header n v r) = body r"
  "status (remove_default_header n v r) = status r" "body (remove_default_header n v r) = body r"
  by (simp_all add: insert_default_header_def insert_header_def remove_default_header_def)

lemma headers_insert [simp]: "headers_of (insert_header n v r) m = (if m = n then [v] else headers_of r m)"
  by (simp add: insert_header_def)

lemma headers_remove [simp]:
  "headers_of (remove_default_header n v r) m = (if m = n \<and> get_header r n = Some v then [] else headers_of r m)"
  by (simp add: remove_default_header_def)

lemma fold_insert_default:
  assumes "distinct (map fst ds)"
  shows "headers_of (fold (\<lambda>(n, v). insert_default_header n v) ds r) m =
    (case map_of ds m of Some v \<Rightarrow> if headers_of r m = [] then [v] else headers_of r m | None \<Rightarrow> headers_of r m)"
    "status (fold (\<lambda>(n, v). insert_default_header n v) ds r) = status r"
    "body (fold (\<lambda>(n, v). insert_default_header n v) ds r) = body r"
  using assms by (induction ds arbitrary: r) (auto split: option.splits dest: map_of_SomeD)

lemma fold_remove_default:
  assumes "distinct (map fst ds)"
  shows "headers_of (fold (\<lambda>(n, v). remove_default_header n v) ds r) m =
    (case map_of ds m of Some v \<Rightarrow> if get_header r m = Some v then [] else headers_of r m | None \<Rightarrow> headers_of r m)"
    "status (fold (\<lambda>(n, v). remove_default_header n v) ds r) = status r"
    "body (fold (\<lambda>(n, v). remove_default_header n v) ds r) = body r"
  using assms by (induction ds arbitrary: r) (force simp: get_header_def split: option.splits dest: map_of_SomeD)+

lemmas default_headers = fold_insert_default [OF default_names_distinct, folded apply_security_headers_def]
lemmas removed_headers = fold_remove_default [OF default_names_distinct]

lemma html_response_simps [simp]:
  "body (html_response code html) = html" "status (html_response code html) = code"
  "headers_of (html_response code html) ''vary'' = []"
  "headers_of (html_response code html) ''content-encoding'' = []"
proof -
  have "map_of DEFAULT_SECURITY_HEADERS ''vary'' = None" "map_of DEFAULT_SECURITY_HEADERS ''content-encoding'' = None"
    by code_simp+
  then show "body (html_response code html) = html" "status (html_response code html) = code"
    "headers_of (html_response code html) ''vary'' = []"
    "headers_of (html_response code html) ''content-encoding'' = []"
    by (simp_all add: html_response_def Let_def default_headers no_headers_def)
qed

section \<open>The properties\<close>

text \<open>The security defaults, turned on, fill exactly the names that the application left unset and
  change nothing when applied again; turned off, they take away exactly the headers that still hold a default
  value, whether or not they had been applied before, and leave every other header, the status and the body.\<close>

theorem security_headers_toggle:
  "(let on = finalize_security_headers r True; off = finalize_security_headers r False in
    headers_of on = (\<lambda>n. if headers_of r n = [] then (case map_of DEFAULT_SECURITY_HEADERS n of Some v \<Rightarrow> [v] | None \<Rightarrow> [])
                        else headers_of r n) \<and>
    finalize_security_headers on True = on \<and>
    headers_of off = (\<lambda>n. case get_header r n of None \<Rightarrow> []
                         | Some v \<Rightarrow> if map_of DEFAULT_SECURITY_HEADERS n = Some v then [] else headers_of r n) \<and>
    finalize_security_headers on False = off \<and>
    status on = status r \<and> body on = body r \<and> status off = status r \<and> body off = body r)"
proof -
  have ext: "x = y" if "status x = status y" "body x = body y" "\<And>n. headers_of x n = headers_of y n" for x y :: http_response
    using that by (simp add: http_response.equality fun_eq_iff)
  show ?thesis
    unfolding Let_def finalize_security_headers_def
    by (intro conjI ext)
      (auto simp: default_headers removed_headers get_header_def fun_eq_iff split: option.splits list.splits)
qed

subsection \<open>Requests for a shared cached document\<close>

text \<open>A request for the document, and the \<open>Accept-Encoding\<close> of one that stores its copy in between.\<close>

definition cached_hit ::
  "compressors \<Rightarrow> int \<Rightarrow> string \<Rightarrow> compressed_document option \<Rightarrow> headers option \<times> string option \<Rightarrow>
   http_response \<times> compressed_document option" where
  "cached_hit z code html slot = (\<lambda>(hs, racing).
     cached_html_response z code html hs slot (Option.bind racing (encode_document z html)))"

fun cached_hits ::
  "compressors \<Rightarrow> int \<Rightarrow> string \<Rightarrow> compressed_document option \<Rightarrow> (headers option \<times> string option) list \<Rightarrow>
   http_response list" where
  "cached_hits z code html slot [] = []"
| "cached_hits z code html slot (e # es) =
     (let (r, slot') = cached_hit z code html slot e in r # cached_hits z code html slot' es)"

definition compress_with :: "compressors \<Rightarrow> string \<Rightarrow> string \<Rightarrow> string option" where
  "compress_with z enc = (if enc = ''br'' then brotli z else if enc = ''gzip'' then gzip z else (\<lambda>_. None))"

definition copy_of :: "compressors \<Rightarrow> string \<Rightarrow> compressed_document \<Rightarrow> bool" where
  "copy_of z html c \<longleftrightarrow> compress_with z (encoding c) html = Some (cd_bytes c)"

text \<open>What a client that sent the headers \<open>hs\<close> can read: the document itself, or a copy in an encoding it
  allows, marked as such; either way caches are told that the answer varies.\<close>

definition readable_answer :: "compressors \<Rightarrow> int \<Rightarrow> string \<Rightarrow> headers option \<times> string option \<Rightarrow> http_response \<Rightarrow> bool" where
  "readable_answer z code html = (\<lambda>(hs, _) r.
     status r = code \<and> headers_of r ''vary'' = [''accept-encoding''] \<and>
     (case headers_of r ''content-encoding'' of
        [] \<Rightarrow> body r = html
      | [enc] \<Rightarrow> accept_encoding_allows (accepted_encodings hs) enc \<and> compress_with z enc html = Some (body r)
      | _ \<Rightarrow> False))"

lemma encode_document_copy: "encode_document z html accept = Some c \<Longrightarrow> copy_of z html c"
  by (auto simp: encode_document_def option_or_def copy_of_def compress_with_def split: if_splits option.splits)

lemma compressed_ok:
  assumes "compressed accepts encode html slot at_set = (answer, slot')"
    and "pred_option P slot" "pred_option P at_set" "pred_option P (encode html)"
  shows "pred_option P slot'" "pred_option (\<lambda>c. P c \<and> accepts (encoding c)) answer"
  using assms by (cases slot; cases "encode html"; cases at_set;
      auto simp: compressed_def Let_def split: if_splits)+

lemma cached_hit_ok:
  assumes "pred_option (copy_of z html) slot" and hit: "cached_hit z code html slot e = (r, slot')"
  shows "readable_answer z code html e r" and "pred_option (copy_of z html) slot'"
proof -
  obtain hs racing where e: "e = (hs, racing)" by (cases e)
  let ?accept = "accepted_encodings hs" and ?race = "Option.bind racing (encode_document z html)"
  have copies: "pred_option (copy_of z html) (encode_document z html a)" for a
    using encode_document_copy by (cases "encode_document z html a") auto
  have race: "pred_option (copy_of z html) ?race"
    using copies by (cases racing) auto
  obtain enc where enc: "(if length html < MIN_COMPRESSIBLE_BYTES then (None, if slot = None then ?race else slot)
      else compressed (accept_encoding_allows ?accept) (\<lambda>h. encode_document z h ?accept) html slot ?race) = (enc, slot')"
    using hit by (auto simp: e cached_hit_def cached_html_response_def Let_def split: prod.splits option.splits)
  then show "pred_option (copy_of z html) slot'"
    using assms(1) race compressed_ok(1) [where encode = "\<lambda>h. encode_document z h ?accept", OF _ assms(1) race copies] by (auto split: if_splits)
  have "pred_option (\<lambda>c. copy_of z html c \<and> accept_encoding_allows ?accept (encoding c)) enc"
    using enc compressed_ok(2) [where encode = "\<lambda>h. encode_document z h ?accept", OF _ assms(1) race copies] by (auto split: if_splits)
  then show "readable_answer z code html e r"
    using hit enc by (auto simp: e cached_hit_def cached_html_response_def readable_answer_def copy_of_def
        split: option.splits)
qed


text \<open>A refusal is recognised in one spelling only: \<open>q=0\<close> refuses, the same weight written \<open>q=0.0\<close>
  or \<open>q=0.000\<close> is taken for consent.\<close>

theorem refused_encoding_allowed:
  "\<not> accept_encoding_allows ''gzip, br;q=0'' ''br'' \<and> accept_encoding_allows ''gzip, br;q=0.0'' ''br'' \<and>
   accept_encoding_allows ''gzip, br; q=0.000'' ''br''"
  by (intro conjI) code_simp+

end
