(* ===== verification/Public_Assets.thy ===== *)
theory Public_Assets
  imports Asset_Paths Validators Responses
begin

text \<open>
  Serving static files (\<open>static_assets.rs\<close>): the bounded index of entity tags and the two handlers, for a file
  of the public directory and for a file of the client bundle.

  What the handlers learn from the operating system is a record: the paths of \<open>Asset_Paths\<close>, the metadata of a
  file, the bytes a read returns or the kind of error, and what an open handle reports and delivers. They are
  separate answers, so a file that changes between two calls is an instance. The tag is of hexadecimal digits and
  every header value visible text, so no \<open>HeaderValue::from_str\<close> fails; the log line of a denied read is not
  modelled.
\<close>

section \<open>The index of entity tags\<close>

record asset_identity =
  ai_len :: int
  ai_modified :: system_time

definition ASSET_ETAG_SETTLE :: int where "ASSET_ETAG_SETTLE = 2 * NANOS"

definition ASSET_ETAG_CACHE_LIMIT :: nat where "ASSET_ETAG_CACHE_LIMIT = 1024"

text \<open>\<open>duration_since\<close> fails for a time in the future.\<close>

definition is_settled :: "asset_identity \<Rightarrow> system_time \<Rightarrow> bool" where
  "is_settled identity now = (ai_modified identity \<le> now \<and> now - ai_modified identity \<ge> ASSET_ETAG_SETTLE)"

record etag_cache =
  etag_entries :: "string \<rightharpoonup> asset_identity \<times> string"
  insertion_order :: "string list"

definition empty_etag_cache :: etag_cache where
  "empty_etag_cache = \<lparr>etag_entries = Map.empty, insertion_order = []\<rparr>"

definition cached_asset_etag :: "etag_cache \<Rightarrow> string \<Rightarrow> asset_identity \<Rightarrow> string option" where
  "cached_asset_etag c file identity =
     (case etag_entries c file of
        None \<Rightarrow> None
      | Some (cached, etag) \<Rightarrow> if cached = identity then Some etag else None)"

function evict_etags :: "etag_cache \<Rightarrow> etag_cache" where
  "evict_etags c =
     (if length (insertion_order c) > ASSET_ETAG_CACHE_LIMIT
      then (case insertion_order c of
              [] \<Rightarrow> c
            | oldest # rest \<Rightarrow>
                evict_etags (c\<lparr>insertion_order := rest, etag_entries := (etag_entries c)(oldest := None)\<rparr>))
      else c)"
  by pat_completeness auto
termination by (relation "measure (\<lambda>c. length (insertion_order c))") auto

declare evict_etags.simps [simp del]

definition store_asset_etag :: "system_time \<Rightarrow> string \<Rightarrow> asset_identity \<Rightarrow> string \<Rightarrow> etag_cache \<Rightarrow> etag_cache" where
  "store_asset_etag now file identity etag c =
     (if \<not> is_settled identity now then c
      else
        (let fresh = (etag_entries c file = None);
             c = c\<lparr>etag_entries := (etag_entries c)(file \<mapsto> (identity, etag))\<rparr>;
             c = (if fresh then c\<lparr>insertion_order := insertion_order c @ [file]\<rparr> else c) in
         evict_etags c))"

section \<open>What the operating system answers\<close>

datatype io_error = Not_Found | Permission_Denied | Other_Error string

record file_metadata =
  md_is_file :: bool
  md_len :: int
  md_modified :: "system_time option"

record open_file =
  of_len :: "int option"
  of_seek :: "io_error option"
  of_bytes :: string

record asset_world =
  aw_files :: asset_files
  aw_metadata :: "string \<Rightarrow> file_metadata option"
  aw_read :: "string \<Rightarrow> io_error + string"
  aw_open :: "string \<Rightarrow> io_error + open_file"
  aw_now :: system_time
  aw_hash :: content_hash
  aw_threshold :: int

datatype asset_error = Io_Failure string io_error

definition asset_identity_of :: "file_metadata \<Rightarrow> asset_identity option" where
  "asset_identity_of m = map_option (\<lambda>t. \<lparr>ai_len = md_len m, ai_modified = t\<rparr>) (md_modified m)"

definition read_failure_is_a_miss :: "io_error \<Rightarrow> bool" where
  "read_failure_is_a_miss e = (case e of Not_Found \<Rightarrow> True | Permission_Denied \<Rightarrow> True | Other_Error _ \<Rightarrow> False)"

definition DEFAULT_STREAMED_ASSET_THRESHOLD :: int where
  "DEFAULT_STREAMED_ASSET_THRESHOLD = 8 * 1024 * 1024"

definition streamed_asset_threshold :: "string option \<Rightarrow> int" where
  "streamed_asset_threshold env =
     (case Option.bind env (\<lambda>v. parse_unsigned (2 ^ 64) (trim v)) of
        Some n \<Rightarrow> if n > 0 then n else DEFAULT_STREAMED_ASSET_THRESHOLD
      | None \<Rightarrow> DEFAULT_STREAMED_ASSET_THRESHOLD)"

fun show_hex :: "nat \<Rightarrow> string" where
  "show_hex n = (if n < 16 then [''0123456789abcdef'' ! n] else show_hex (n div 16) @ [''0123456789abcdef'' ! (n mod 16)])"

declare show_hex.simps [simp del]

definition weak_validator :: "asset_identity \<Rightarrow> string option" where
  "weak_validator i =
     map_option (\<lambda>s. ''W/\"'' @ show_hex (nat (ai_len i)) @ ''-'' @ show_hex (nat s) @ ''\"'') (epoch_seconds (ai_modified i))"

section \<open>Responses\<close>

definition PUBLIC_ASSET_CACHE_CONTROL :: string where
  "PUBLIC_ASSET_CACHE_CONTROL = ''public, max-age=3600, must-revalidate''"

definition IMMUTABLE_CACHE_CONTROL :: string where
  "IMMUTABLE_CACHE_CONTROL = ''public, max-age=31536000, immutable''"

definition show_int :: "int \<Rightarrow> string" where "show_int n = show_nat (nat n)"

definition insert_last_modified :: "system_time option \<Rightarrow> http_response \<Rightarrow> http_response" where
  "insert_last_modified modified r =
     (case Option.bind modified http_date of None \<Rightarrow> r | Some value \<Rightarrow> insert_header ''last-modified'' value r)"

definition bare_response :: "int \<Rightarrow> string \<Rightarrow> http_response" where
  "bare_response code b = \<lparr>status = code, headers_of = no_headers, body = b\<rparr>"

definition not_modified_response :: "string \<Rightarrow> string \<Rightarrow> system_time option \<Rightarrow> http_response" where
  "not_modified_response etag cache_control modified =
     apply_security_headers
       (insert_header ''cache-control'' cache_control
         (insert_last_modified modified (insert_header ''etag'' etag (bare_response 304 []))))"

definition range_not_satisfiable_response :: "int \<Rightarrow> http_response" where
  "range_not_satisfiable_response len =
     apply_security_headers
       (insert_header ''content-range'' (''bytes */'' @ show_int len)
         (insert_header ''accept-ranges'' ''bytes'' (bare_response 416 [])))"

definition content_range :: "byte_range \<Rightarrow> int \<Rightarrow> string" where
  "content_range r full = ''bytes '' @ show_int (br_start r) @ ''-'' @ show_int (br_end r) @ ''/'' @ show_int full"

definition partial_content :: "byte_range option \<Rightarrow> int \<Rightarrow> http_response \<Rightarrow> http_response" where
  "partial_content part full r =
     (case part of
        None \<Rightarrow> r
      | Some b \<Rightarrow> insert_header ''content-range'' (content_range b full) (r\<lparr>status := 206\<rparr>))"

text \<open>\<open>bytes[start..=end]\<close>; out of bounds the code would panic, the model answers \<open>None\<close>.\<close>

definition byte_slice :: "byte_range \<Rightarrow> string \<Rightarrow> string option" where
  "byte_slice r bytes =
     (if 0 \<le> br_start r \<and> br_start r \<le> br_end r + 1 \<and> br_end r < int (length bytes)
      then Some (take (nat (br_end r + 1 - br_start r)) (drop (nat (br_start r)) bytes)) else None)"

definition streamed_file_response ::
  "asset_world \<Rightarrow> string \<Rightarrow> file_metadata \<Rightarrow> string \<Rightarrow> string option \<Rightarrow> byte_range option \<Rightarrow> asset_error + http_response" where
  "streamed_file_response w file metadata content_type etag part =
     (case aw_open w file of
        Inl e \<Rightarrow> Inl (Io_Failure (''Failed to open public file '' @ file) e)
      | Inr h \<Rightarrow>
          (let full_length = (case of_len h of Some n \<Rightarrow> n | None \<Rightarrow> md_len metadata);
               respond = (\<lambda>start body_length.
                 let r = bare_response 200 (take (nat body_length) (drop (nat start) (of_bytes h)));
                     r = insert_header ''content-type'' content_type r;
                     r = insert_header ''accept-ranges'' ''bytes'' r;
                     r = insert_header ''content-length'' (show_int body_length) r;
                     r = (case etag of None \<Rightarrow> r | Some t \<Rightarrow> insert_header ''etag'' t r);
                     r = insert_header ''cache-control'' PUBLIC_ASSET_CACHE_CONTROL r;
                     r = insert_last_modified (md_modified metadata) r;
                     r = partial_content part full_length r in
                 apply_security_headers r) in
           case part of
             None \<Rightarrow> Inr (respond 0 full_length)
           | Some b \<Rightarrow>
               (case of_seek h of
                  Some e \<Rightarrow> Inl (Io_Failure (''Failed to seek public file '' @ file) e)
                | None \<Rightarrow> Inr (respond (br_start b) (min (byte_range_len b) (max 0 (full_length - br_start b)))))))"

section \<open>The handlers\<close>

text \<open>The buffered answer: the whole file or one range of the bytes that were read.\<close>

definition buffered_response ::
  "string \<Rightarrow> string \<Rightarrow> system_time option \<Rightarrow> byte_range option \<Rightarrow> string \<Rightarrow> http_response option" where
  "buffered_response content_type etag modified part bytes =
     map_option
       (\<lambda>b. let r = bare_response 200 b;
                r = insert_header ''content-type'' content_type r;
                r = insert_header ''accept-ranges'' ''bytes'' r;
                r = insert_header ''etag'' etag r;
                r = insert_header ''cache-control'' PUBLIC_ASSET_CACHE_CONTROL r;
                r = insert_last_modified modified r;
                r = partial_content part (int (length bytes)) r in
            apply_security_headers r)
       (case part of None \<Rightarrow> Some bytes | Some b \<Rightarrow> byte_slice b bytes)"

definition range_of :: "range_request \<Rightarrow> byte_range option" where
  "range_of r = (case r of Partial b \<Rightarrow> Some b | _ \<Rightarrow> None)"

text \<open>The answer of a handler: an error, no such asset, or a response; with the index that is left.\<close>

type_synonym asset_answer = "(asset_error + http_response option) \<times> etag_cache"

definition fresh_index_tag :: "etag_cache \<Rightarrow> string \<Rightarrow> asset_identity option \<Rightarrow> headers option \<Rightarrow> string option" where
  "fresh_index_tag c file identity hs =
     Option.bind identity (\<lambda>i. Option.bind (cached_asset_etag c file i)
       (\<lambda>tag. if request_is_fresh hs tag (Some (ai_modified i)) then Some tag else None))"

definition serve_streamed :: "asset_world \<Rightarrow> etag_cache \<Rightarrow> string \<Rightarrow> file_metadata \<Rightarrow> headers option \<Rightarrow> asset_answer" where
  "serve_streamed w c file metadata hs =
     (let identity = asset_identity_of metadata;
          modified = map_option ai_modified identity;
          validator = Option.bind identity weak_validator in
      case Option.bind validator (\<lambda>tag. if request_is_fresh hs tag modified then Some tag else None) of
        Some tag \<Rightarrow> (Inr (Some (not_modified_response tag PUBLIC_ASSET_CACHE_CONTROL modified)), c)
      | None \<Rightarrow>
          (let wanted = requested_range hs (md_len metadata) validator modified in
           if wanted = Unsatisfiable then (Inr (Some (range_not_satisfiable_response (md_len metadata))), c)
           else
             (case streamed_file_response w file metadata (content_type_for file) validator (range_of wanted) of
                Inl e \<Rightarrow> (Inl e, c)
              | Inr r \<Rightarrow> (Inr (Some r), c))))"

text \<open>\<open>None\<close> in the buffered answer stands for the panic of a slice out of bounds.\<close>

definition serve_buffered ::
  "asset_world \<Rightarrow> etag_cache \<Rightarrow> string \<Rightarrow> asset_identity option \<Rightarrow> headers option \<Rightarrow> asset_answer option" where
  "serve_buffered w c file identity hs =
     (case aw_read w file of
        Inl e \<Rightarrow>
          Some (if read_failure_is_a_miss e then Inr None else Inl (Io_Failure (''Failed to read public file '' @ file) e), c)
      | Inr bytes \<Rightarrow>
          (let modified = map_option ai_modified identity;
               etag = compute_etag (aw_hash w) bytes;
               c = (case identity of None \<Rightarrow> c | Some i \<Rightarrow> store_asset_etag (aw_now w) file i etag c) in
           if request_is_fresh hs etag modified
           then Some (Inr (Some (not_modified_response etag PUBLIC_ASSET_CACHE_CONTROL modified)), c)
           else
             (let wanted = requested_range hs (int (length bytes)) (Some etag) modified in
              if wanted = Unsatisfiable
              then Some (Inr (Some (range_not_satisfiable_response (int (length bytes)))), c)
              else map_option (\<lambda>r. (Inr (Some r), c))
                     (buffered_response (content_type_for file) etag modified (range_of wanted) bytes))))"

definition serve_public_file ::
  "asset_world \<Rightarrow> etag_cache \<Rightarrow> string \<Rightarrow> string \<Rightarrow> headers option \<Rightarrow> asset_answer option" where
  "serve_public_file w c public_dir request_path hs =
     (let trimmed = dropWhile (\<lambda>ch. ch = CHR ''/'') request_path in
      if \<not> is_safe_relative_path trimmed then Some (Inr None, c)
      else
        (case resolve_public_asset (aw_files w) public_dir trimmed of
           None \<Rightarrow> Some (Inr None, c)
         | Some file \<Rightarrow>
             (case aw_metadata w file of
                None \<Rightarrow> Some (Inr None, c)
              | Some metadata \<Rightarrow>
                  (let identity = asset_identity_of metadata in
                   if \<not> md_is_file metadata then Some (Inr None, c)
                   else
                     (case fresh_index_tag c file identity hs of
                        Some tag \<Rightarrow>
                          Some (Inr (Some (not_modified_response tag PUBLIC_ASSET_CACHE_CONTROL
                            (map_option ai_modified identity))), c)
                      | None \<Rightarrow>
                          (if md_len metadata > aw_threshold w then Some (serve_streamed w c file metadata hs)
                           else serve_buffered w c file identity hs))))))"

definition serve_client_file ::
  "asset_world \<Rightarrow> etag_cache \<Rightarrow> string \<Rightarrow> string \<Rightarrow> headers option \<Rightarrow> asset_answer" where
  "serve_client_file w c client_dir request_path hs =
     (case resolve_client_file (aw_files w) client_dir request_path of
        None \<Rightarrow> (Inr None, c)
      | Some file \<Rightarrow>
          (case aw_metadata w file of
             None \<Rightarrow> (Inr None, c)
           | Some metadata \<Rightarrow>
               (let identity = asset_identity_of metadata; modified = map_option ai_modified identity in
                if \<not> md_is_file metadata then (Inr None, c)
                else
                  (case fresh_index_tag c file identity hs of
                     Some tag \<Rightarrow> (Inr (Some (not_modified_response tag IMMUTABLE_CACHE_CONTROL modified)), c)
                   | None \<Rightarrow>
                       (case aw_read w file of
                          Inl e \<Rightarrow>
                            (if read_failure_is_a_miss e then Inr None
                             else Inl (Io_Failure (''Failed to read client file '' @ file) e), c)
                        | Inr bytes \<Rightarrow>
                            (let etag = compute_etag (aw_hash w) bytes;
                                 c = (case identity of None \<Rightarrow> c | Some i \<Rightarrow> store_asset_etag (aw_now w) file i etag c) in
                             if request_is_fresh hs etag modified
                             then (Inr (Some (not_modified_response etag IMMUTABLE_CACHE_CONTROL modified)), c)
                             else
                               (Inr (Some (apply_security_headers
                                  (insert_header ''etag'' etag
                                    (insert_header ''cache-control'' IMMUTABLE_CACHE_CONTROL
                                      (insert_header ''content-type'' (client_asset_content_type file)
                                        (bare_response 200 bytes)))))), c)))))))"

section \<open>The index stays bounded\<close>

definition etag_cache_ok :: "etag_cache \<Rightarrow> bool" where
  "etag_cache_ok c \<longleftrightarrow> distinct (insertion_order c) \<and> dom (etag_entries c) = set (insertion_order c) \<and>
     length (insertion_order c) \<le> ASSET_ETAG_CACHE_LIMIT"

lemma evict_etags_few: "length (insertion_order c) \<le> ASSET_ETAG_CACHE_LIMIT \<Longrightarrow> evict_etags c = c"
  by (simp add: evict_etags.simps)

lemma evict_etags_one:
  assumes "insertion_order c = x # xs" "length xs = ASSET_ETAG_CACHE_LIMIT"
  shows "evict_etags c = c\<lparr>insertion_order := xs, etag_entries := (etag_entries c)(x := None)\<rparr>"
proof -
  have "evict_etags c = evict_etags (c\<lparr>insertion_order := xs, etag_entries := (etag_entries c)(x := None)\<rparr>)"
    using assms by (subst evict_etags.simps) simp
  then show ?thesis using assms by (simp add: evict_etags_few)
qed

text \<open>The three outcomes of a store: nothing, one entry more or renewed, one entry more in place of the oldest.\<close>

lemma store_etag_cases:
  assumes "etag_cache_ok c"
  obtains "\<not> is_settled i now" "store_asset_etag now fl i etag c = c"
  | order where "is_settled i now" "set order = insert fl (set (insertion_order c))" "distinct order"
      "length order \<le> ASSET_ETAG_CACHE_LIMIT"
      "store_asset_etag now fl i etag c = \<lparr>etag_entries = (etag_entries c)(fl \<mapsto> (i, etag)), insertion_order = order\<rparr>"
  | x xs where "is_settled i now" "insertion_order c = x # xs" "fl \<notin> set (insertion_order c)"
      "length (xs @ [fl]) = ASSET_ETAG_CACHE_LIMIT"
      "store_asset_etag now fl i etag c =
        \<lparr>etag_entries = (etag_entries c)(fl \<mapsto> (i, etag), x := None), insertion_order = xs @ [fl]\<rparr>"
proof -
  have c: "distinct (insertion_order c)" "dom (etag_entries c) = set (insertion_order c)"
    "length (insertion_order c) \<le> ASSET_ETAG_CACHE_LIMIT"
    using assms by (simp_all add: etag_cache_ok_def)
  let ?add = "c\<lparr>etag_entries := (etag_entries c)(fl \<mapsto> (i, etag)), insertion_order := insertion_order c @ [fl]\<rparr>"
  consider "\<not> is_settled i now" | "is_settled i now" "fl \<in> set (insertion_order c)"
    | "is_settled i now" "fl \<notin> set (insertion_order c)" "length (insertion_order c) < ASSET_ETAG_CACHE_LIMIT"
    | "is_settled i now" "fl \<notin> set (insertion_order c)" "length (insertion_order c) = ASSET_ETAG_CACHE_LIMIT"
    using c(3) by linarith
  then show thesis
  proof cases
    case 1
    then show ?thesis using that(1) by (simp add: store_asset_etag_def)
  next
    case 2
    then obtain e where "etag_entries c fl = Some e" using c(2) by blast
    then have "store_asset_etag now fl i etag c =
        \<lparr>etag_entries = (etag_entries c)(fl \<mapsto> (i, etag)), insertion_order = insertion_order c\<rparr>"
      using 2(1) c(3) by (simp add: store_asset_etag_def Let_def evict_etags_few)
    then show ?thesis using that(2) [of "insertion_order c"] 2 c by auto
  next
    case 3
    then have "etag_entries c fl = None" using c(2) by blast
    then have "store_asset_etag now fl i etag c = ?add"
      using 3 by (simp add: store_asset_etag_def evict_etags_few)
    then show ?thesis using that(2) [of "insertion_order c @ [fl]"] 3 c(1) by simp
  next
    case 4
    then obtain x xs where xs: "insertion_order c = x # xs"
      by (cases "insertion_order c") (auto simp: ASSET_ETAG_CACHE_LIMIT_def)
    from 4 have "etag_entries c fl = None" using c(2) by blast
    then have "store_asset_etag now fl i etag c = evict_etags ?add"
      using 4 by (simp add: store_asset_etag_def)
    also have "\<dots> = \<lparr>etag_entries = (etag_entries c)(fl \<mapsto> (i, etag), x := None), insertion_order = xs @ [fl]\<rparr>"
      using evict_etags_one [of ?add x "xs @ [fl]"] 4(3) xs by simp
    finally show ?thesis using that(3) [OF 4(1) xs 4(2)] 4(3) xs by simp
  qed
qed

lemma store_etag_ok:
  assumes "etag_cache_ok c"
  shows "etag_cache_ok (store_asset_etag now fl i etag c)"
proof -
  have c: "distinct (insertion_order c)" "dom (etag_entries c) = set (insertion_order c)"
    using assms by (simp_all add: etag_cache_ok_def)
  from assms show ?thesis
  proof (cases rule: store_etag_cases [of _ i now fl etag])
    case (2 order)
    then show ?thesis using c by (simp add: etag_cache_ok_def)
  next
    case (3 x xs)
    then show ?thesis using c by (auto simp: etag_cache_ok_def)
  qed (use assms in simp)
qed

text \<open>A run of stores, each a moment, a file, its identity and its tag.\<close>

definition store_step :: "etag_cache \<Rightarrow> system_time \<times> string \<times> asset_identity \<times> string \<Rightarrow> etag_cache" where
  "store_step c = (\<lambda>(now, fl, i, etag). store_asset_etag now fl i etag c)"

interpretation etag_index: step_invariant store_step etag_cache_ok
  by unfold_locales (auto simp: store_step_def intro: store_etag_ok)

lemma empty_etag_cache_ok: "etag_cache_ok empty_etag_cache"
  by (simp add: etag_cache_ok_def empty_etag_cache_def)

lemma stored_tags_only:
  assumes "etag_cache_ok c" "cached_asset_etag (store_asset_etag now fl i etag c) f j = Some t"
  shows "cached_asset_etag c f j = Some t \<or> (f = fl \<and> j = i \<and> t = etag \<and> is_settled i now)"
  using assms(1)
  by (cases rule: store_etag_cases [of _ i now fl etag])
    (use assms(2) in \<open>auto simp: cached_asset_etag_def split: if_splits option.splits\<close>)

lemma run_tags_only:
  assumes "cached_asset_etag (foldl store_step empty_etag_cache es) f j = Some t"
  shows "\<exists>now. (now, f, j, t) \<in> set es \<and> is_settled j now"
  using assms
proof (induction es rule: rev_induct)
  case (snoc e es)
  obtain now fl i etag where e: "e = (now, fl, i, etag)" by (cases e)
  have "etag_cache_ok (foldl store_step empty_etag_cache es)"
    by (rule etag_index.run_inv [OF empty_etag_cache_ok])
  moreover have "foldl store_step empty_etag_cache (es @ [e]) =
      store_asset_etag now fl i etag (foldl store_step empty_etag_cache es)"
    by (simp add: e store_step_def)
  ultimately show ?case
    using stored_tags_only [of "foldl store_step empty_etag_cache es" now fl i etag f j t] snoc e by auto
qed (simp add: cached_asset_etag_def empty_etag_cache_def)

section \<open>The properties\<close>

text \<open>C37. The index of entity tags never holds more than 1024 files, evicts in the order of insertion exactly
  one file per file that enters when full, answers with a tag only for the length and modification time it
  was stored under, two seconds or more after that time, and holds what was stored last.\<close>

theorem etag_index_bounded_and_exact:
  "etag_cache_ok (foldl store_step empty_etag_cache es) \<and>
   (\<forall>f j t. cached_asset_etag (foldl store_step empty_etag_cache es) f j = Some t \<longrightarrow>
      (\<exists>now. (now, f, j, t) \<in> set es \<and> is_settled j now)) \<and>
   (is_settled i now \<longrightarrow>
      cached_asset_etag (foldl store_step empty_etag_cache (es @ [(now, f, i, t)])) f i = Some t)"
proof (intro conjI allI impI)
  let ?c = "foldl store_step empty_etag_cache es"
  show ok: "etag_cache_ok ?c"
    by (rule etag_index.run_inv [OF empty_etag_cache_ok])
  show "\<exists>now. (now, f, j, t) \<in> set es \<and> is_settled j now" if "cached_asset_etag ?c f j = Some t" for f j t
    by (rule run_tags_only [OF that])
  assume settled: "is_settled i now"
  from ok show "cached_asset_etag (foldl store_step empty_etag_cache (es @ [(now, f, i, t)])) f i = Some t"
    by (cases rule: store_etag_cases [of _ i now f t]) (use settled in \<open>auto simp: store_step_def cached_asset_etag_def\<close>)
qed

theorem etag_index_bounded_and_exact_witness:
  "cached_asset_etag (foldl store_step empty_etag_cache
     ([] @ [(3 * NANOS, ''a.css'', \<lparr>ai_len = 5, ai_modified = NANOS\<rparr>, ''tag'')])) ''a.css'' \<lparr>ai_len = 5, ai_modified = NANOS\<rparr> =
   Some ''tag''"
proof -
  have "is_settled \<lparr>ai_len = 5, ai_modified = NANOS\<rparr> (3 * NANOS)" by code_simp
  then show ?thesis using etag_index_bounded_and_exact by blast
qed

subsection \<open>Buffered answers\<close>

lemma byte_slice_nths:
  assumes "0 \<le> br_start b" "br_start b \<le> br_end b" "br_end b < int (length bytes)"
  shows "byte_slice b bytes = Some (nths bytes {nat (br_start b)..nat (br_end b)})"
proof -
  have "{nat (br_start b)..nat (br_end b)} = (+) (nat (br_start b)) ` {..<nat (br_end b + 1 - br_start b)}"
    using assms by (auto simp: lessThan_atLeast0 image_add_atLeastLessThan)
  then have "nths bytes {nat (br_start b)..nat (br_end b)} =
      take (nat (br_end b + 1 - br_start b)) (drop (nat (br_start b)) bytes)"
    by (simp add: nths_drop [symmetric])
  then show ?thesis using assms by (simp add: byte_slice_def)
qed

text \<open>What \<open>range_within_file\<close> says, for the proofs below.\<close>

lemma honoured_range:
  assumes "0 \<le> n" "requested_range hs n validator modified = Partial b"
  shows "0 \<le> br_start b" "br_start b \<le> br_end b" "br_end b < n"
proof -
  obtain v where "parse_single_byte_range v n = Partial b"
    using assms(2) by (auto simp: requested_range_def split: option.splits if_splits)
  then show "0 \<le> br_start b" "br_start b \<le> br_end b" "br_end b < n"
    using assms(1)
    by (auto simp: parse_single_byte_range_def Let_def dest: byte_position_range
        split: option.splits if_splits prod.splits)
qed

lemma buffered_response_some:
  assumes "requested_range hs (int (length bytes)) validator modified = wanted"
  shows "\<exists>r. buffered_response content_type etag m (range_of wanted) bytes = Some r"
proof (cases wanted)
  case (Partial b)
  then show ?thesis
    using honoured_range [OF _ assms [unfolded Partial]] by (simp add: buffered_response_def range_of_def byte_slice_nths)
qed (simp_all add: buffered_response_def range_of_def)

lemma serve_buffered_some: "serve_buffered w c fl i hs \<noteq> None"
proof (cases "aw_read w fl")
  case (Inr bytes)
  let ?etag = "compute_etag (aw_hash w) bytes" and ?m = "map_option ai_modified i"
  obtain r where "buffered_response (content_type_for fl) ?etag ?m
      (range_of (requested_range hs (int (length bytes)) (Some ?etag) ?m)) bytes = Some r"
    using buffered_response_some [OF refl] by blast
  then show ?thesis by (simp add: serve_buffered_def Inr Let_def)
qed (simp add: serve_buffered_def)

text \<open>The status, the body and the range header of a buffered answer.\<close>

lemma security_headers_keep [simp]:
  "status (apply_security_headers r) = status r" "body (apply_security_headers r) = body r"
  by (simp_all add: default_headers)

lemma security_headers_other:
  "n \<notin> fst ` set DEFAULT_SECURITY_HEADERS \<Longrightarrow> headers_of (apply_security_headers r) n = headers_of r n"
  by (simp add: default_headers map_of_eq_None_iff [THEN iffD2])

lemma content_range_not_default: "''content-range'' \<notin> fst ` set DEFAULT_SECURITY_HEADERS"
  by code_simp

lemma last_modified_keep [simp]:
  "status (insert_last_modified m r) = status r" "body (insert_last_modified m r) = body r"
  "headers_of (insert_last_modified m r) ''content-range'' = headers_of r ''content-range''"
  by (simp_all add: insert_last_modified_def split: option.split)

lemma buffered_response_exact:
  assumes "requested_range hs (int (length bytes)) validator modified = wanted" "wanted \<noteq> Unsatisfiable"
    and r: "buffered_response content_type etag m (range_of wanted) bytes = Some r"
  shows "case wanted of
      Partial b \<Rightarrow> status r = 206 \<and> body r = nths bytes {nat (br_start b)..nat (br_end b)} \<and>
        headers_of r ''content-range'' = [content_range b (int (length bytes))]
    | _ \<Rightarrow> status r = 200 \<and> body r = bytes \<and> headers_of r ''content-range'' = []"
proof (cases wanted)
  case (Partial b)
  note b = byte_slice_nths [OF honoured_range [OF _ assms(1) [unfolded Partial]]]
  show ?thesis
    using r Partial b
    by (auto simp: buffered_response_def range_of_def Let_def partial_content_def bare_response_def
        security_headers_other [OF content_range_not_default])
qed (use r assms(2) in \<open>auto simp: buffered_response_def range_of_def Let_def partial_content_def bare_response_def
    no_headers_def security_headers_other [OF content_range_not_default]\<close>)

subsection \<open>What can be observed\<close>

text \<open>Two worlds that answer alike about the paths below the directory and about the files that resolve to
  something below its root.\<close>

definition worlds_agree :: "string \<Rightarrow> asset_world \<Rightarrow> asset_world \<Rightarrow> bool" where
  "worlds_agree dir w w' \<longleftrightarrow> agree_below dir (aw_files w) (aw_files w') \<and>
     (\<forall>root f. canonicalize (aw_files w) dir = Some root \<and> path_starts_with f root \<longrightarrow>
        aw_metadata w f = aw_metadata w' f \<and> aw_read w f = aw_read w' f \<and> aw_open w f = aw_open w' f) \<and>
     aw_now w = aw_now w' \<and> aw_hash w = aw_hash w' \<and> aw_threshold w = aw_threshold w'"

lemma resolve_client_agree:
  "agree_below dir fs fs' \<Longrightarrow> resolve_client_file fs dir p = resolve_client_file fs' dir p"
  by (simp only: resolve_client_file_def contained_asset_agree)

lemma resolved_answers:
  assumes "worlds_agree dir w w'"
    and "resolve_public_asset (aw_files w) dir p = Some f \<or> resolve_client_file (aw_files w) dir p = Some f"
  shows "aw_metadata w f = aw_metadata w' f" "aw_read w f = aw_read w' f" "aw_open w f = aw_open w' f"
  using resolved_contained [OF assms(2)] assms(1) unfolding worlds_agree_def by blast+

lemma serve_file_agree:
  assumes "aw_read w f = aw_read w' f" "aw_open w f = aw_open w' f" "aw_now w = aw_now w'" "aw_hash w = aw_hash w'"
  shows "serve_streamed w c f md hs = serve_streamed w' c f md hs" "serve_buffered w c f i hs = serve_buffered w' c f i hs"
  unfolding serve_streamed_def streamed_file_response_def serve_buffered_def assms by (rule refl)+


text \<open>A public directory with an image and a link to a secret outside, before and after the secret changes.\<close>

definition gallery_world :: "string \<Rightarrow> asset_world" where
  "gallery_world secret =
     \<lparr>aw_files = gallery_files,
      aw_metadata = (\<lambda>f. Some \<lparr>md_is_file = True, md_len = int (length (if f = ''/etc/secret.css'' then secret else ''0123456789'')),
                                md_modified = Some NANOS\<rparr>),
      aw_read = (\<lambda>f. Inr (if f = ''/etc/secret.css'' then secret else ''0123456789'')),
      aw_open = (\<lambda>f. Inl Not_Found), aw_now = 10 * NANOS, aw_hash = (\<lambda>b. b), aw_threshold = 1000\<rparr>"



definition clip_request :: "headers option" where
  "clip_request = Some ((\<lambda>_. [])(''range'' := [Some ''bytes=-3'']))"


definition shrinking_world :: asset_world where
  "shrinking_world = (gallery_world [])
     \<lparr>aw_threshold := 4, aw_open := (\<lambda>_. Inr \<lparr>of_len = Some 6, of_seek = None, of_bytes = ''012345''\<rparr>)\<rparr>"

text \<open>A range is resolved against the length seen before the file is opened. When the file is shorter by
  then, the answer is a 206 whose \<open>Content-Range\<close> names bytes past the end of the file, next to a
  \<open>Content-Length\<close> of what is really sent.\<close>

theorem shrunk_file_range_lies:
  "(case serve_public_file shrinking_world empty_etag_cache ''/srv/public'' ''/hero.PNG''
        (Some ((\<lambda>_. [])(''range'' := [Some ''bytes=4-9'']))) of
      Some (Inr (Some r), _) \<Rightarrow>
        status r = 206 \<and> body r = ''45'' \<and> headers_of r ''content-length'' = [''2''] \<and>
        headers_of r ''content-range'' = [''bytes 4-9/6'']
    | _ \<Rightarrow> False)"
  by code_simp

end
