(* ===== verification/Document_Head.thy ===== *)
theory Document_Head
  imports I18n Asset_Paths "HOL-Library.Sublist"
begin

text \<open>
  Document assembly (\<open>html_document.rs\<close>) and the head defaults of \<open>static_assets.rs\<close>: where head content and the
  development script are inserted into a rendered document, the language attribute, the data blocks that carry
  JSON, and the tags the framework contributes.

  Documents are byte strings; every index the code computes is a byte index at an ASCII character, so slices are
  \<open>take\<close> and \<open>drop\<close>. \<open>serde_json\<close> is a parameter where its text matters. The pages of the error overlay and the
  scripts, which are constant text, are not modelled.
\<close>

section \<open>Finding and inserting\<close>

fun find_from :: "nat \<Rightarrow> string \<Rightarrow> string \<Rightarrow> nat option" where
  "find_from i [] needle = None"
| "find_from i (c # cs) needle =
     (if map to_ascii_lowercase (take (length needle) (c # cs)) = map to_ascii_lowercase needle then Some i
      else find_from (Suc i) cs needle)"

definition find_ascii_case :: "string \<Rightarrow> string \<Rightarrow> nat option" where
  "find_ascii_case input needle = (if needle = [] then Some 0 else find_from 0 input needle)"

definition contains_ascii_case :: "string \<Rightarrow> string \<Rightarrow> bool" where
  "contains_ascii_case input needle \<longleftrightarrow> find_ascii_case input needle \<noteq> None"

definition insert_at :: "nat \<Rightarrow> string \<Rightarrow> string \<Rightarrow> string" where
  "insert_at i insertion s = take i s @ insertion @ drop i s"

definition insert_before_ascii_case :: "string \<Rightarrow> string \<Rightarrow> string \<Rightarrow> string" where
  "insert_before_ascii_case input needle insertion =
     (case find_ascii_case input needle of
        None \<Rightarrow> input @ insertion
      | Some i \<Rightarrow> insert_at i insertion input)"

text \<open>\<open>str::find(char)\<close>.\<close>

fun find_char :: "char \<Rightarrow> string \<Rightarrow> nat option" where
  "find_char c [] = None"
| "find_char c (x # xs) = (if x = c then Some 0 else map_option Suc (find_char c xs))"

definition insert_after_opening_html :: "string \<Rightarrow> string \<Rightarrow> string" where
  "insert_after_opening_html rendered head_content =
     (case find_ascii_case rendered ''<html'' of
        None \<Rightarrow> rendered
      | Some i \<Rightarrow>
          (case find_char (CHR ''>'') (drop i rendered) of
             None \<Rightarrow> rendered
           | Some j \<Rightarrow> insert_at (i + j + 1) (''<head>'' @ head_content @ ''</head>'') rendered))"

definition quoted :: "string \<Rightarrow> string" where
  "quoted s = quote_char @ s @ quote_char"

definition compose_document :: "string \<Rightarrow> string \<Rightarrow> string \<Rightarrow> string" where
  "compose_document rendered head_content hmr =
     (if contains_ascii_case rendered ''<html'' then
        (let with_head =
           (if contains_ascii_case rendered ''<head'' then insert_before_ascii_case rendered ''</head>'' head_content
            else (case find_ascii_case rendered ''<body'' of
                    Some i \<Rightarrow> insert_at i (''<head>'' @ head_content @ ''</head>'') rendered
                  | None \<Rightarrow> insert_after_opening_html rendered head_content)) in
         insert_before_ascii_case with_head ''</body>'' hmr)
      else
        ''<!doctype html><html lang='' @ quoted ''en'' @ ''><head><meta charset='' @ quoted ''utf-8'' @ ''><meta name='' @
        quoted ''viewport'' @ '' content='' @ quoted ''width=device-width, initial-scale=1'' @ ''>'' @ head_content @
        ''</head><body>'' @ rendered @ hmr @ ''</body></html>'')"

text \<open>The language attribute: replaced where the opening tag has one, added otherwise. The quote is the byte after
  the equals sign.\<close>

definition set_document_lang :: "string \<Rightarrow> string \<Rightarrow> string" where
  "set_document_lang document l =
     (case find_ascii_case document ''<html'' of
        None \<Rightarrow> document
      | Some html_index \<Rightarrow>
          (case find_char (CHR ''>'') (drop html_index document) of
             None \<Rightarrow> document
           | Some relative_end \<Rightarrow>
               (let tag_end = html_index + relative_end;
                    opening = take relative_end (drop html_index document);
                    added = take tag_end document @ '' lang='' @ quoted l @ drop tag_end document in
                case find_ascii_case opening '' lang='' of
                  None \<Rightarrow> added
                | Some relative_attr \<Rightarrow>
                    (let value_start = html_index + relative_attr + 6 in
                     if value_start \<ge> tag_end then document
                     else
                       (let quote = document ! value_start;
                            is_quote = (quote = CHR 0x22 \<or> quote = CHR 0x27);
                            value_end =
                              (if is_quote
                               then map_option (\<lambda>k. value_start + 1 + k)
                                      (find_char quote (take (tag_end - (value_start + 1)) (drop (value_start + 1) document)))
                               else (let v = take (tag_end - value_start) (drop value_start document);
                                         n = length (takeWhile (\<lambda>c. \<not> is_space c) v) in
                                     Some (value_start + n))) in
                        case value_end of
                          None \<Rightarrow> added
                        | Some e \<Rightarrow> take (if is_quote then value_start + 1 else value_start) document @ l @ drop e document)))))"

definition localize_document :: "string \<Rightarrow> i18n_routing option \<Rightarrow> string \<Rightarrow> string \<Rightarrow> route_params \<Rightarrow> string" where
  "localize_document document config route_path request_path params =
     (case localized_head config route_path request_path params of
        None \<Rightarrow> document
      | Some (l, locale_head) \<Rightarrow> set_document_lang (insert_before_ascii_case document ''</head>'' locale_head) l)"

definition compose_localized_document ::
  "string \<Rightarrow> string \<Rightarrow> string \<Rightarrow> i18n_routing option \<Rightarrow> string \<Rightarrow> string \<Rightarrow> route_params \<Rightarrow> string" where
  "compose_localized_document rendered head_content hmr config route_path request_path params =
     localize_document (compose_document rendered head_content hmr) config route_path request_path params"

definition compose_document_head :: "string \<Rightarrow> string \<Rightarrow> (string \<times> string) option \<Rightarrow> string" where
  "compose_document_head start head_content l =
     (let with_head = insert_before_ascii_case start ''</head>'' head_content in
      case l of
        None \<Rightarrow> with_head
      | Some (l, locale_head) \<Rightarrow> set_document_lang (insert_before_ascii_case with_head ''</head>'' locale_head) l)"

section \<open>Data blocks\<close>

text \<open>\<open>str::replace\<close> of a text that is not empty.\<close>

function replace_str :: "string \<Rightarrow> string \<Rightarrow> string \<Rightarrow> string" where
  "replace_str p t s =
     (case s of
        [] \<Rightarrow> []
      | c # cs \<Rightarrow> if p \<noteq> [] \<and> starts_with s p then t @ replace_str p t (drop (length p) s) else c # replace_str p t cs)"
  by pat_completeness auto
termination by (relation "measure (\<lambda>(p, t, s). length s)") (auto simp: starts_with_iff)

declare replace_str.simps [simp del]

text \<open>U+2028 and U+2029 in UTF-8.\<close>

definition LINE_SEPARATOR :: string where "LINE_SEPARATOR = [CHR 0xE2, CHR 0x80, CHR 0xA8]"
definition PARAGRAPH_SEPARATOR :: string where "PARAGRAPH_SEPARATOR = [CHR 0xE2, CHR 0x80, CHR 0xA9]"

definition unicode_escape :: "string \<Rightarrow> string" where
  "unicode_escape digits = CHR 0x5C # CHR ''u'' # digits"

definition safe_json_for_script :: "string \<Rightarrow> string" where
  "safe_json_for_script json =
     replace_str PARAGRAPH_SEPARATOR (unicode_escape ''2029'')
       (replace_str LINE_SEPARATOR (unicode_escape ''2028'')
         (replace_char (CHR ''&'') (unicode_escape ''0026'')
           (replace_char (CHR ''>'') (unicode_escape ''003e'')
             (replace_char (CHR ''<'') (unicode_escape ''003c'') json))))"

definition data_block :: "string \<Rightarrow> string \<Rightarrow> string" where
  "data_block element_id json =
     ''<script type='' @ quoted ''application/json'' @ '' id='' @ quoted element_id @ ''>'' @ json @ ''</script>''"

text \<open>The members of the bootstrap document as they are inserted; \<open>to_json\<close> prints the document, \<open>to_value\<close>
  the parameters, and fails for parameters that have no JSON form.\<close>

datatype json_member = Member_Params string | Member_Path string | Member_Csr

definition bootstrap_data_block ::
  "(json_member list \<Rightarrow> string) \<Rightarrow> ('p \<Rightarrow> string option) \<Rightarrow> 'p \<Rightarrow> string \<Rightarrow> bool \<Rightarrow> string" where
  "bootstrap_data_block to_json to_value params request_path csr =
     data_block ''__ruvyxa-bootstrap''
       (safe_json_for_script
         (to_json ([Member_Params (case to_value params of Some v \<Rightarrow> v | None \<Rightarrow> ''{}''), Member_Path request_path] @
            (if csr then [Member_Csr] else []))))"

definition rsc_payload_block :: "(string \<Rightarrow> string) \<Rightarrow> string \<Rightarrow> string" where
  "rsc_payload_block to_json_string payload =
     data_block ''__ruvyxa-rsc'' (safe_json_for_script (to_json_string payload))"

section \<open>Addresses\<close>

definition upper_hex :: "nat \<Rightarrow> char" where
  "upper_hex n = ''0123456789ABCDEF'' ! n"

definition url_encode_component :: "string \<Rightarrow> string" where
  "url_encode_component input =
     concat (map (\<lambda>c. if is_ascii_alphanumeric c \<or> c \<in> {CHR ''-'', CHR ''_'', CHR ''.'', CHR ''~'', CHR ''/''} then [c]
                      else [CHR ''%'', upper_hex (byte c div 16), upper_hex (byte c mod 16)]) input)"

definition hydration_loader_url :: "string \<Rightarrow> string \<Rightarrow> hydration_mode \<Rightarrow> string" where
  "hydration_loader_url loader_src client_src mode =
     (case mode of
        Idle \<Rightarrow> loader_src @ ''?strategy=idle&src='' @ url_encode_component client_src
      | Visible \<Rightarrow> loader_src @ ''?strategy=visible&src='' @ url_encode_component client_src
      | _ \<Rightarrow> client_src)"

section \<open>Head defaults\<close>

definition DEFAULT_VIEWPORT_META :: string where
  "DEFAULT_VIEWPORT_META =
     ''<meta name='' @ quoted ''viewport'' @ '' content='' @ quoted ''width=device-width, initial-scale=1'' @ ''>''"

definition single_quoted :: "string \<Rightarrow> string" where
  "single_quoted s = CHR 0x27 # s @ [CHR 0x27]"

definition OWN_ICON_DECLARATIONS :: "string list" where
  "OWN_ICON_DECLARATIONS =
     [''rel='' @ quoted ''icon'', ''rel='' @ single_quoted ''icon'', ''rel='' @ quoted ''shortcut icon'',
      ''rel='' @ single_quoted ''shortcut icon'', ''rel='' @ quoted ''apple-touch-icon'',
      ''rel='' @ single_quoted ''apple-touch-icon'']"

definition declares_own_icon :: "string \<Rightarrow> bool" where
  "declares_own_icon lowercased = list_ex (contains_str lowercased) OWN_ICON_DECLARATIONS"

definition document_head_defaults :: "string \<Rightarrow> string \<Rightarrow> string" where
  "document_head_defaults document asset_links =
     (let lowered = map to_ascii_lowercase document in
      (if \<not> contains_str lowered (''name='' @ quoted ''viewport'') \<and>
          \<not> contains_str lowered (''name='' @ single_quoted ''viewport'') then DEFAULT_VIEWPORT_META else []) @
      (if \<not> declares_own_icon lowered then asset_links else []))"

definition style_head_tag :: "string option \<Rightarrow> string \<Rightarrow> string" where
  "style_head_tag asset_url css =
     (case asset_url of
        Some url \<Rightarrow> ''<link rel='' @ quoted ''stylesheet'' @ '' href='' @ quoted (escape_html url) @ ''>''
      | None \<Rightarrow> if css = [] then [] else ''<style data-ruvyxa-css>'' @ css @ ''</style>'')"

definition DOCUMENT_ICONS :: "(string \<times> string) list" where
  "DOCUMENT_ICONS = [(''ruvyxa.png'', ''image/png''), (''ruvyxa.webp'', ''image/webp'')]"

definition public_asset_links :: "asset_files \<Rightarrow> string \<Rightarrow> string" where
  "public_asset_links fs public_dir =
     (case List.find (\<lambda>(f, _). is_file fs (join_raw public_dir f)) DOCUMENT_ICONS of
        None \<Rightarrow> []
      | Some (f, content_type) \<Rightarrow>
          ''<link rel='' @ quoted ''icon'' @ '' type='' @ quoted content_type @ '' href='' @ quoted (''/'' @ f) @ ''>'')"

section \<open>Data blocks carry their text and nothing else\<close>

text \<open>The five replacements in one pass.\<close>

fun escape_script :: "string \<Rightarrow> string" where
  "escape_script [] = []"
| "escape_script (c # cs) =
     (if c = CHR ''<'' then unicode_escape ''003c'' @ escape_script cs
      else if c = CHR ''>'' then unicode_escape ''003e'' @ escape_script cs
      else if c = CHR ''&'' then unicode_escape ''0026'' @ escape_script cs
      else if c = CHR 0xE2 then
        (case cs of
           d # e # rest \<Rightarrow>
             (if d = CHR 0x80 \<and> e = CHR 0xA8 then unicode_escape ''2028'' @ escape_script rest
              else if d = CHR 0x80 \<and> e = CHR 0xA9 then unicode_escape ''2029'' @ escape_script rest
              else c # escape_script cs)
         | _ \<Rightarrow> c # escape_script cs)
      else c # escape_script cs)"

lemma replace_char_append [simp]: "replace_char c t (a @ b) = replace_char c t a @ replace_char c t b"
  by (simp add: replace_char_def)

lemma replace_char_free: "c \<notin> set a \<Longrightarrow> replace_char c t a = a"
  by (induction a) (auto simp: replace_char_def)

text \<open>The three characters first.\<close>

definition escape_markup :: "string \<Rightarrow> string" where
  "escape_markup json =
     replace_char (CHR ''&'') (unicode_escape ''0026'')
       (replace_char (CHR ''>'') (unicode_escape ''003e'') (replace_char (CHR ''<'') (unicode_escape ''003c'') json))"

lemma escape_markup_simps [simp]:
  "escape_markup [] = []"
  "escape_markup (c # cs) =
     (if c = CHR ''<'' then unicode_escape ''003c'' else if c = CHR ''>'' then unicode_escape ''003e''
      else if c = CHR ''&'' then unicode_escape ''0026'' else [c]) @ escape_markup cs"
  by (auto simp: escape_markup_def replace_char_def unicode_escape_def)

lemma replace_str_simps:
  "p \<noteq> [] \<Longrightarrow> replace_str p t (p @ s) = t @ replace_str p t s"
  "\<not> starts_with (c # cs) p \<Longrightarrow> replace_str p t (c # cs) = c # replace_str p t cs"
  "replace_str p t [] = []"
proof -
  show "p \<noteq> [] \<Longrightarrow> replace_str p t (p @ s) = t @ replace_str p t s"
    by (cases p) (simp_all add: replace_str.simps [of "_ # _" t "_ # _"] starts_with_def)
  show "\<not> starts_with (c # cs) p \<Longrightarrow> replace_str p t (c # cs) = c # replace_str p t cs"
    by (simp add: replace_str.simps [of p t "c # cs"])
  show "replace_str p t [] = []" by (simp add: replace_str.simps)
qed

lemma starts_with_hd: "p \<noteq> [] \<Longrightarrow> c \<noteq> hd p \<Longrightarrow> \<not> starts_with (c # cs) p"
  by (cases p) (auto simp: starts_with_def)

lemma replace_str_skip:
  assumes "hd p \<notin> set a" "p \<noteq> []"
  shows "replace_str p t (a @ s) = a @ replace_str p t s"
  using assms by (induction a) (auto simp: replace_str_simps(2) starts_with_hd)

lemmas separators = LINE_SEPARATOR_def PARAGRAPH_SEPARATOR_def

lemma escape_head: "unicode_escape d = CHR 0x5C # CHR ''u'' # d"
  by (simp add: unicode_escape_def)

lemma markup_head:
  "escape_markup cs = x # r \<Longrightarrow> x \<noteq> CHR 0x5C \<Longrightarrow> \<exists>cs'. cs = x # cs' \<and> r = escape_markup cs'"
  by (cases cs) (auto simp: escape_head split: if_splits)

lemma replace_head:
  assumes "replace_str p (unicode_escape d) s = x # r" "x \<noteq> CHR 0x5C" "p \<noteq> []"
  shows "\<exists>s'. s = x # s' \<and> r = replace_str p (unicode_escape d) s'"
  using assms
  by (cases s) (auto simp: replace_str.simps [of p _ "_ # _"] replace_str_simps(3) escape_head split: if_splits)

lemma no_separator:
  assumes "\<nexists>rest. cs = CHR 0x80 # z # rest" "z \<noteq> CHR 0x5C"
  shows "\<not> starts_with (CHR 0xE2 # escape_markup cs) [CHR 0xE2, CHR 0x80, z]"
    and "p \<noteq> [] \<Longrightarrow> \<not> starts_with (CHR 0xE2 # replace_str p (unicode_escape d) (escape_markup cs)) [CHR 0xE2, CHR 0x80, z]"
proof -
  show "\<not> starts_with (CHR 0xE2 # escape_markup cs) [CHR 0xE2, CHR 0x80, z]"
  proof
    assume "starts_with (CHR 0xE2 # escape_markup cs) [CHR 0xE2, CHR 0x80, z]"
    then obtain r where "escape_markup cs = CHR 0x80 # z # r" by (auto simp: starts_with_iff)
    from markup_head [OF this] obtain c1 where c1: "cs = CHR 0x80 # c1" "z # r = escape_markup c1" by auto
    from markup_head [OF c1(2) [symmetric] assms(2)] c1(1) assms(1) show False by auto
  qed
  assume p: "p \<noteq> []"
  let ?R = "replace_str p (unicode_escape d)"
  show "\<not> starts_with (CHR 0xE2 # ?R (escape_markup cs)) [CHR 0xE2, CHR 0x80, z]"
  proof
    assume "starts_with (CHR 0xE2 # ?R (escape_markup cs)) [CHR 0xE2, CHR 0x80, z]"
    then obtain r where "?R (escape_markup cs) = CHR 0x80 # z # r" by (auto simp: starts_with_iff)
    from replace_head [OF this _ p] obtain m where m: "escape_markup cs = CHR 0x80 # m" "z # r = ?R m" by auto
    from replace_head [OF m(2) [symmetric] assms(2) p] obtain m' where m': "m = z # m'" by auto
    from markup_head [OF m(1)] m' obtain c1 where c1: "cs = CHR 0x80 # c1" "z # m' = escape_markup c1" by auto
    from markup_head [OF c1(2) [symmetric] assms(2)] c1(1) assms(1) show False by auto
  qed
qed

lemma safe_json_one_pass: "safe_json_for_script json = escape_script json"
proof -
  let ?R = "replace_str LINE_SEPARATOR (unicode_escape ''2028'')"
  let ?S = "replace_str PARAGRAPH_SEPARATOR (unicode_escape ''2029'')"
  have hd: "hd LINE_SEPARATOR = CHR 0xE2" "LINE_SEPARATOR \<noteq> []" "hd PARAGRAPH_SEPARATOR = CHR 0xE2" "PARAGRAPH_SEPARATOR \<noteq> []"
    by (simp_all add: LINE_SEPARATOR_def PARAGRAPH_SEPARATOR_def)
  have skip: "?S (?R (a @ s)) = a @ ?S (?R s)" if "CHR 0xE2 \<notin> set a" for a s
    using that hd by (simp add: replace_str_skip)
  have plain: "CHR 0xE2 \<notin> set (unicode_escape d)" if "CHR 0xE2 \<notin> set d" for d
    using that by (simp add: escape_head)
  have "?S (?R (escape_markup json)) = escape_script json"
  proof (induction json rule: length_induct)
    case (1 json)
    show ?case
    proof (cases json)
      case (Cons c cs)
      have IH: "?S (?R (escape_markup s)) = escape_script s" if "length s \<le> length cs" for s
        using 1 that Cons by simp
      consider "c \<noteq> CHR 0xE2" | rest where "c = CHR 0xE2" "cs = CHR 0x80 # CHR 0xA8 # rest"
        | rest where "c = CHR 0xE2" "cs = CHR 0x80 # CHR 0xA9 # rest"
        | "c = CHR 0xE2" "\<nexists>rest. cs = CHR 0x80 # CHR 0xA8 # rest" "\<nexists>rest. cs = CHR 0x80 # CHR 0xA9 # rest"
        by blast
      then show ?thesis
      proof cases
        case 1
        then show ?thesis
          using IH [of cs] skip [of "[c]"] by (auto simp: Cons skip plain)
      next
        case (2 rest)
        have "?R (LINE_SEPARATOR @ escape_markup rest) = unicode_escape ''2028'' @ ?R (escape_markup rest)"
          by (rule replace_str_simps(1)) (simp add: hd)
        moreover have "escape_markup json = LINE_SEPARATOR @ escape_markup rest"
          by (simp add: Cons 2 LINE_SEPARATOR_def)
        moreover have "?S (unicode_escape ''2028'' @ ?R (escape_markup rest)) = unicode_escape ''2028'' @ ?S (?R (escape_markup rest))"
          by (rule replace_str_skip) (simp_all add: hd plain)
        moreover have "?S (?R (escape_markup rest)) = escape_script rest"
          by (rule IH) (simp add: 2)
        moreover have "escape_script json = unicode_escape ''2028'' @ escape_script rest"
          by (simp add: Cons 2)
        ultimately show ?thesis by (simp only:)
      next
        case (3 rest)
        have "?R (CHR 0xE2 # escape_markup cs) = CHR 0xE2 # ?R (escape_markup cs)"
          by (rule replace_str_simps(2)) (simp add: 3 LINE_SEPARATOR_def starts_with_def)
        moreover have "?R (escape_markup cs) = [CHR 0x80, CHR 0xA9] @ ?R (escape_markup rest)"
          using replace_str_skip [of LINE_SEPARATOR "[CHR 0x80, CHR 0xA9]"] by (simp add: 3 hd)
        ultimately have "?R (escape_markup json) = PARAGRAPH_SEPARATOR @ ?R (escape_markup rest)"
          by (simp add: Cons 3(1) PARAGRAPH_SEPARATOR_def)
        moreover have "?S (PARAGRAPH_SEPARATOR @ ?R (escape_markup rest)) = unicode_escape ''2029'' @ ?S (?R (escape_markup rest))"
          by (rule replace_str_simps(1)) (simp add: hd)
        moreover have "?S (?R (escape_markup rest)) = escape_script rest"
          by (rule IH) (simp add: 3)
        moreover have "escape_script json = unicode_escape ''2029'' @ escape_script rest"
          by (simp add: Cons 3)
        ultimately show ?thesis by (simp only:)
      next
        case 4
        have r: "?R (CHR 0xE2 # escape_markup cs) = CHR 0xE2 # ?R (escape_markup cs)"
          by (rule replace_str_simps(2)) (use no_separator(1) [OF 4(2)] in \<open>simp add: LINE_SEPARATOR_def\<close>)
        have "?S (CHR 0xE2 # ?R (escape_markup cs)) = CHR 0xE2 # ?S (?R (escape_markup cs))"
          by (rule replace_str_simps(2)) (use no_separator(2) [OF 4(3) _ hd(2)] in \<open>simp add: PARAGRAPH_SEPARATOR_def\<close>)
        moreover have "escape_script (CHR 0xE2 # cs) = CHR 0xE2 # escape_script cs"
          using 4(2,3) by (auto split: list.split)
        ultimately show ?thesis using r IH [of cs] by (simp add: Cons 4(1))
      qed
    qed (simp add: replace_str_simps)
  qed
  then show ?thesis by (simp add: safe_json_for_script_def escape_markup_def)
qed

section \<open>Reading a data block\<close>

text \<open>The body of a JSON string literal as a reader decodes it: \<open>\uXXXX\<close> as UTF-8, a surrogate half on its own,
  and the two-character escapes of the grammar.\<close>

definition utf8_encode :: "nat \<Rightarrow> string" where
  "utf8_encode n =
     (if n < 128 then [char_of n]
      else if n < 2048 then [char_of (192 + n div 64), char_of (128 + n mod 64)]
      else [char_of (224 + n div 4096), char_of (128 + n div 64 mod 64), char_of (128 + n mod 64)])"

definition hex_value :: "string \<Rightarrow> nat option" where
  "hex_value ds =
     (if list_all (\<lambda>d. to_digit 16 d \<noteq> None) ds
      then Some (foldl (\<lambda>a d. a * 16 + nat (the (to_digit 16 d))) 0 ds) else None)"

definition short_escape :: "char \<Rightarrow> char option" where
  "short_escape c =
     map_of [(CHR 0x22, CHR 0x22), (CHR 0x5C, CHR 0x5C), (CHR ''/'', CHR ''/''), (CHR ''b'', CHR 0x08),
             (CHR ''f'', CHR 0x0C), (CHR ''n'', CHR 0x0A), (CHR ''r'', CHR 0x0D), (CHR ''t'', CHR 0x09)] c"

fun json_unescape :: "string \<Rightarrow> string option" where
  "json_unescape [] = Some []"
| "json_unescape (c # cs) =
     (if c = CHR 0x22 then None
      else if c \<noteq> CHR 0x5C then map_option ((#) c) (json_unescape cs)
      else
        (case cs of
           [] \<Rightarrow> None
         | e # rest \<Rightarrow>
             (if e = CHR ''u'' then
                (case rest of
                   w # x # y # z # rest' \<Rightarrow>
                     (case hex_value [w, x, y, z] of
                        None \<Rightarrow> None
                      | Some n \<Rightarrow> map_option ((@) (utf8_encode n)) (json_unescape rest'))
                 | _ \<Rightarrow> None)
              else
                (case short_escape e of
                   None \<Rightarrow> None
                 | Some v \<Rightarrow> map_option ((#) v) (json_unescape rest)))))"

definition SCRIPT_SPECIALS :: "(string \<times> string) list" where
  "SCRIPT_SPECIALS = [(''<'', ''003c''), (''>'', ''003e''), (''&'', ''0026''), (LINE_SEPARATOR, ''2028''),
     (PARAGRAPH_SEPARATOR, ''2029'')]"

definition plain_script_char :: "char \<Rightarrow> bool" where
  "plain_script_char c \<longleftrightarrow> c \<notin> {CHR ''<'', CHR ''>'', CHR ''&'', CHR 0xE2}"

text \<open>How the pass takes a text apart.\<close>

lemma escape_script_step:
  obtains "plain_script_char c" "escape_script (c # cs) = c # escape_script cs"
  | raw code rest where "(raw, code) \<in> set SCRIPT_SPECIALS" "c # cs = raw @ rest" "\<not> plain_script_char c"
      "escape_script (c # cs) = unicode_escape code @ escape_script rest"
  | "c = CHR 0xE2" "escape_script (c # cs) = c # escape_script cs"
      "\<nexists>rest. cs = CHR 0x80 # CHR 0xA8 # rest" "\<nexists>rest. cs = CHR 0x80 # CHR 0xA9 # rest"
proof (cases "c = CHR 0xE2")
  case True
  consider rest where "cs = CHR 0x80 # CHR 0xA8 # rest" | rest where "cs = CHR 0x80 # CHR 0xA9 # rest"
    | "\<nexists>rest. cs = CHR 0x80 # CHR 0xA8 # rest" "\<nexists>rest. cs = CHR 0x80 # CHR 0xA9 # rest" by blast
  then show thesis
  proof cases
    case (1 rest)
    with True show thesis by (intro that(2) [of LINE_SEPARATOR "''2028''" rest])
        (auto simp: SCRIPT_SPECIALS_def separators plain_script_char_def)
  next
    case (2 rest)
    with True show thesis by (intro that(2) [of PARAGRAPH_SEPARATOR "''2029''" rest])
        (auto simp: SCRIPT_SPECIALS_def separators plain_script_char_def)
  next
    case 3
    moreover from 3 have "escape_script (CHR 0xE2 # cs) = CHR 0xE2 # escape_script cs"
      by (auto split: list.split)
    ultimately show thesis using that(3) True by simp
  qed
next
  case False
  then consider "plain_script_char c" | "c = CHR ''<''" | "c = CHR ''>''" | "c = CHR ''&''"
    by (auto simp: plain_script_char_def)
  then show thesis
  proof cases
    case 1
    then show thesis by (intro that(1)) (auto simp: plain_script_char_def)
  next
    case 2
    then show thesis by (intro that(2) [of "''<''" "''003c''" cs]) (auto simp: SCRIPT_SPECIALS_def plain_script_char_def)
  next
    case 3
    then show thesis by (intro that(2) [of "''>''" "''003e''" cs]) (auto simp: SCRIPT_SPECIALS_def plain_script_char_def)
  next
    case 4
    then show thesis by (intro that(2) [of "''&''" "''0026''" cs]) (auto simp: SCRIPT_SPECIALS_def plain_script_char_def)
  qed
qed

lemma script_escapes:
  assumes "(raw, code) \<in> set SCRIPT_SPECIALS"
  shows "json_unescape (unicode_escape code @ s) = map_option ((@) raw) (json_unescape s)"
    and "json_unescape (raw @ s) = map_option ((@) raw) (json_unescape s)"
    and "CHR 0xE2 \<notin> set (unicode_escape code)" "raw \<noteq> []"
    and "{CHR ''<'', CHR ''>'', CHR ''&''} \<inter> set (unicode_escape code) = {}"
proof -
  have "hex_value ''003c'' = Some 60" "hex_value ''003e'' = Some 62" "hex_value ''0026'' = Some 38"
    "hex_value ''2028'' = Some 8232" "hex_value ''2029'' = Some 8233"
    by code_simp+
  moreover have "utf8_encode 60 = ''<''" "utf8_encode 62 = ''>''" "utf8_encode 38 = ''&''"
    by code_simp+
  moreover have "char_of (226::nat) = CHR 0xE2" "char_of (128::nat) = CHR 0x80" "char_of (168::nat) = CHR 0xA8"
    "char_of (169::nat) = CHR 0xA9"
    by code_simp+
  then have "utf8_encode 8232 = LINE_SEPARATOR" "utf8_encode 8233 = PARAGRAPH_SEPARATOR"
    by (simp_all add: utf8_encode_def separators)
  ultimately show "json_unescape (unicode_escape code @ s) = map_option ((@) raw) (json_unescape s)"
    using assms by (auto simp: SCRIPT_SPECIALS_def escape_head)
  show "json_unescape (raw @ s) = map_option ((@) raw) (json_unescape s)"
    using assms by (cases "json_unescape s") (auto simp: SCRIPT_SPECIALS_def separators)
  show "CHR 0xE2 \<notin> set (unicode_escape code)" "raw \<noteq> []"
    "{CHR ''<'', CHR ''>'', CHR ''&''} \<inter> set (unicode_escape code) = {}"
    using assms by (auto simp: SCRIPT_SPECIALS_def escape_head separators)
qed

lemma escape_script_plain: "list_all plain_script_char a \<Longrightarrow> escape_script (a @ s) = a @ escape_script s"
  by (induction a) (auto simp: plain_script_char_def)

lemma escape_chars_plain:
  "to_digit 16 d \<noteq> None \<Longrightarrow> plain_script_char d" "short_escape e \<noteq> None \<Longrightarrow> plain_script_char e"
proof -
  have "to_digit 16 (CHR ''<'') = None" "to_digit 16 (CHR ''>'') = None" "to_digit 16 (CHR ''&'') = None"
    "to_digit 16 (CHR 0xE2) = None"
    by code_simp+
  then show "to_digit 16 d \<noteq> None \<Longrightarrow> plain_script_char d"
    by (auto simp: plain_script_char_def)
  show "short_escape e \<noteq> None \<Longrightarrow> plain_script_char e"
    by (auto simp: short_escape_def plain_script_char_def)
qed

lemma unescape_escaped:
  "json_unescape t = Some v \<Longrightarrow> json_unescape (escape_script t) = Some v"
proof (induction t arbitrary: v rule: length_induct)
  case (1 t)
  have IH: "json_unescape s = Some u \<Longrightarrow> json_unescape (escape_script s) = Some u" if "length s < length t" for s u
    using 1(1) that by blast
  show ?case
  proof (cases t)
    case Nil
    then show ?thesis using 1(2) by simp
  next
    case t: (Cons c cs)
    show ?thesis
    proof (cases rule: escape_script_step [of c cs])
      case 1
      note plain = this
      show ?thesis
      proof (cases "c = CHR 0x5C")
        case False
        then show ?thesis using \<open>json_unescape t = Some v\<close> plain IH [of cs] by (auto simp: t split: if_splits)
      next
        case True
        then obtain e rest where cs: "cs = e # rest" using \<open>json_unescape t = Some v\<close> by (cases cs) (auto simp: t)
        show ?thesis
        proof (cases "e = CHR ''u''")
          case u: True
          then obtain w x y z rest' n r where r: "rest = w # x # y # z # rest'" "hex_value [w, x, y, z] = Some n"
            "json_unescape rest' = Some r" "v = utf8_encode n @ r"
            using \<open>json_unescape t = Some v\<close> True by (auto simp: t cs split: list.splits option.splits)
          then have "list_all plain_script_char [c, e, w, x, y, z]"
            using escape_chars_plain(1) True u by (auto simp: hex_value_def plain_script_char_def split: if_splits)
          then have "escape_script t = [c, e, w, x, y, z] @ escape_script rest'"
            using escape_script_plain [of "[c, e, w, x, y, z]" rest'] by (simp add: t cs r(1))
          then show ?thesis using IH [of rest'] r True u by (simp add: t cs)
        next
          case False
          then obtain x r where r: "short_escape e = Some x" "json_unescape rest = Some r" "v = x # r"
            using \<open>json_unescape t = Some v\<close> True by (auto simp: t cs split: option.splits)
          then have "escape_script t = [c, e] @ escape_script rest"
            using escape_script_plain [of "[c, e]" rest] escape_chars_plain(2) [of e] plain(1) by (simp add: t cs)
          then show ?thesis using IH [of rest] r True False by (simp add: t cs)
        qed
      qed
    next
      case (2 raw code rest)
      note special = script_escapes [OF 2(1)]
      have "length rest < length t" using 2(2) special(4) by (simp add: t)
      then show ?thesis
        using \<open>json_unescape t = Some v\<close> IH [of rest] special(2) [of rest] special(1) [of "escape_script rest"] 2(2,4)
        by (auto simp: t)
    next
      case 3
      then show ?thesis using \<open>json_unescape t = Some v\<close> IH [of cs] by (auto simp: t)
    qed
  qed
qed

lemma escape_script_head:
  "escape_script cs = x # r \<Longrightarrow> x \<notin> {CHR 0x5C, CHR 0xE2} \<Longrightarrow> \<exists>cs'. cs = x # cs' \<and> r = escape_script cs'"
proof (cases cs)
  case (Cons c cs')
  assume "escape_script cs = x # r" "x \<notin> {CHR 0x5C, CHR 0xE2}"
  then show ?thesis
    unfolding Cons by (cases rule: escape_script_step [of c cs']) (auto simp: escape_head)
qed simp

lemma contains_str_skip: "p \<noteq> [] \<Longrightarrow> hd p \<notin> set a \<Longrightarrow> contains_str (a @ s) p \<longleftrightarrow> contains_str s p"
  by (induction a) (auto simp: starts_with_hd)

text \<open>What the pass removes.\<close>

lemma escape_script_free:
  assumes "z \<in> {CHR 0xA8, CHR 0xA9}"
  shows "\<not> contains_str (escape_script s) [CHR 0xE2, CHR 0x80, z] \<and>
    {CHR ''<'', CHR ''>'', CHR ''&''} \<inter> set (escape_script s) = {}"
proof (induction s rule: length_induct)
  case (1 s)
  show ?case
  proof (cases s)
    case s: (Cons c cs)
    have IH: "\<not> contains_str (escape_script r) [CHR 0xE2, CHR 0x80, z] \<and>
        {CHR ''<'', CHR ''>'', CHR ''&''} \<inter> set (escape_script r) = {}" if "length r < length s" for r
      using 1 that by blast
    show ?thesis
    proof (cases rule: escape_script_step [of c cs])
      case 1
      then show ?thesis using IH [of cs] by (auto simp: s plain_script_char_def starts_with_hd)
    next
      case (2 raw code rest)
      note special = script_escapes [OF 2(1)]
      have "length rest < length s" using 2(2) special(4) by (simp add: s)
      then show ?thesis using IH [of rest] special(3,5) 2(4) by (auto simp: s contains_str_skip)
    next
      case 3
      have "\<not> starts_with (CHR 0xE2 # escape_script cs) [CHR 0xE2, CHR 0x80, z]"
      proof
        assume "starts_with (CHR 0xE2 # escape_script cs) [CHR 0xE2, CHR 0x80, z]"
        then obtain r where "escape_script cs = CHR 0x80 # z # r" by (auto simp: starts_with_iff)
        from escape_script_head [OF this] obtain c1 where c1: "cs = CHR 0x80 # c1" "z # r = escape_script c1" by auto
        from escape_script_head [OF c1(2) [symmetric]] assms c1(1) 3(3,4) show False by auto
      qed
      then show ?thesis using IH [of cs] 3(1,2) by (simp add: s)
    qed
  qed simp
qed

section \<open>The properties\<close>

text \<open>C35. A JSON text embedded in an inline script is inert and keeps its meaning: what is written has no angle
  bracket, no ampersand and neither of the two line terminators of JavaScript, so it cannot leave the
  element or the literal; and a string literal decodes to the value it had before the escaping.\<close>

theorem data_blocks_inert:
  "{CHR ''<'', CHR ''>'', CHR ''&''} \<inter> set (safe_json_for_script json) = {} \<and>
   \<not> contains_str (safe_json_for_script json) LINE_SEPARATOR \<and>
   \<not> contains_str (safe_json_for_script json) PARAGRAPH_SEPARATOR \<and>
   (json_unescape json = Some v \<longrightarrow> json_unescape (safe_json_for_script json) = Some v)"
  using escape_script_free [of "CHR 0xA8" json] escape_script_free [of "CHR 0xA9" json] unescape_escaped [of json v]
  by (simp add: safe_json_one_pass separators)

theorem data_blocks_inert_witness:
  "json_unescape (safe_json_for_script ''</script>'') = Some ''</script>''"
proof -
  have "json_unescape ''</script>'' = Some ''</script>''" by code_simp
  then show ?thesis using data_blocks_inert by blast
qed

text \<open>The search for an opening \<open>head\<close> also finds \<open>header\<close>. A document that has a header element and no head
  is taken to have a head, the closing tag is not found, and the head content ends up after the document.\<close>

theorem header_taken_for_head:
  "compose_document ''<html><header>Hi</header></html>'' ''<base>'' [] =
   ''<html><header>Hi</header></html><base>''"
  by code_simp

end
