(* ===== verification/Client_Manifest.thy ===== *)
theory Client_Manifest
  imports Document_Head Http_Date
begin

text \<open>
  The client build report of a production server (\<open>html_document.rs\<close>): the process-wide cache of its parse, by
  content hash and by settled metadata, the reports of a broken file, and the assets of a route.

  One load is one step; the metadata before the read, the read and the metadata after it are separate
  observations, so a file replaced in between is an instance. The parser and the hash are parameters. A load
  answers with the line it logs, if any. \<open>next_sequence\<close> is unbounded here, a \<open>u64\<close> in the code.
\<close>

section \<open>Routes of a report\<close>

record client_assets =
  ca_src :: string
  ca_preloads :: "string list"
  ca_hydration :: hydration_mode
  ca_hydration_loader :: "string option"

record client_asset_route =
  cr_path :: string
  cr_src :: string
  cr_shared_chunks :: "string list"
  cr_hydration :: hydration_mode
  cr_hydration_loader :: "string option"

type_synonym asset_table = "(string, client_assets) btree"

definition assets_of_route :: "client_asset_route \<Rightarrow> client_assets" where
  "assets_of_route r =
     \<lparr>ca_src = cr_src r, ca_preloads = cr_shared_chunks r, ca_hydration = cr_hydration r,
      ca_hydration_loader = cr_hydration_loader r\<rparr>"

text \<open>The first route of a path stays.\<close>

definition routes_of :: "client_asset_route list \<Rightarrow> asset_table" where
  "routes_of rs =
     foldl (\<lambda>m r. if bt_contains_key (cr_path r) m then m else bt_insert (cr_path r) (assets_of_route r) m) bt_empty rs"

section \<open>The cache\<close>

type_synonym manifest_identity = "int \<times> system_time"

definition MANIFEST_SETTLE :: int where "MANIFEST_SETTLE = 2 * NANOS"

text \<open>The length and the modification time of a file, once that is two seconds old.\<close>

definition manifest_identity :: "system_time \<Rightarrow> (int \<times> system_time option) option \<Rightarrow> manifest_identity option" where
  "manifest_identity now metadata =
     Option.bind metadata (\<lambda>(n, modified). Option.bind modified (\<lambda>t.
       if t \<le> now \<and> now - t \<ge> MANIFEST_SETTLE then Some (n, t) else None))"

record cached_manifest =
  content_hash :: string
  sequence :: nat
  settled_identity :: "manifest_identity option"
  mf_routes :: asset_table

record manifest_cache =
  mc_entries :: "(string, cached_manifest) btree"
  next_sequence :: nat
  reported_failures :: "(string, string) btree"

definition empty_manifest_cache :: manifest_cache where
  "empty_manifest_cache = \<lparr>mc_entries = bt_empty, next_sequence = 0, reported_failures = bt_empty\<rparr>"

definition MAX_CACHED_MANIFEST_ROOTS :: nat where "MAX_CACHED_MANIFEST_ROOTS = 128"

function evict_roots :: "(string, cached_manifest) btree \<Rightarrow> (string, cached_manifest) btree" where
  "evict_roots m =
     (if bt_len m > MAX_CACHED_MANIFEST_ROOTS
      then (case min_by_key (\<lambda>(_, cached). sequence cached) m of
              None \<Rightarrow> m
            | Some (oldest, _) \<Rightarrow> evict_roots (bt_remove oldest m))
      else m)"
  by pat_completeness auto
termination
proof (relation "measure bt_len")
  fix m :: "(string, cached_manifest) btree" and x oldest y
  assume "min_by_key (\<lambda>(_, cached). sequence cached) m = Some x" "(oldest, y) = x"
  then have "(oldest, y) \<in> set m"
    using min_by_key_Some [of "\<lambda>(_, cached). sequence cached" m] by auto
  then have "bt_get m oldest \<noteq> None"
    by (auto simp: bt_get_def map_of_eq_None_iff intro!: image_eqI [of _ fst])
  then show "(bt_remove oldest m, m) \<in> measure bt_len"
    unfolding in_measure by (rule bt_len_remove_less)
qed simp

declare evict_roots.simps [simp del]

definition insert_manifest :: "string \<Rightarrow> cached_manifest \<Rightarrow> manifest_cache \<Rightarrow> manifest_cache" where
  "insert_manifest p e c = c\<lparr>mc_entries := evict_roots (bt_insert p e (mc_entries c))\<rparr>"

text \<open>A failure is logged where the path's last reported reason is another one.\<close>

definition report_manifest_failure :: "string \<Rightarrow> string \<Rightarrow> manifest_cache \<Rightarrow> string option \<times> manifest_cache" where
  "report_manifest_failure p reason c =
     (if bt_get (reported_failures c) p = Some reason then (None, c)
      else
        (let failures = (if bt_len (reported_failures c) \<ge> MAX_CACHED_MANIFEST_ROOTS then bt_empty else reported_failures c) in
         (Some reason, c\<lparr>reported_failures := bt_insert p reason failures\<rparr>)))"

definition clear_manifest_failure :: "string \<Rightarrow> manifest_cache \<Rightarrow> manifest_cache" where
  "clear_manifest_failure p c = c\<lparr>reported_failures := bt_remove p (reported_failures c)\<rparr>"

section \<open>Loading\<close>

datatype manifest_read = Missing | Failed string | Bytes string

datatype client_manifest = Absent | Unreadable | Loaded asset_table

record manifest_view =
  mv_before :: "system_time \<times> (int \<times> system_time option) option"
  mv_read :: manifest_read
  mv_after :: "system_time \<times> (int \<times> system_time option) option"

record manifest_env =
  me_hash :: "string \<Rightarrow> string"
  me_from_slice :: "string \<Rightarrow> string + client_asset_route list"

definition identity_before :: "manifest_view \<Rightarrow> manifest_identity option" where
  "identity_before v = manifest_identity (fst (mv_before v)) (snd (mv_before v))"

definition identity_after :: "manifest_view \<Rightarrow> manifest_identity option" where
  "identity_after v = manifest_identity (fst (mv_after v)) (snd (mv_after v))"

definition load_source ::
  "manifest_env \<Rightarrow> manifest_view \<Rightarrow> string \<Rightarrow> manifest_cache \<Rightarrow> client_manifest \<times> string option \<times> manifest_cache" where
  "load_source env v p c =
     (case mv_read v of
        Missing \<Rightarrow> (Absent, None, clear_manifest_failure p c)
      | Failed reason \<Rightarrow> (Unreadable, report_manifest_failure p reason c)
      | Bytes source \<Rightarrow>
          (let parse_anew =
             (case me_from_slice env source of
                Inl reason \<Rightarrow> (Unreadable, report_manifest_failure p reason c)
              | Inr rs \<Rightarrow>
                  (let c = clear_manifest_failure p c;
                       s = next_sequence c;
                       c = c\<lparr>next_sequence := s + 1\<rparr> in
                   (Loaded (routes_of rs), None,
                    insert_manifest p
                      \<lparr>content_hash = me_hash env source, sequence = s, settled_identity = identity_after v,
                       mf_routes = routes_of rs\<rparr> c))) in
           case bt_get (mc_entries c) p of
             None \<Rightarrow> parse_anew
           | Some e \<Rightarrow>
               (if content_hash e = me_hash env source
                then (Loaded (mf_routes e), None,
                      c\<lparr>mc_entries := bt_insert p (e\<lparr>settled_identity := identity_before v\<rparr>) (mc_entries c)\<rparr>)
                else parse_anew)))"

definition load_client_manifest ::
  "manifest_env \<Rightarrow> manifest_view \<Rightarrow> string \<Rightarrow> manifest_cache \<Rightarrow> client_manifest \<times> string option \<times> manifest_cache" where
  "load_client_manifest env v p c =
     (case (identity_before v, bt_get (mc_entries c) p) of
        (Some i, Some e) \<Rightarrow>
          (if settled_identity e = Some i then (Loaded (mf_routes e), None, c) else load_source env v p c)
      | _ \<Rightarrow> load_source env v p c)"

definition prebuilt_client_assets :: "client_manifest \<Rightarrow> string \<Rightarrow> client_assets option" where
  "prebuilt_client_assets m route_path = (case m of Loaded rs \<Rightarrow> bt_get rs route_path | _ \<Rightarrow> None)"

subsection \<open>The hydration script of a production page\<close>

definition preload_link :: "string \<Rightarrow> string" where
  "preload_link src = ''<link rel='' @ quoted ''modulepreload'' @ '' href='' @ quoted (escape_html src) @ ''>''"

text \<open>\<open>None\<close> for the assets is the report of a missing bundle: the page ships no script. The bootstrap block is the
  caller's.\<close>

definition client_hydration_script :: 
  "bool \<Rightarrow> render_meta \<Rightarrow> string \<Rightarrow> client_assets option \<Rightarrow> string \<Rightarrow> string" where
  "client_hydration_script watch meta request_path prebuilt bootstrap =
     (if \<not> ships_client_bundle meta then []
      else
        (case (if watch
               then Some \<lparr>ca_src = ''/__ruvyxa/client?path='' @ url_encode_component request_path, ca_preloads = [],
                          ca_hydration = hydration meta, ca_hydration_loader = Some ''/__ruvyxa/hydration-loader.js''\<rparr>
               else prebuilt) of
           None \<Rightarrow> []
         | Some a \<Rightarrow>
             (let deferred = ca_hydration a \<in> {Idle, Visible};
                  preload_links = (if deferred then [] else concat (map preload_link (ca_preloads a)));
                  script_src = (case ca_hydration_loader a of
                                  None \<Rightarrow> ca_src a
                                | Some loader \<Rightarrow> hydration_loader_url loader (ca_src a) (ca_hydration a)) in
              preload_links @ bootstrap @ ''<script type='' @ quoted ''module'' @ '' src='' @
              quoted (escape_html script_src) @ ''></script>'')))"

section \<open>The cache stays bounded\<close>

definition manifest_cache_ok :: "manifest_cache \<Rightarrow> bool" where
  "manifest_cache_ok c \<longleftrightarrow> bt_wf (mc_entries c) \<and> bt_len (mc_entries c) \<le> MAX_CACHED_MANIFEST_ROOTS \<and>
     bt_wf (reported_failures c) \<and> bt_len (reported_failures c) \<le> MAX_CACHED_MANIFEST_ROOTS"

lemma evict_roots_laws:
  "bt_wf m \<Longrightarrow> bt_wf (evict_roots m) \<and> bt_len (evict_roots m) \<le> MAX_CACHED_MANIFEST_ROOTS \<and>
    (bt_get (evict_roots m) k = Some e \<longrightarrow> bt_get m k = Some e)"
proof (induction m rule: evict_roots.induct)
  case (1 m)
  consider "bt_len m \<le> MAX_CACHED_MANIFEST_ROOTS" | x cached where "bt_len m > MAX_CACHED_MANIFEST_ROOTS"
      "min_by_key (\<lambda>(_, cached). sequence cached) m = Some (x, cached)"
    by (cases "min_by_key (\<lambda>(_, cached). sequence cached) m") (auto simp: bt_len_def intro: leI)
  then show ?case
  proof cases
    case 1
    then show ?thesis using \<open>bt_wf m\<close> by (simp add: evict_roots.simps)
  next
    case (2 x cached)
    then have "evict_roots m = evict_roots (bt_remove x m)"
      by (subst evict_roots.simps) simp
    then show ?thesis
      using "1.IH" [OF 2 refl] \<open>bt_wf m\<close> by (auto simp: bt_laws split: if_splits)
  qed
qed

lemma report_failure_ok: "manifest_cache_ok c \<Longrightarrow> manifest_cache_ok (snd (report_manifest_failure p r c))"
  using bt_len_insert_le [of p r "reported_failures c"] bt_len_insert_le [of p r bt_empty]
  by (auto simp: report_manifest_failure_def manifest_cache_ok_def Let_def bt_laws bt_empty_def bt_len_def
      MAX_CACHED_MANIFEST_ROOTS_def)

lemma clear_failure_ok: "manifest_cache_ok c \<Longrightarrow> manifest_cache_ok (clear_manifest_failure p c)"
  using bt_len_remove_le [of p "reported_failures c"]
  by (auto simp: clear_manifest_failure_def manifest_cache_ok_def bt_laws)

lemma insert_manifest_ok: "manifest_cache_ok c \<Longrightarrow> manifest_cache_ok (insert_manifest p e c)"
  using evict_roots_laws [of "bt_insert p e (mc_entries c)"]
  by (auto simp: insert_manifest_def manifest_cache_ok_def bt_laws)

lemma load_source_ok:
  assumes "manifest_cache_ok c"
  shows "manifest_cache_ok (snd (snd (load_source env v p c)))"
proof -
  have refreshed: "manifest_cache_ok (c\<lparr>mc_entries := bt_insert p e' (mc_entries c)\<rparr>)"
    if "bt_get (mc_entries c) p = Some e" for e e'
    using assms that bt_len_insert_old [of "mc_entries c" p e'] by (auto simp: manifest_cache_ok_def bt_laws)
  have fresh: "manifest_cache_ok (c'\<lparr>next_sequence := s\<rparr>)" if "manifest_cache_ok c'" for c' s
    using that by (simp add: manifest_cache_ok_def)
  show ?thesis
    using report_failure_ok [OF assms] clear_failure_ok [OF assms] insert_manifest_ok fresh refreshed
    by (auto simp: load_source_def Let_def split: manifest_read.split option.split sum.split)
qed

lemma load_manifest_ok: "manifest_cache_ok c \<Longrightarrow> manifest_cache_ok (snd (snd (load_client_manifest env v p c)))"
  using load_source_ok by (auto simp: load_client_manifest_def split: option.split)

section \<open>Runs of loads\<close>

definition load_step :: "manifest_env \<Rightarrow> manifest_cache \<Rightarrow> string \<times> manifest_view \<Rightarrow> manifest_cache" where
  "load_step env c = (\<lambda>(p, v). snd (snd (load_client_manifest env v p c)))"

interpretation manifest_loads: step_invariant "load_step env" manifest_cache_ok for env
  by unfold_locales (auto simp: load_step_def intro: load_manifest_ok)

fun loads :: "manifest_env \<Rightarrow> manifest_cache \<Rightarrow> (string \<times> manifest_view) list \<Rightarrow> client_manifest list" where
  "loads env c [] = []"
| "loads env c ((p, v) # es) =
     (let (answer, _, c') = load_client_manifest env v p c in answer # loads env c' es)"

text \<open>The reference: read and parse the file for every request.\<close>

definition read_and_parse :: "manifest_env \<Rightarrow> manifest_view \<Rightarrow> client_manifest" where
  "read_and_parse env v =
     (case mv_read v of
        Missing \<Rightarrow> Absent
      | Failed _ \<Rightarrow> Unreadable
      | Bytes b \<Rightarrow> (case me_from_slice env b of Inl _ \<Rightarrow> Unreadable | Inr rs \<Rightarrow> Loaded (routes_of rs)))"

text \<open>The observations of one request, where a settled length and modification time identify the bytes: \<open>content\<close>
  is what the file of a path holds at an identity.\<close>

definition honest_view :: "(string \<Rightarrow> manifest_identity \<Rightarrow> string) \<Rightarrow> string \<times> manifest_view \<Rightarrow> bool" where
  "honest_view content = (\<lambda>(p, v).
     (case identity_before v of None \<Rightarrow> True | Some i \<Rightarrow> mv_read v = Bytes (content p i)) \<and>
     (case identity_after v of None \<Rightarrow> True | Some i \<Rightarrow> mv_read v = Bytes (content p i)))"

definition entry_true :: "manifest_env \<Rightarrow> (string \<Rightarrow> manifest_identity \<Rightarrow> string) \<Rightarrow> string \<Rightarrow> cached_manifest \<Rightarrow> bool" where
  "entry_true env content p e \<longleftrightarrow> (\<exists>b rs. content_hash e = me_hash env b \<and> me_from_slice env b = Inr rs \<and>
     mf_routes e = routes_of rs \<and> (\<forall>i. settled_identity e = Some i \<longrightarrow> content p i = b))"

definition cache_true :: "manifest_env \<Rightarrow> (string \<Rightarrow> manifest_identity \<Rightarrow> string) \<Rightarrow> manifest_cache \<Rightarrow> bool" where
  "cache_true env content c \<longleftrightarrow> bt_wf (mc_entries c) \<and>
     (\<forall>p e. bt_get (mc_entries c) p = Some e \<longrightarrow> entry_true env content p e)"

lemma cache_true_simps [simp]:
  "cache_true env content (c\<lparr>next_sequence := s\<rparr>) = cache_true env content c"
  "cache_true env content (clear_manifest_failure p c) = cache_true env content c"
  "cache_true env content (snd (report_manifest_failure p r c)) = cache_true env content c"
  by (simp_all add: cache_true_def clear_manifest_failure_def report_manifest_failure_def Let_def)

lemma cache_true_insert:
  assumes "cache_true env content c" "entry_true env content p e"
  shows "cache_true env content (insert_manifest p e c)"
    and "cache_true env content (c\<lparr>mc_entries := bt_insert p e (mc_entries c)\<rparr>)"
proof -
  show inserted: "cache_true env content (c\<lparr>mc_entries := bt_insert p e (mc_entries c)\<rparr>)"
    using assms by (auto simp: cache_true_def bt_laws)
  then have "bt_wf (bt_insert p e (mc_entries c))" by (simp add: cache_true_def)
  note evicted = evict_roots_laws [OF this]
  show "cache_true env content (insert_manifest p e c)"
    unfolding cache_true_def insert_manifest_def
    using evicted inserted by (simp add: cache_true_def)
qed

lemma load_source_true:
  assumes inj: "inj (me_hash env)" and honest: "honest_view content (p, v)" and c: "cache_true env content c"
    and load: "load_source env v p c = (answer, logged, c')"
  shows "answer = read_and_parse env v" "cache_true env content c'"
proof -
  have "answer = read_and_parse env v \<and> cache_true env content c'"
  proof (cases "mv_read v")
    case (Bytes b)
    have before: "\<forall>i. identity_before v = Some i \<longrightarrow> content p i = b" and after: "\<forall>i. identity_after v = Some i \<longrightarrow> content p i = b"
      using honest Bytes by (auto simp: honest_view_def)
    show ?thesis
    proof (cases "\<exists>e. bt_get (mc_entries c) p = Some e \<and> content_hash e = me_hash env b")
      case True
      then obtain e where e: "bt_get (mc_entries c) p = Some e" "content_hash e = me_hash env b" by blast
      then obtain rs where rs: "me_from_slice env b = Inr rs" "mf_routes e = routes_of rs"
        using c injD [OF inj] by (metis cache_true_def entry_true_def)
      have "entry_true env content p (e\<lparr>settled_identity := identity_before v\<rparr>)"
        using e(2) rs before by (auto simp: entry_true_def)
      then show ?thesis
        using load e rs cache_true_insert(2) [OF c] by (auto simp: load_source_def Bytes read_and_parse_def)
    next
      case False
      show ?thesis
      proof (cases "me_from_slice env b")
        case (Inl reason)
        then have "load_source env v p c = (Unreadable, report_manifest_failure p reason c)"
          using False by (auto simp: load_source_def Bytes Let_def split: option.split)
        then have "answer = Unreadable" "c' = snd (report_manifest_failure p reason c)"
          using load by (auto dest: arg_cong [where f = snd])
        then show ?thesis using c Inl by (simp add: read_and_parse_def Bytes)
      next
        case (Inr rs)
        let ?c = "clear_manifest_failure p c"
        let ?e = "\<lparr>content_hash = me_hash env b, sequence = next_sequence ?c, settled_identity = identity_after v, mf_routes = routes_of rs\<rparr>"
        have "load_source env v p c =
            (Loaded (routes_of rs), None, insert_manifest p ?e (?c\<lparr>next_sequence := next_sequence ?c + 1\<rparr>))"
          using False Inr by (auto simp: load_source_def Bytes Let_def split: option.split)
        moreover have "entry_true env content p ?e"
          using Inr after by (auto simp: entry_true_def)
        ultimately show ?thesis
          using load c Inr cache_true_insert(1) [of env content "?c\<lparr>next_sequence := next_sequence ?c + 1\<rparr>" p ?e]
          by (auto simp: read_and_parse_def Bytes)
      qed
    qed
  next
    case Missing
    then show ?thesis using load c by (auto simp: load_source_def read_and_parse_def)
  next
    case (Failed reason)
    then have "load_source env v p c = (Unreadable, report_manifest_failure p reason c)"
      by (simp add: load_source_def)
    then have "answer = Unreadable" "c' = snd (report_manifest_failure p reason c)"
      using load by (auto dest: arg_cong [where f = snd])
    then show ?thesis using c Failed by (simp add: read_and_parse_def)
  qed
  then show "answer = read_and_parse env v" "cache_true env content c'" by auto
qed

lemma load_manifest_true:
  assumes "inj (me_hash env)" "honest_view content (p, v)" "cache_true env content c"
    and load: "load_client_manifest env v p c = (answer, logged, c')"
  shows "answer = read_and_parse env v \<and> cache_true env content c'"
proof (cases "load_client_manifest env v p c = load_source env v p c")
  case True
  then show ?thesis using load_source_true [OF assms(1-3)] load by metis
next
  case False
  then obtain i e where e: "identity_before v = Some i" "bt_get (mc_entries c) p = Some e" "settled_identity e = Some i"
    by (auto simp: load_client_manifest_def split: option.splits if_splits)
  have "entry_true env content p e" using assms(3) e(2) by (simp add: cache_true_def)
  then obtain b rs where b: "me_from_slice env b = Inr rs" "mf_routes e = routes_of rs" "content p i = b"
    unfolding entry_true_def using e(3) by blast
  have "mv_read v = Bytes b" using assms(2) e(1) b(3) by (simp add: honest_view_def)
  then show ?thesis
    using load e b assms(3) by (auto simp: load_client_manifest_def read_and_parse_def)
qed

section \<open>The properties\<close>


text \<open>A report of one route whose bundle is the text of the file.\<close>

definition one_route_env :: manifest_env where
  "one_route_env =
     \<lparr>me_hash = (\<lambda>b. b),
      me_from_slice = (\<lambda>b. if b = [] then Inl ''EOF'' else
        Inr [\<lparr>cr_path = ''/'', cr_src = b, cr_shared_chunks = [], cr_hydration = Load, cr_hydration_loader = None\<rparr>])\<rparr>"

definition settled_view :: "int \<Rightarrow> string \<Rightarrow> manifest_view" where
  "settled_view written b =
     \<lparr>mv_before = (10 * NANOS, Some (1, Some written)), mv_read = Bytes b, mv_after = (10 * NANOS, Some (1, Some written))\<rparr>"


definition replaced_view :: manifest_view where
  "replaced_view =
     \<lparr>mv_before = (10 * NANOS, Some (1, Some 1)), mv_read = Bytes ''a'', mv_after = (10 * NANOS, Some (1, Some 2))\<rparr>"

text \<open>The metadata stored beside a fresh parse is read again after the bytes. When a build replaces the report
  in between with a file that keeps an older modification time, the new file's identity is stored with the old
  file's routes, and every later load answers the old routes without reading.\<close>

theorem replaced_manifest_pinned:
  "loads one_route_env empty_manifest_cache (replicate 3 (''r'', settled_view 1 ''a'')) =
     replicate 3 (read_and_parse one_route_env (settled_view 1 ''a'')) \<and>
   loads one_route_env empty_manifest_cache [(''r'', replaced_view), (''r'', settled_view 2 ''b''), (''r'', settled_view 2 ''b'')] =
     replicate 3 (read_and_parse one_route_env (settled_view 1 ''a'')) \<and>
   read_and_parse one_route_env (settled_view 2 ''b'') \<noteq> read_and_parse one_route_env (settled_view 1 ''a'')"
  by (intro conjI) code_simp+

end
