(* ===== verification/File_Probe.thy ===== *)
theory File_Probe
  imports Asset_Paths
begin

text \<open>
  Probing of files (\<open>resolver.rs\<close>): the candidates of an import path in their order of priority, the two
  resolutions that need nothing else, and the report of an import whose spelling differs from the file's in case
  only.

  Paths are texts as in \<open>Asset_Paths\<close>; the name, parent and extension of \<open>std::path\<close> are written for any text, a
  trailing separator or dot included.
\<close>

section \<open>Names and parents\<close>

text \<open>A path without the separators and dots that follow its last name.\<close>

function trimmed_path :: "string \<Rightarrow> string" where
  "trimmed_path p =
     (if p \<noteq> [] \<and> ends_with p ''/'' then trimmed_path (butlast p)
      else if ends_with p ''/.'' then trimmed_path (butlast p) else p)"
  by pat_completeness auto
termination by (relation "measure length") (auto simp: ends_with_iff)

declare trimmed_path.simps [simp del]

definition last_segment :: "string \<Rightarrow> string" where
  "last_segment p = rev (takeWhile (\<lambda>c. c \<noteq> CHR ''/'') (rev p))"

text \<open>\<open>Path::file_name\<close>.\<close>

definition path_name :: "string \<Rightarrow> string option" where
  "path_name p =
     (let w = last_segment (trimmed_path p) in if w \<in> {[], ''.'', ''..''} then None else Some w)"

definition name_extension :: "string \<Rightarrow> string option" where
  "name_extension p = Option.bind (path_name p) file_extension"

text \<open>\<open>Path::parent\<close>.\<close>

definition parent_path :: "string \<Rightarrow> string option" where
  "parent_path p =
     (let q = trimmed_path p in
      if q = [] then None
      else
        (let r = take (length q - length (last_segment q)) q in
         Some (if r = [] then [] else if trimmed_path r = [] then ''/'' else trimmed_path r)))"

text \<open>\<open>Path::with_extension\<close> of an extension that is not empty.\<close>

definition replace_extension :: "string \<Rightarrow> string \<Rightarrow> string" where
  "replace_extension p ext =
     (case path_name p of
        None \<Rightarrow> p
      | Some name \<Rightarrow>
          (let q = trimmed_path p in take (length q - length name) q @ file_stem name @ ''.'' @ ext))"

section \<open>Candidates\<close>

definition PROBE_EXTENSIONS :: "string list" where
  "PROBE_EXTENSIONS = [''ts'', ''tsx'', ''js'', ''jsx'', ''mts'', ''cts'', ''mjs'', ''cjs'', ''md'', ''mdx'']"

definition typescript_source_extensions :: "string \<Rightarrow> string list" where
  "typescript_source_extensions ext =
     (if ext = ''js'' then [''ts'', ''tsx'', ''jsx'']
      else if ext = ''mjs'' then [''mts'', ''ts'']
      else if ext = ''cjs'' then [''cts'', ''ts'']
      else if ext = ''jsx'' then [''tsx'']
      else [])"

definition with_appended_extension :: "string \<Rightarrow> string \<Rightarrow> string" where
  "with_appended_extension p ext = p @ ''.'' @ ext"

definition file_candidates :: "string \<Rightarrow> string list" where
  "file_candidates joined =
     (let written = (case name_extension joined of None \<Rightarrow> [] | Some e \<Rightarrow> e) in
      map (replace_extension joined) (typescript_source_extensions written) @
      [joined] @
      map (with_appended_extension joined) PROBE_EXTENSIONS @
      map (\<lambda>ext. join_raw joined (''index.'' @ ext)) PROBE_EXTENSIONS)"

definition normalized_canonical_path :: "asset_files \<Rightarrow> string \<Rightarrow> string" where
  "normalized_canonical_path fs p = (case canonicalize fs p of Some c \<Rightarrow> c | None \<Rightarrow> p)"

definition resolve_file_candidate :: "asset_files \<Rightarrow> string \<Rightarrow> string option" where
  "resolve_file_candidate fs joined =
     map_option (normalized_canonical_path fs) (find (is_file fs) (file_candidates joined))"

definition resolve_specifier :: "asset_files \<Rightarrow> string \<Rightarrow> string \<Rightarrow> string option" where
  "resolve_specifier fs base_dir specifier = resolve_file_candidate fs (join_raw base_dir specifier)"

text \<open>An absolute specifier replaces the root when joined, so the two cases of the code are one.\<close>

definition resolve_project_specifier :: "asset_files \<Rightarrow> string \<Rightarrow> string \<Rightarrow> string option" where
  "resolve_project_specifier fs project_root specifier =
     resolve_file_candidate fs (if starts_with specifier ''/'' then specifier else join_raw project_root specifier)"

definition is_project_local :: "string \<Rightarrow> string \<Rightarrow> bool" where
  "is_project_local p project_root =
     (let n = length (path_components project_root); cs = path_components p in
      take n cs = path_components project_root \<and> take 1 (drop n cs) \<noteq> [Normal ''node_modules''])"

definition is_non_js_asset_specifier :: "string \<Rightarrow> bool" where
  "is_non_js_asset_specifier specifier =
     (name_extension (map to_ascii_lowercase specifier) \<in> Some ` {''css'', ''scss'', ''sass'', ''less''})"

section \<open>Spelling\<close>

definition lexical_step :: "string list \<Rightarrow> component \<Rightarrow> string list" where
  "lexical_step segments c =
     (case c of
        Normal w \<Rightarrow> segments @ [w]
      | Parent_Dir \<Rightarrow> butlast segments
      | Cur_Dir \<Rightarrow> segments
      | Root_Dir \<Rightarrow> [])"

definition lexical_segments :: "string \<Rightarrow> string list" where
  "lexical_segments p = foldl lexical_step [] (path_components p)"

definition differs_only_by_ascii_case :: "string \<Rightarrow> string \<Rightarrow> bool" where
  "differs_only_by_ascii_case requested resolved = (eq_ignore_ascii_case requested resolved \<and> requested \<noteq> resolved)"

text \<open>\<open>str::is_char_boundary\<close> on UTF-8 text.\<close>

definition is_char_boundary :: "string \<Rightarrow> nat \<Rightarrow> bool" where
  "is_char_boundary s n = (n = length s \<or> n < length s \<and> \<not> (128 \<le> byte (s ! n) \<and> byte (s ! n) < 192))"

text \<open>What of a segment on disk is compared with what the import spelled; \<open>None\<close> skips the segment.\<close>

definition comparable :: "bool \<Rightarrow> string \<Rightarrow> string \<Rightarrow> string option" where
  "comparable is_last requested resolved =
     (if is_last \<and> length resolved > length requested
      then (if is_char_boundary resolved (length requested) then Some (take (length requested) resolved) else None)
      else Some resolved)"

fun first_mismatch :: "string list \<Rightarrow> string list \<Rightarrow> (string \<times> string) option" where
  "first_mismatch (r # rs) (d # ds) =
     (case comparable (rs = []) r d of
        None \<Rightarrow> first_mismatch rs ds
      | Some c \<Rightarrow> if differs_only_by_ascii_case r c then Some (r, c) else first_mismatch rs ds)"
| "first_mismatch _ _ = None"

definition import_case_mismatch :: "string \<Rightarrow> string \<Rightarrow> (string \<times> string) option" where
  "import_case_mismatch requested resolved =
     (let rs = lexical_segments requested; ds = lexical_segments resolved in
      if rs = [] \<or> length ds < length rs then None else first_mismatch rs ds)"

section \<open>What the report means\<close>

text \<open>\<open>spelled_by E rs ds\<close>: the segments on disk begin with the ones the import names, each related by \<open>E\<close>, and
  the last one may go on (an appended extension) after a whole character.\<close>

fun spelled_by :: "(string \<Rightarrow> string \<Rightarrow> bool) \<Rightarrow> string list \<Rightarrow> string list \<Rightarrow> bool" where
  "spelled_by E [r] (d # ds) =
     (length r \<le> length d \<and> is_char_boundary d (length r) \<and> E r (take (length r) d))"
| "spelled_by E (r # r' # rs) (d # ds) = (E r d \<and> spelled_by E (r' # rs) ds)"
| "spelled_by E _ _ = False"

lemma comparable_last: "length r \<le> length d \<Longrightarrow> is_char_boundary d (length r) \<Longrightarrow> comparable True r d = Some (take (length r) d)"
  by (auto simp: comparable_def)

lemma first_mismatch_exact:
  "spelled_by eq_ignore_ascii_case rs ds \<Longrightarrow>
     (case first_mismatch rs ds of
        None \<Rightarrow> spelled_by (=) rs ds
      | Some (r, c) \<Rightarrow> \<not> spelled_by (=) rs ds \<and> r \<in> set rs \<and> differs_only_by_ascii_case r c \<and> (\<exists>d\<in>set ds. take (length r) d = c))"
proof (induction eq_ignore_ascii_case rs ds rule: spelled_by.induct)
  case (1 r d ds)
  then show ?case by (auto simp: comparable_last differs_only_by_ascii_case_def)
next
  case (2 r r' rs d ds)
  have "length r = length d" if "eq_ignore_ascii_case r d"
    using that by (metis eq_ignore_ascii_case_def length_map)
  then show ?case
    using 2 by (auto simp: comparable_def differs_only_by_ascii_case_def split: option.splits)
qed auto

lemma spelled_by_length: "spelled_by E rs ds \<Longrightarrow> rs \<noteq> [] \<and> length rs \<le> length ds"
  by (induction E rs ds rule: spelled_by.induct) auto

section \<open>The properties\<close>

text \<open>C19. An import that a case-folding file system answered is reported exactly when it is not spelled the way
  the file is: with every segment of the answer equal to the requested one up to ASCII case (the last one may go
  on with an extension), no report means that the spelling is the file's, and a report names a requested segment
  and the characters of the file's name that differ from it in case.\<close>

theorem case_report_exact:
  assumes "spelled_by eq_ignore_ascii_case (lexical_segments requested) (lexical_segments resolved)"
  shows "case import_case_mismatch requested resolved of
      None \<Rightarrow> spelled_by (=) (lexical_segments requested) (lexical_segments resolved)
    | Some (r, c) \<Rightarrow> \<not> spelled_by (=) (lexical_segments requested) (lexical_segments resolved) \<and>
        r \<in> set (lexical_segments requested) \<and> r \<noteq> c \<and> eq_ignore_ascii_case r c \<and>
        (\<exists>d\<in>set (lexical_segments resolved). take (length r) d = c)"
  using first_mismatch_exact [OF assms] spelled_by_length [OF assms]
  by (auto simp: import_case_mismatch_def Let_def differs_only_by_ascii_case_def split: option.splits)

theorem case_report_exact_witness:
  "import_case_mismatch ''/app/lib/../ui/./Header'' ''/app/ui/header.tsx'' = Some (''Header'', ''header'') \<and>
   import_case_mismatch ''/app/ui/header'' ''/app/ui/header/index.ts'' = None \<and>
   \<not> spelled_by (=) (lexical_segments ''/app/lib/../ui/./Header'') (lexical_segments ''/app/ui/header.tsx'')"
proof -
  have folded: "spelled_by eq_ignore_ascii_case (lexical_segments ''/app/lib/../ui/./Header'') (lexical_segments ''/app/ui/header.tsx'')"
    by code_simp
  have reported: "import_case_mismatch ''/app/lib/../ui/./Header'' ''/app/ui/header.tsx'' = Some (''Header'', ''header'')"
    by code_simp
  have "import_case_mismatch ''/app/ui/header'' ''/app/ui/header/index.ts'' = None" by code_simp
  with reported case_report_exact [OF folded] show ?thesis by auto
qed

text \<open>A file system that folds case and holds one TypeScript file.\<close>

definition folding_files :: asset_files where
  "folding_files =
     \<lparr>is_file = (\<lambda>p. map to_ascii_lowercase p = ''/app/header.ts''),
      path_exists = (\<lambda>p. map to_ascii_lowercase p = ''/app/header.ts''),
      canonicalize = (\<lambda>p. if map to_ascii_lowercase p = ''/app/header.ts'' then Some ''/app/header.ts'' else None)\<rparr>"

text \<open>A written \<open>.js\<close> that stands for a \<open>.ts\<close> source escapes the report: the wrong case resolves here, is not
  reported, and names nothing where case counts.\<close>

theorem rewritten_import_unreported:
  "resolve_specifier folding_files ''/app'' ''Header.js'' = Some ''/app/header.ts'' \<and>
   import_case_mismatch (join_raw ''/app'' ''Header.js'') ''/app/header.ts'' = None \<and>
   import_case_mismatch (join_raw ''/app'' ''Header.ts'') ''/app/header.ts'' = Some (''Header.ts'', ''header.ts'') \<and>
   resolve_specifier (folding_files\<lparr>is_file := (\<lambda>p. p = ''/app/header.ts'')\<rparr>) ''/app'' ''Header.js'' = None"
  by (intro conjI) code_simp+

end
