(* ===== verification/Package_Exports.thy ===== *)
theory Package_Exports
  imports File_Probe I18n "HOL-Library.Product_Lexorder"
begin

text \<open>
  Package resolution (\<open>resolver.rs\<close>): the entry points of a \<open>package.json\<close>, the \<open>exports\<close> and \<open>imports\<close> maps with
  their conditions and patterns, the walk over \<open>node_modules\<close> directories, private \<open>#\<close> specifiers and a
  package's reference to itself.

  The JSON parser and the file system are parameters; the manifest cache is left out, a manifest is what the file
  says.
\<close>

section \<open>Manifests\<close>

datatype bundle_target = Client_Target | Ssr_Target | Edge_Target | React_Server_Target

datatype package_json =
    JNull
  | JString string
  | JArray "package_json list"
  | JObject "(string \<times> package_json) list"
  | JUnsupported

record package_manifest =
  pm_exports :: "package_json option"
  pm_imports :: "package_json option"
  pm_name :: "string option"
  pm_browser :: "string option"
  pm_module :: "string option"
  pm_main :: "string option"

definition empty_manifest :: package_manifest where
  "empty_manifest =
     \<lparr>pm_exports = None, pm_imports = None, pm_name = None, pm_browser = None, pm_module = None, pm_main = None\<rparr>"

definition manifest_field :: "string \<times> package_json \<Rightarrow> package_manifest \<Rightarrow> package_manifest" where
  "manifest_field = (\<lambda>(f, v) m.
     if f = ''exports'' then m\<lparr>pm_exports := Some v\<rparr>
     else if f = ''imports'' then m\<lparr>pm_imports := Some v\<rparr>
     else
       (case v of
          JString s \<Rightarrow>
            (if f = ''name'' then m\<lparr>pm_name := Some s\<rparr>
             else if f = ''browser'' then m\<lparr>pm_browser := Some s\<rparr>
             else if f = ''module'' then m\<lparr>pm_module := Some s\<rparr>
             else if f = ''main'' then m\<lparr>pm_main := Some s\<rparr>
             else m)
        | _ \<Rightarrow> m))"

definition parse_package_manifest :: "(string \<Rightarrow> package_json option) \<Rightarrow> string \<Rightarrow> package_manifest option" where
  "parse_package_manifest from_str content =
     (case from_str content of
        Some (JObject fs) \<Rightarrow> Some (fold manifest_field fs empty_manifest)
      | _ \<Rightarrow> None)"

text \<open>What is asked of the file system and the parser.\<close>

record package_world =
  pw_files :: asset_files
  pw_read :: "string \<Rightarrow> string option"
  pw_json :: "string \<Rightarrow> package_json option"

definition package_manifest_at :: "package_world \<Rightarrow> string \<Rightarrow> package_manifest option" where
  "package_manifest_at w pkg_json_path =
     Option.bind (pw_read w pkg_json_path) (parse_package_manifest (pw_json w))"

section \<open>Conditions and patterns\<close>

datatype export_targets = Targets "string list" | Blocked | Unmatched

definition preferred_conditions :: "bundle_target \<Rightarrow> string list" where
  "preferred_conditions t =
     (case t of
        Client_Target \<Rightarrow> [''browser'', ''import'', ''module'', ''default'']
      | Ssr_Target \<Rightarrow> [''node'', ''import'', ''module'', ''default'']
      | React_Server_Target \<Rightarrow> [''react-server'', ''node'', ''import'', ''module'', ''default'']
      | Edge_Target \<Rightarrow> [''worker'', ''edge-light'', ''import'', ''module'', ''default''])"

definition fallback_conditions :: "bundle_target \<Rightarrow> string list" where
  "fallback_conditions t = (if t = Edge_Target then [] else [''require''])"

definition export_path :: "string option \<Rightarrow> string \<Rightarrow> export_targets" where
  "export_path star s =
     (let p = (case star of None \<Rightarrow> s | Some w \<Rightarrow> replace_char (CHR ''*'') w s) in
      if starts_with p ''./'' then Targets [p] else Unmatched)"

function resolve_exports_value :: "bundle_target \<Rightarrow> string option \<Rightarrow> package_json \<Rightarrow> export_targets"
  and resolve_exports_array :: "bundle_target \<Rightarrow> string option \<Rightarrow> string list \<Rightarrow> package_json list \<Rightarrow> export_targets"
  and resolve_conditions :: "bundle_target \<Rightarrow> string option \<Rightarrow> string list \<Rightarrow> (string \<times> package_json) list \<Rightarrow> export_targets"
where
  "resolve_exports_value t w JNull = Blocked"
| "resolve_exports_value t w (JString s) = export_path w s"
| "resolve_exports_value t w (JArray vs) = resolve_exports_array t w [] vs"
| "resolve_exports_value t w (JObject m) =
     (case resolve_conditions t w (preferred_conditions t) m of
        Unmatched \<Rightarrow> resolve_conditions t w (fallback_conditions t) m
      | r \<Rightarrow> r)"
| "resolve_exports_value t w JUnsupported = Unmatched"
| "resolve_exports_array t w targets [] = (if targets = [] then Unmatched else Targets targets)"
| "resolve_exports_array t w targets (v # vs) =
     (case resolve_exports_value t w v of
        Targets found \<Rightarrow> resolve_exports_array t w (targets @ found) vs
      | Blocked \<Rightarrow> if targets = [] then Blocked else resolve_exports_array t w targets vs
      | Unmatched \<Rightarrow> resolve_exports_array t w targets vs)"
| "resolve_conditions t w cs [] = Unmatched"
| "resolve_conditions t w cs ((c, v) # m) =
     (if c \<in> set cs
      then (case resolve_exports_value t w v of Unmatched \<Rightarrow> resolve_conditions t w cs m | r \<Rightarrow> r)
      else resolve_conditions t w cs m)"
  by pat_completeness auto
termination
  by (relation "measure (\<lambda>x. case x of
        Inl (t, w, v) \<Rightarrow> size v
      | Inr (Inl (t, w, acc, vs)) \<Rightarrow> size_list size vs
      | Inr (Inr (t, w, cs, m)) \<Rightarrow> size_list (size_prod (\<lambda>_. 0) size) m)") auto

text \<open>\<open>Iterator::max_by_key\<close>: the last of the greatest.\<close>

fun max_by_key :: "('a \<Rightarrow> 'k::linorder) \<Rightarrow> 'a list \<Rightarrow> 'a option" where
  "max_by_key f [] = None"
| "max_by_key f (x # xs) =
     (case max_by_key f xs of None \<Rightarrow> Some x | Some y \<Rightarrow> if f x \<le> f y then Some y else Some x)"

definition match_export_pattern :: "string \<Rightarrow> string \<times> package_json \<Rightarrow> ((nat \<times> nat) \<times> string \<times> package_json) option" where
  "match_export_pattern key = (\<lambda>(pat, value).
     (case split_once (CHR ''*'') pat of
        None \<Rightarrow> None
      | Some (before, after) \<Rightarrow>
          (if length (filter (\<lambda>c. c = CHR ''*'') pat) \<noteq> 1 \<or> \<not> starts_with key before \<or> \<not> ends_with key after \<or>
              length key < length before + length after
           then None
           else Some ((length before, length after),
                      take (length key - length after - length before) (drop (length before) key), value))))"

definition resolve_exports_subpath :: "(string \<times> package_json) list \<Rightarrow> string \<Rightarrow> bundle_target \<Rightarrow> export_targets" where
  "resolve_exports_subpath m key t =
     (case List.find (\<lambda>(e, _). e = key) m of
        Some (_, value) \<Rightarrow> resolve_exports_value t None value
      | None \<Rightarrow>
          (case max_by_key fst (List.map_filter (match_export_pattern key) m) of
             None \<Rightarrow> Unmatched
           | Some (_, star, value) \<Rightarrow> resolve_exports_value t (Some star) value))"

definition resolve_exports_entry :: "package_json \<Rightarrow> string \<Rightarrow> bundle_target \<Rightarrow> export_targets" where
  "resolve_exports_entry exports key t =
     (case exports of
        JNull \<Rightarrow> Blocked
      | JString _ \<Rightarrow> if key = ''.'' then resolve_exports_value t None exports else Unmatched
      | JArray _ \<Rightarrow> if key = ''.'' then resolve_exports_value t None exports else Unmatched
      | JObject m \<Rightarrow>
          (if list_ex (\<lambda>(e, _). starts_with e ''.'') m then resolve_exports_subpath m key t
           else if key = ''.'' then resolve_exports_value t None exports
           else Unmatched)
      | JUnsupported \<Rightarrow> Unmatched)"

section \<open>Files of a package\<close>

text \<open>The relative paths that may be joined to a package directory.\<close>

definition joinable_target :: "string \<Rightarrow> bool" where
  "joinable_target rel \<longleftrightarrow> rel \<noteq> [] \<and> CHR 0x5C \<notin> set rel \<and> list_all is_normal (path_components rel)"

definition strip_dot_slash :: "string \<Rightarrow> string" where
  "strip_dot_slash v = (case strip_prefix v ''./'' of None \<Rightarrow> v | Some r \<Rightarrow> r)"

definition within_package :: "asset_files \<Rightarrow> string \<Rightarrow> string \<Rightarrow> string option" where
  "within_package fs pkg_dir candidate =
     (if path_starts_with candidate (normalized_canonical_path fs pkg_dir) then Some candidate else None)"

definition resolve_package_relative :: "asset_files \<Rightarrow> string \<Rightarrow> string \<Rightarrow> string option" where
  "resolve_package_relative fs pkg_dir relative =
     (let rel = strip_dot_slash relative in
      if \<not> joinable_target rel then None
      else Option.bind (resolve_file_candidate fs (join_raw pkg_dir rel))
             (\<lambda>resolved. within_package fs pkg_dir (normalized_canonical_path fs resolved)))"

definition resolve_export_target :: "asset_files \<Rightarrow> string \<Rightarrow> string \<Rightarrow> string option" where
  "resolve_export_target fs pkg_dir target =
     (case strip_prefix target ''./'' of
        None \<Rightarrow> None
      | Some rel \<Rightarrow>
          (if \<not> joinable_target rel then None
           else Option.bind (canonicalize fs (join_raw pkg_dir rel)) (within_package fs pkg_dir)))"

text \<open>\<open>splitn(3, '/')\<close> of a scoped name, \<open>split_once\<close> of another.\<close>

definition package_name_and_export_key :: "string \<Rightarrow> (string \<times> string) option" where
  "package_name_and_export_key specifier =
     (if specifier = [] \<or> starts_with specifier ''.'' \<or> starts_with specifier ''/'' then None
      else if starts_with specifier ''@'' then
        (case split_once (CHR ''/'') specifier of
           None \<Rightarrow> None
         | Some (scope, rest) \<Rightarrow>
             (case split_once (CHR ''/'') rest of
                None \<Rightarrow> Some (scope @ ''/'' @ rest, ''.'')
              | Some (name, subpath) \<Rightarrow>
                  Some (scope @ ''/'' @ name, if subpath = [] then ''.'' else ''./'' @ subpath)))
      else
        (case split_once (CHR ''/'') specifier of
           None \<Rightarrow> Some (specifier, ''.'')
         | Some (name, subpath) \<Rightarrow> Some (name, ''./'' @ subpath)))"

definition legacy_entry_candidates :: "package_manifest \<Rightarrow> string \<Rightarrow> bundle_target \<Rightarrow> string list" where
  "legacy_entry_candidates m export_key t =
     (if export_key \<noteq> ''.'' then [strip_dot_slash export_key]
      else map strip_dot_slash
        ((if t = Client_Target then (case pm_browser m of Some b \<Rightarrow> [b] | None \<Rightarrow> []) else []) @
         (case pm_module m of Some x \<Rightarrow> [x] | None \<Rightarrow> []) @
         (case pm_main m of Some x \<Rightarrow> [x] | None \<Rightarrow> []) @ [''index'']))"

definition resolve_legacy_entry :: "asset_files \<Rightarrow> string \<Rightarrow> package_manifest \<Rightarrow> string \<Rightarrow> bundle_target \<Rightarrow> string option" where
  "resolve_legacy_entry fs pkg_dir m export_key t =
     find_map (resolve_package_relative fs pkg_dir) (legacy_entry_candidates m export_key t)"

section \<open>Directories on the way up\<close>

lemma trimmed_length: "length (trimmed_path p) \<le> length p"
proof (induction p rule: trimmed_path.induct)
  case (1 p)
  then show ?case by (subst trimmed_path.simps) (auto intro: order_trans)
qed

lemma trimmed_end: "trimmed_path p = [] \<or> \<not> ends_with (trimmed_path p) ''/''"
proof (induction p rule: trimmed_path.induct)
  case (1 p)
  show ?case
  proof (cases "p \<noteq> [] \<and> ends_with p ''/'' \<or> ends_with p ''/.''")
    case True
    then have "trimmed_path p = trimmed_path (butlast p)" by (subst trimmed_path.simps) auto
    then show ?thesis using 1 True by auto
  next
    case False
    then show ?thesis by (subst (1 2) trimmed_path.simps) auto
  qed
qed

lemma last_segment_nonempty: "q \<noteq> [] \<Longrightarrow> \<not> ends_with q ''/'' \<Longrightarrow> last_segment q \<noteq> []"
  by (cases q rule: rev_cases) (auto simp: last_segment_def ends_with_iff)

lemma parent_shorter: "parent_path p = Some d \<Longrightarrow> length d < length p"
proof -
  assume parent: "parent_path p = Some d"
  let ?q = "trimmed_path p"
  let ?r = "take (length ?q - length (last_segment ?q)) ?q"
  have q: "?q \<noteq> []" using parent by (auto simp: parent_path_def Let_def split: if_splits)
  then have "last_segment ?q \<noteq> []" using trimmed_end [of p] last_segment_nonempty [of ?q] by simp
  moreover have "length (last_segment ?q) \<le> length ?q"
    by (simp add: last_segment_def) (metis length_rev length_takeWhile_le)
  ultimately have r: "length ?r < length ?q" using q by (cases "last_segment ?q") auto
  define r' where "r' = ?r"
  have "d = (if r' = [] then [] else if trimmed_path r' = [] then ''/'' else trimmed_path r')"
    using parent q by (auto simp: parent_path_def Let_def r'_def split: if_splits)
  then have "length d \<le> length r'" using trimmed_length [of r'] by (cases r') auto
  then show "length d < length p" using r trimmed_length [of p] by (simp add: r'_def)
qed

function path_ancestors :: "string \<Rightarrow> string list" where
  "path_ancestors p = p # (case parent_path p of None \<Rightarrow> [] | Some d \<Rightarrow> path_ancestors d)"
  by pat_completeness auto
termination by (relation "measure length") (auto intro: parent_shorter)

declare path_ancestors.simps [simp del]

text \<open>Paths are compared by their components.\<close>

fun dedup_paths :: "component list set \<Rightarrow> string list \<Rightarrow> string list" where
  "dedup_paths seen [] = []"
| "dedup_paths seen (p # ps) =
     (if path_components p \<in> seen then dedup_paths seen ps
      else p # dedup_paths (insert (path_components p) seen) ps)"

definition node_modules_candidates :: "string \<Rightarrow> string \<Rightarrow> string list" where
  "node_modules_candidates importer_dir project_root =
     dedup_paths {} (map (\<lambda>d. join_raw d ''node_modules'')
       (filter (\<lambda>d. path_name d \<noteq> Some ''node_modules'') (path_ancestors importer_dir @ path_ancestors project_root)))"

section \<open>Resolution\<close>

datatype package_resolution = Unavailable | Exports_Blocked | Resolved string

definition first_target :: "asset_files \<Rightarrow> string \<Rightarrow> string list \<Rightarrow> package_resolution" where
  "first_target fs pkg_dir targets =
     (case find_map (resolve_export_target fs pkg_dir) targets of Some p \<Rightarrow> Resolved p | None \<Rightarrow> Unavailable)"

fun walk_packages :: "package_world \<Rightarrow> bundle_target \<Rightarrow> string \<Rightarrow> string \<Rightarrow> string list \<Rightarrow> package_resolution" where
  "walk_packages w t name key [] = Unavailable"
| "walk_packages w t name key (d # ds) =
     (let pkg_dir = join_raw d name in
      case package_manifest_at w (join_raw pkg_dir ''package.json'') of
        None \<Rightarrow>
          (case (if key \<noteq> ''.'' then resolve_package_relative (pw_files w) pkg_dir key else None) of
             Some p \<Rightarrow> Resolved p
           | None \<Rightarrow> walk_packages w t name key ds)
      | Some m \<Rightarrow>
          (case (case pm_exports m of None \<Rightarrow> Unmatched | Some e \<Rightarrow> resolve_exports_entry e key t) of
             Blocked \<Rightarrow> Exports_Blocked
           | Targets targets \<Rightarrow> first_target (pw_files w) pkg_dir targets
           | Unmatched \<Rightarrow>
               (case resolve_legacy_entry (pw_files w) pkg_dir m key t of Some p \<Rightarrow> Resolved p | None \<Rightarrow> Unavailable)))"

definition resolve_node_modules_specifier ::
  "package_world \<Rightarrow> string \<Rightarrow> string \<Rightarrow> string \<Rightarrow> bundle_target \<Rightarrow> package_resolution" where
  "resolve_node_modules_specifier w importer_dir project_root specifier t =
     (case package_name_and_export_key specifier of
        None \<Rightarrow> Unavailable
      | Some (name, key) \<Rightarrow> walk_packages w t name key (node_modules_candidates importer_dir project_root))"

function nearest_package_manifest :: "package_world \<Rightarrow> string \<Rightarrow> string \<Rightarrow> (string \<times> package_manifest) option" where
  "nearest_package_manifest w dir project_root =
     (case package_manifest_at w (join_raw dir ''package.json'') of
        Some m \<Rightarrow> Some (dir, m)
      | None \<Rightarrow>
          (if path_name dir = Some ''node_modules'' then None
           else if path_components dir = path_components project_root then None
           else (case parent_path dir of None \<Rightarrow> None | Some d \<Rightarrow> nearest_package_manifest w d project_root)))"
  by pat_completeness auto
termination by (relation "measure (\<lambda>(w, dir, root). length dir)") (auto intro: parent_shorter)

declare nearest_package_manifest.simps [simp del]

definition answer_targets :: "asset_files \<Rightarrow> string \<Rightarrow> export_targets \<Rightarrow> package_resolution" where
  "answer_targets fs pkg_dir r =
     (case r of
        Blocked \<Rightarrow> Exports_Blocked
      | Unmatched \<Rightarrow> Unavailable
      | Targets targets \<Rightarrow> first_target fs pkg_dir targets)"

definition resolve_package_imports_specifier ::
  "package_world \<Rightarrow> string \<Rightarrow> string \<Rightarrow> string \<Rightarrow> bundle_target \<Rightarrow> package_resolution" where
  "resolve_package_imports_specifier w importer_dir project_root specifier t =
     (case nearest_package_manifest w importer_dir project_root of
        None \<Rightarrow> Unavailable
      | Some (pkg_dir, m) \<Rightarrow>
          (case pm_imports m of
             Some (JObject imports) \<Rightarrow> answer_targets (pw_files w) pkg_dir (resolve_exports_subpath imports specifier t)
           | _ \<Rightarrow> Unavailable))"

definition self_reference_applies :: "package_world \<Rightarrow> string \<Rightarrow> string \<Rightarrow> string \<Rightarrow> bool" where
  "self_reference_applies w importer_dir project_root specifier =
     (case nearest_package_manifest w importer_dir project_root of
        None \<Rightarrow> False
      | Some (_, m) \<Rightarrow>
          (case pm_name m of
             None \<Rightarrow> False
           | Some name \<Rightarrow>
               specifier = name \<or>
               (case strip_prefix specifier name of None \<Rightarrow> False | Some r \<Rightarrow> starts_with r ''/'')))"

definition resolve_self_reference ::
  "package_world \<Rightarrow> string \<Rightarrow> string \<Rightarrow> string \<Rightarrow> bundle_target \<Rightarrow> package_resolution" where
  "resolve_self_reference w importer_dir project_root specifier t =
     (case nearest_package_manifest w importer_dir project_root of
        None \<Rightarrow> Unavailable
      | Some (pkg_dir, m) \<Rightarrow>
          (case (pm_name m, pm_exports m) of
             (Some name, Some exports) \<Rightarrow>
               (case strip_prefix specifier name of
                  None \<Rightarrow> Unavailable
                | Some r \<Rightarrow> answer_targets (pw_files w) pkg_dir (resolve_exports_entry exports (''.'' @ r) t))
           | _ \<Rightarrow> Unavailable))"

section \<open>The pattern that answers\<close>

lemma max_by_key_None_iff [simp]: "max_by_key f xs = None \<longleftrightarrow> xs = []"
  by (cases xs) (auto split: option.splits)

lemma max_by_key_Some: "max_by_key f xs = Some x \<Longrightarrow> x \<in> set xs \<and> (\<forall>y\<in>set xs. f y \<le> f x)"
proof (induction xs arbitrary: x)
  case (Cons y xs)
  show ?case
  proof (cases "max_by_key f xs")
    case None
    then show ?thesis using Cons.prems by simp
  next
    case (Some z)
    have "\<forall>u\<in>set xs. f u \<le> f z" "z \<in> set xs" using Cons.IH [OF Some] by auto
    moreover have "x = (if f y \<le> f z then z else y)" using Cons.prems Some by (simp split: if_splits)
    ultimately show ?thesis by (auto intro: order_trans less_imp_le simp: not_le)
  qed
qed simp

text \<open>A pattern names a key when its one star stands for a part of it.\<close>

definition pattern_names :: "string \<Rightarrow> string \<Rightarrow> string \<Rightarrow> string \<Rightarrow> string \<Rightarrow> bool" where
  "pattern_names pat before star after key \<longleftrightarrow>
     pat = before @ CHR ''*'' # after \<and> CHR ''*'' \<notin> set before \<and> CHR ''*'' \<notin> set after \<and> key = before @ star @ after"

lemma match_export_pattern_iff:
  "match_export_pattern key (pat, value) = Some (rank, star, value') \<longleftrightarrow>
     value' = value \<and> (\<exists>before after. pattern_names pat before star after key \<and> rank = (length before, length after))"
proof
  assume m: "match_export_pattern key (pat, value) = Some (rank, star, value')"
  then obtain before after where s: "split_once (CHR ''*'') pat = Some (before, after)"
    by (auto simp: match_export_pattern_def split: option.splits)
  have one: "length (filter (\<lambda>c. c = CHR ''*'') pat) = 1" and key: "starts_with key before" "ends_with key after"
    "length before + length after \<le> length key"
    and r: "rank = (length before, length after)" "value' = value"
      "star = take (length key - length after - length before) (drop (length before) key)"
    using m s by (auto simp: match_export_pattern_def split: if_splits)
  have pat: "pat = before @ CHR ''*'' # after" "CHR ''*'' \<notin> set before" using s by (auto simp: split_once_Some_iff)
  then have plain: "CHR ''*'' \<notin> set after" using one by (auto simp: filter_empty_conv)
  obtain u where u: "key = before @ u" using key(1) by (auto simp: starts_with_iff)
  obtain v where v: "key = v @ after" using key(2) by (auto simp: ends_with_iff)
  have "v = before @ star"
  proof -
    have "length before \<le> length v" using v key(3) by simp
    then have "take (length before) v = before" using u v by (metis append_eq_append_conv_if append_eq_conv_conj)
    then have "v = before @ drop (length before) v" by (metis append_take_drop_id)
    moreover have "star = drop (length before) v" using r(3) v by (simp add: drop_append)
    ultimately show ?thesis by simp
  qed
  then have "key = before @ star @ after" using v by simp
  with pat plain have "pattern_names pat before star after key" by (simp add: pattern_names_def)
  with r show "value' = value \<and> (\<exists>before after. pattern_names pat before star after key \<and> rank = (length before, length after))"
    by blast
next
  assume "value' = value \<and> (\<exists>before after. pattern_names pat before star after key \<and> rank = (length before, length after))"
  then obtain before after where names: "pattern_names pat before star after key" and r: "rank = (length before, length after)" "value' = value"
    by blast
  then have once: "split_once (CHR ''*'') pat = Some (before, after)" by (simp add: pattern_names_def split_once_first)
  have "filter (\<lambda>c. c = CHR ''*'') before = []" "filter (\<lambda>c. c = CHR ''*'') after = []"
    using names by (auto simp: pattern_names_def filter_empty_conv)
  then have one: "length (filter (\<lambda>c. c = CHR ''*'') pat) = 1" using names by (simp add: pattern_names_def)
  have key: "key = before @ star @ after" using names by (simp add: pattern_names_def)
  then have ends: "starts_with key before" "ends_with key after" by (auto simp: ends_with_iff intro: exI [of _ "before @ star"])
  show "match_export_pattern key (pat, value) = Some (rank, star, value')"
    using once one ends key r by (simp add: match_export_pattern_def)
qed

lemma map_filter_Some_iff: "y \<in> set (List.map_filter f xs) \<longleftrightarrow> (\<exists>x\<in>set xs. f x = Some y)"
  by (force simp: List.map_filter_def)

lemma subpath_exact: "(\<And>v. (key, v) \<notin> set m) \<Longrightarrow> List.find (\<lambda>(e, _). e = key) m = None"
  by (auto simp: find_None_iff)

section \<open>Where an answer lies\<close>

lemma within_package_Some: "within_package fs dir p = Some q \<longleftrightarrow> q = p \<and> path_starts_with p (normalized_canonical_path fs dir)"
  by (auto simp: within_package_def)

lemma relative_within: "resolve_package_relative fs dir r = Some p \<Longrightarrow> path_starts_with p (normalized_canonical_path fs dir)"
  by (auto simp: resolve_package_relative_def Let_def within_package_Some split: if_splits bind_splits)

lemma target_within: "resolve_export_target fs dir r = Some p \<Longrightarrow> path_starts_with p (normalized_canonical_path fs dir)"
  by (auto simp: resolve_export_target_def within_package_Some split: if_splits bind_splits option.splits)

lemma find_map_within: "find_map f xs = Some y \<Longrightarrow> \<exists>x\<in>set xs. f x = Some y"
  by (induction xs) (auto simp: option_or_def split: option.splits)

lemma first_target_within:
  "first_target fs dir ts = Resolved p \<Longrightarrow> path_starts_with p (normalized_canonical_path fs dir)"
  using target_within by (auto simp: first_target_def dest!: find_map_within split: option.splits)

lemma legacy_within:
  "resolve_legacy_entry fs dir m key t = Some p \<Longrightarrow> path_starts_with p (normalized_canonical_path fs dir)"
  using relative_within by (auto simp: resolve_legacy_entry_def dest!: find_map_within)

lemma walk_packages_within:
  "walk_packages w t name key ds = Resolved p \<Longrightarrow>
   \<exists>d\<in>set ds. path_starts_with p (normalized_canonical_path (pw_files w) (join_raw d name))"
proof (induction w t name key ds rule: walk_packages.induct)
  case (2 w t name key d ds)
  show ?case
  proof (cases "package_manifest_at w (join_raw (join_raw d name) ''package.json'')")
    case None
    then show ?thesis using 2
      by (auto simp: Let_def split: option.splits if_splits dest: relative_within)
  next
    case (Some m)
    then show ?thesis using "2.prems" legacy_within first_target_within
      by (fastforce simp: Let_def split: option.splits export_targets.splits)
  qed
qed simp

lemma answer_targets_within:
  "answer_targets fs dir r = Resolved p \<Longrightarrow> path_starts_with p (normalized_canonical_path fs dir)"
  using first_target_within by (auto simp: answer_targets_def split: export_targets.splits)

lemma dedup_paths_subset: "set (dedup_paths seen ps) \<subseteq> set ps"
  by (induction seen ps rule: dedup_paths.induct) auto

lemma candidates_are_modules:
  "d \<in> set (node_modules_candidates importer project) \<Longrightarrow> \<exists>a. d = join_raw a ''node_modules''"
  using dedup_paths_subset unfolding node_modules_candidates_def by fastforce

subsection \<open>The package of an importer\<close>

lemma components_trimmed:
  "p \<noteq> [] \<Longrightarrow> path_components (if trimmed_path p = [] then ''/'' else trimmed_path p) = path_components p"
proof (induction p rule: trimmed_path.induct)
  case (1 p)
  consider s where "p = s @ ''/''" | s where "p = s @ ''/.''" | "\<not> ends_with p ''/''" "\<not> ends_with p ''/.''"
    by (auto simp: ends_with_iff)
  then show ?case
  proof cases
    case (1 s)
    then have trimmed: "trimmed_path p = trimmed_path s" by (subst trimmed_path.simps) (simp add: ends_with_iff)
    show ?thesis
    proof (cases "s = []")
      case True
      then have "trimmed_path s = []" by (subst trimmed_path.simps) (simp add: ends_with_iff)
      then show ?thesis using 1 True trimmed by simp
    next
      case False
      have "path_components (if trimmed_path (butlast p) = [] then ''/'' else trimmed_path (butlast p)) = path_components (butlast p)"
        using "1.IH"(1) 1 False by (simp add: ends_with_iff)
      moreover have "butlast p = s" using 1 by simp
      ultimately have "path_components (if trimmed_path s = [] then ''/'' else trimmed_path s) = path_components s" by metis
      then show ?thesis unfolding trimmed by (simp only: 1 components_slash [OF False])
    qed
  next
    case (2 s)
    then have b: "\<not> (p \<noteq> [] \<and> ends_with p ''/'')" "ends_with p ''/.''" "butlast p = s @ ''/''"
      by (auto simp: ends_with_iff butlast_append)
    have trimmed: "trimmed_path p = trimmed_path (s @ ''/'')"
      using b by (subst trimmed_path.simps) simp
    have same: "path_components p = path_components (s @ ''/'')"
    proof (cases "s = []")
      case False
      then show ?thesis
        using 2 split_on_append_sep [of "CHR ''/''" s "''.''"] split_on_append_sep [of "CHR ''/''" s "[]"]
        by (simp add: path_components_def starts_with_append_ne)
    qed (simp add: 2 path_components_def starts_with_def)
    have "path_components (if trimmed_path (butlast p) = [] then ''/'' else trimmed_path (butlast p)) = path_components (butlast p)"
      using "1.IH"(2) [OF b(1,2)] b(3) by simp
    then show ?thesis unfolding trimmed same b(3) .
  next
    case 3
    then have "trimmed_path p = p" by (subst trimmed_path.simps) simp
    then show ?thesis using \<open>p \<noteq> []\<close> by simp
  qed
qed

lemma trimmed_no_dot: "\<not> ends_with (trimmed_path p) ''/.''"
proof (induction p rule: trimmed_path.induct)
  case (1 p)
  show ?case
  proof (cases "p \<noteq> [] \<and> ends_with p ''/'' \<or> ends_with p ''/.''")
    case True
    then have "trimmed_path p = trimmed_path (butlast p)" by (subst trimmed_path.simps) auto
    then show ?thesis using 1 True by auto
  next
    case False
    then show ?thesis by (subst trimmed_path.simps) auto
  qed
qed

lemma last_segment_split: "\<exists>r. q = r @ last_segment q \<and> (r = [] \<or> ends_with r ''/'') \<and> CHR ''/'' \<notin> set (last_segment q)"
proof (cases "CHR ''/'' \<in> set q")
  case True
  then obtain a b where q: "q = a @ CHR ''/'' # b" "CHR ''/'' \<notin> set b" using split_list_last by metis
  then have "last_segment q = b" by (simp add: last_segment_def takeWhile_append)
  with q show ?thesis by (intro exI [of _ "a @ ''/''"]) (simp add: ends_with_iff)
next
  case False
  then have "takeWhile (\<lambda>c. c \<noteq> CHR ''/'') (rev q) = rev q"
    unfolding takeWhile_eq_all_conv by auto
  then have "last_segment q = q" unfolding last_segment_def by (simp only: rev_rev_ident)
  with False show ?thesis by simp
qed

definition segment_component :: "string \<Rightarrow> component" where
  "segment_component w = (if w = ''.'' then Cur_Dir else if w = ''..'' then Parent_Dir else Normal w)"

lemma components_one: "w \<noteq> [] \<Longrightarrow> CHR ''/'' \<notin> set w \<Longrightarrow> path_components w = [segment_component w]"
  by (cases w) (auto simp: path_components_def segment_component_def split_on_free starts_with_def)

lemma components_last:
  assumes "w \<noteq> []" "w \<noteq> ''.''" "CHR ''/'' \<notin> set w"
  shows "path_components (s @ CHR ''/'' # w) = path_components (s @ ''/'') @ [segment_component w]"
proof (cases "s = []")
  case True
  then show ?thesis using assms by (simp add: path_components_def segment_component_def split_on_free starts_with_def)
next
  case False
  then show ?thesis
    using assms split_on_append_sep [of "CHR ''/''" s w] split_on_append_sep [of "CHR ''/''" s "[]"]
    by (simp add: path_components_def segment_component_def split_on_free starts_with_append_ne)
qed

lemma parent_components:
  assumes "parent_path p = Some d"
  shows "\<exists>c. path_components p = path_components d @ [c] \<and> (\<forall>w. c = Normal w \<longrightarrow> path_name p = Some w)"
proof -
  let ?q = "trimmed_path p" and ?w = "last_segment (trimmed_path p)"
  have q: "?q \<noteq> []" "p \<noteq> []" using assms by (auto simp: parent_path_def Let_def trimmed_path.simps [of "[]"] ends_with_iff split: if_splits)
  then have w: "?w \<noteq> []" using trimmed_end [of p] last_segment_nonempty [of ?q] by simp
  obtain r where r: "?q = r @ ?w" "r = [] \<or> ends_with r ''/''" "CHR ''/'' \<notin> set ?w" using last_segment_split by blast
  have "take (length ?q - length ?w) ?q = r" using r(1) by (metis append_eq_conv_conj diff_add_inverse2 length_append)
  then have d: "d = (if r = [] then [] else if trimmed_path r = [] then ''/'' else trimmed_path r)"
    using assms q by (simp add: parent_path_def Let_def)
  have "path_components p = path_components ?q" using components_trimmed [OF q(2)] q(1) by simp
  also have "\<dots> = path_components d @ [segment_component ?w]"
  proof (cases "r = []")
    case True
    then show ?thesis using r w d components_one [of ?w] by (simp add: path_components_def starts_with_def)
  next
    case False
    then obtain s where s: "r = s @ ''/''" using r(2) by (auto simp: ends_with_iff)
    have "?w \<noteq> ''.''" using trimmed_no_dot [of p] r(1) s by (auto simp: ends_with_iff)
    moreover have "?q = s @ CHR ''/'' # ?w" using r(1) s by (metis append.assoc append_Cons append_Nil)
    moreover have "path_components r = path_components d" using components_trimmed [OF False] False d by simp
    ultimately show ?thesis using components_last [of ?w s] w r(3) s by metis
  qed
  finally show ?thesis
    by (intro exI [of _ "segment_component ?w"]) (use w in \<open>auto simp: segment_component_def path_name_def Let_def split: if_splits\<close>)
qed

definition lies_in :: "string \<Rightarrow> string \<Rightarrow> bool" where
  "lies_in p dir \<longleftrightarrow> (\<exists>below. path_components p = path_components dir @ below)"

lemma nearest_manifest_owner:
  "nearest_package_manifest w dir project = Some (owner, m) \<Longrightarrow>
   package_manifest_at w (join_raw owner ''package.json'') = Some m \<and>
   (\<exists>below. path_components dir = path_components owner @ below \<and> Normal ''node_modules'' \<notin> set below) \<and>
   (lies_in dir project \<longrightarrow> lies_in owner project)"
proof (induction w dir project rule: nearest_package_manifest.induct)
  case (1 w dir project)
  show ?case
  proof (cases "package_manifest_at w (join_raw dir ''package.json'')")
    case (Some m')
    then show ?thesis using "1.prems" by (subst (asm) nearest_package_manifest.simps) auto
  next
    case None
    then obtain d where d: "path_name dir \<noteq> Some ''node_modules''" "path_components dir \<noteq> path_components project"
        "parent_path dir = Some d" "nearest_package_manifest w d project = Some (owner, m)"
      using "1.prems" by (subst (asm) nearest_package_manifest.simps) (auto split: if_splits option.splits)
    obtain c where c: "path_components dir = path_components d @ [c]" "\<forall>w. c = Normal w \<longrightarrow> path_name dir = Some w"
      using parent_components [OF d(3)] by blast
    have "lies_in d project" if inside: "lies_in dir project"
    proof -
      obtain below where below: "path_components dir = path_components project @ below" using inside by (auto simp: lies_in_def)
      then have "below \<noteq> []" using d(2) by auto
      then show ?thesis using below c(1) by (cases below rule: rev_cases) (auto simp: lies_in_def)
    qed
    then show ?thesis using "1.IH" [OF None d(1,2,3,4)] c d(1) by fastforce
  qed
qed

section \<open>The properties\<close>

lemma rank_determines_pattern:
  assumes "pattern_names pat b s a key" "pattern_names pat' b' s' a' key" "length b = length b'" "length a = length a'"
  shows "pat' = pat \<and> s' = s"
proof -
  have "b @ s @ a = b' @ s' @ a'" using assms(1,2) by (simp add: pattern_names_def)
  then have "b = b'" "s @ a = s' @ a'" using assms(3) by auto
  moreover from this(2) have "s = s'" "a = a'" using assms(4) by auto
  ultimately show ?thesis using assms(1,2) by (simp add: pattern_names_def)
qed


definition feature_exports :: "(string \<times> package_json) list" where
  "feature_exports =
     [(''./features/*'', JString ''./src/*.js''), (''./features/private/*'', JNull),
      (''./features/*.css'', JObject [(''require'', JString ''./old/*.css''), (''import'', JString ''./style/*.css'')])]"

lemma pattern_cut: "pattern_names pat b s a key \<Longrightarrow> split_once (CHR ''*'') pat = Some (b, a)"
  by (simp add: pattern_names_def split_once_first)

lemma feature_patterns:
  assumes "(pat, v) \<in> set feature_exports" "pattern_names pat b s a key"
  shows "(b, a) \<in> {(''./features/'', []), (''./features/private/'', []), (''./features/'', ''.css'')}"
  using assms(1) pattern_cut [OF assms(2)] by (auto simp: feature_exports_def split_once_def)


lemma conditions_without: "c \<notin> set cs \<Longrightarrow> resolve_conditions t w cs (filter (\<lambda>(c', _). c' \<noteq> c) m) = resolve_conditions t w cs m"
  by (induction m) (auto split: export_targets.splits)

lemma conditions_gone: "resolve_conditions t w [c] (filter (\<lambda>(c', _). c' \<noteq> c) m) = Unmatched"
  by (induction m) auto

text \<open>A build for \<open>require\<close> is a fallback and nothing else: wherever the author wrote it, when the other
  conditions of the object answer, its entries change nothing, not even a refusal; and an edge bundle never takes
  one.\<close>

theorem require_is_a_fallback:
  assumes "resolve_exports_value t w (JObject (filter (\<lambda>(c, _). c \<noteq> ''require'') m)) \<noteq> Unmatched \<or> t = Edge_Target"
  shows "resolve_exports_value t w (JObject m) = resolve_exports_value t w (JObject (filter (\<lambda>(c, _). c \<noteq> ''require'') m))"
proof -
  have "''require'' \<notin> set (preferred_conditions t)"
    by (cases t) (auto simp: preferred_conditions_def)
  then have preferred: "resolve_conditions t w (preferred_conditions t) (filter (\<lambda>(c, _). c \<noteq> ''require'') m) =
      resolve_conditions t w (preferred_conditions t) m"
    by (rule conditions_without)
  have none: "resolve_conditions t w [] m = Unmatched" for m by (induction m) auto
  show ?thesis
    using assms preferred conditions_gone [of t w "''require''" m] none
    by (cases t) (auto simp: fallback_conditions_def split: export_targets.splits)
qed

theorem require_is_a_fallback_witness:
  "resolve_exports_value Ssr_Target None
     (JObject [(''require'', JString ''./cjs.js''), (''import'', JString ''./esm.mjs'')]) = Targets [''./esm.mjs''] \<and>
   resolve_exports_value Ssr_Target None (JObject [(''require'', JString ''./cjs.js'')]) = Targets [''./cjs.js'']"
proof -
  have "resolve_exports_value Ssr_Target None (JObject [(''import'', JString ''./esm.mjs'')]) = Targets [''./esm.mjs'']"
    by code_simp
  moreover have "resolve_exports_value Ssr_Target None (JObject [(''require'', JString ''./cjs.js'')]) = Targets [''./cjs.js'']"
    by code_simp
  ultimately show ?thesis
    using require_is_a_fallback [of Ssr_Target None "[(''require'', JString ''./cjs.js''), (''import'', JString ''./esm.mjs'')]"]
    by simp
qed

text \<open>C13. Whatever a manifest says, a resolved package file lies below the canonical directory of the package it
  was looked up in: a bare specifier's in a \<open>node_modules\<close> directory, a private or self reference's in the package
  that owns the importer, which is found without passing a \<open>node_modules\<close> directory and never above the project.\<close>

theorem package_answers_confined:
  "(resolve_node_modules_specifier w importer project spec t = Resolved p \<longrightarrow>
     (\<exists>name key a. package_name_and_export_key spec = Some (name, key) \<and>
        path_starts_with p (normalized_canonical_path (pw_files w) (join_raw (join_raw a ''node_modules'') name)))) \<and>
   (Resolved p \<in> {resolve_package_imports_specifier w importer project spec t, resolve_self_reference w importer project spec t} \<longrightarrow>
     (\<exists>owner m below. package_manifest_at w (join_raw owner ''package.json'') = Some m \<and>
        path_components importer = path_components owner @ below \<and> Normal ''node_modules'' \<notin> set below \<and>
        (lies_in importer project \<longrightarrow> lies_in owner project) \<and>
        path_starts_with p (normalized_canonical_path (pw_files w) owner)))"
proof (intro conjI impI)
  assume "resolve_node_modules_specifier w importer project spec t = Resolved p"
  then obtain name key where spec: "package_name_and_export_key spec = Some (name, key)"
      and walk: "walk_packages w t name key (node_modules_candidates importer project) = Resolved p"
    by (auto simp: resolve_node_modules_specifier_def split: option.splits)
  show "\<exists>name key a. package_name_and_export_key spec = Some (name, key) \<and>
      path_starts_with p (normalized_canonical_path (pw_files w) (join_raw (join_raw a ''node_modules'') name))"
    using walk_packages_within [OF walk] candidates_are_modules spec by blast
next
  assume "Resolved p \<in> {resolve_package_imports_specifier w importer project spec t, resolve_self_reference w importer project spec t}"
  then obtain owner m r where owner: "nearest_package_manifest w importer project = Some (owner, m)"
      and answer: "answer_targets (pw_files w) owner r = Resolved p"
    by (auto simp: resolve_package_imports_specifier_def resolve_self_reference_def
        split: option.splits package_json.splits)
  show "\<exists>owner m below. package_manifest_at w (join_raw owner ''package.json'') = Some m \<and>
        path_components importer = path_components owner @ below \<and> Normal ''node_modules'' \<notin> set below \<and>
        (lies_in importer project \<longrightarrow> lies_in owner project) \<and>
        path_starts_with p (normalized_canonical_path (pw_files w) owner)"
    using nearest_manifest_owner [OF owner] answer_targets_within [OF answer] by blast
qed

text \<open>A project with one package, whose manifest exports a directory.\<close>

definition shop_world :: package_world where
  "shop_world =
     \<lparr>pw_files = \<lparr>is_file = (\<lambda>p. p \<in> {''/shop/node_modules/ui/dist/tab.js'', ''/shop/db.js''}), path_exists = (\<lambda>_. True), canonicalize = Some\<rparr>,
      pw_read = (\<lambda>p. if p \<in> {''/shop/node_modules/ui/package.json'', ''/shop/package.json''} then Some p else None),
      pw_json = (\<lambda>s. Some (if s = ''/shop/package.json'' then JObject [(''imports'', JObject [(''#db'', JString ''./db.js'')])]
        else JObject [(''exports'', JObject [(''./*'', JString ''./dist/*.js'')])]))\<rparr>"

theorem package_answers_confined_witness:
  "path_starts_with ''/shop/node_modules/ui/dist/tab.js'' ''/shop/node_modules/ui'' \<and>
   (\<exists>owner m below. package_manifest_at shop_world (join_raw owner ''package.json'') = Some m \<and>
        path_components ''/shop/lib'' = path_components owner @ below \<and> Normal ''node_modules'' \<notin> set below)"
proof -
  have bare: "resolve_node_modules_specifier shop_world ''/shop/lib'' ''/shop'' ''ui/tab'' Client_Target =
      Resolved ''/shop/node_modules/ui/dist/tab.js''"
    by code_simp
  have own: "resolve_package_imports_specifier shop_world ''/shop/lib'' ''/shop'' ''#db'' Client_Target = Resolved ''/shop/db.js''"
    by code_simp
  have "\<exists>name key a. package_name_and_export_key ''ui/tab'' = Some (name, key) \<and>
      path_starts_with ''/shop/node_modules/ui/dist/tab.js''
        (normalized_canonical_path (pw_files shop_world) (join_raw (join_raw a ''node_modules'') name))"
    using package_answers_confined bare by blast
  moreover have "path_starts_with ''/shop/node_modules/ui/dist/tab.js'' ''/shop/node_modules/ui''" by code_simp
  moreover have "\<exists>owner m below. package_manifest_at shop_world (join_raw owner ''package.json'') = Some m \<and>
        path_components ''/shop/lib'' = path_components owner @ below \<and> Normal ''node_modules'' \<notin> set below"
    using package_answers_confined [of shop_world "''/shop/lib''" "''/shop''" "''#db''" Client_Target "''/shop/db.js''"] own
    by auto
  ultimately show ?thesis by blast
qed

end
