(* ===== verification/Jsonc.thy ===== *)
theory Jsonc
  imports Prelude
begin

text \<open>
  JSON with comments and trailing commas (\<open>strip_json_comments\<close> and \<open>strip_trailing_commas\<close> of \<open>resolver.rs\<close>),
  rewritten to JSON before a configuration file is parsed. The loops are written over the bytes of the text: every
  character they look for is ASCII. White space is ASCII white space, the only one JSON allows.
\<close>

section \<open>The two passes\<close>

text \<open>The rest of a line comment and of a block comment: what is written for it, and the text after it.\<close>

fun skip_line :: "string \<Rightarrow> string \<times> string" where
  "skip_line [] = ([], [])"
| "skip_line (c # cs) = (if c = CHR ''\<newline>'' then ([c], cs) else skip_line cs)"

fun skip_block :: "char \<Rightarrow> string \<Rightarrow> string \<times> string" where
  "skip_block previous [] = ([], [])"
| "skip_block previous (c # cs) =
     (if previous = CHR ''*'' \<and> c = CHR ''/'' then ([], cs)
      else (let (out, r) = skip_block c cs in (if c = CHR ''\<newline>'' then c # out else out, r)))"

lemma skip_line_length: "length (snd (skip_line s)) \<le> length s"
  by (induction s) auto

lemma skip_block_length: "length (snd (skip_block p s)) \<le> length s"
  by (induction p s rule: skip_block.induct) (auto simp: split_beta Let_def)

function strip_comments :: "bool \<Rightarrow> string \<Rightarrow> string" where
  "strip_comments in_string [] = []"
| "strip_comments True (c # cs) =
     (if c = CHR 0x5C then (case cs of [] \<Rightarrow> [c] | d # ds \<Rightarrow> c # d # strip_comments True ds)
      else c # strip_comments (c \<noteq> CHR 0x22) cs)"
| "strip_comments False (c # cs) =
     (if c = CHR 0x22 then c # strip_comments True cs
      else if c = CHR ''/'' \<and> starts_with cs ''/'' then
        (let (out, r) = skip_line cs in out @ strip_comments False r)
      else if c = CHR ''/'' \<and> starts_with cs ''*'' then
        (let (out, r) = skip_block (CHR 0x00) (tl cs) in out @ strip_comments False r)
      else c # strip_comments False cs)"
  by pat_completeness auto
termination
proof (relation "measure (length \<circ> snd)", goal_cases)
  case (5 c cs x out r)
  then have "r = snd (skip_line cs)" by (metis snd_conv)
  then show ?case using skip_line_length [of cs] by simp
next
  case (6 c cs x out r)
  then have "r = snd (skip_block (CHR 0x00) (tl cs))" by (metis snd_conv)
  then show ?case using skip_block_length [of "CHR 0x00" "tl cs"] 6(1) by (cases cs) (auto simp: starts_with_def)
qed auto

text \<open>The comma pass: the output, whether inside a string, and the index in the output of a comma with only white
  space after it.\<close>

fun strip_commas :: "string \<Rightarrow> bool \<Rightarrow> nat option \<Rightarrow> string \<Rightarrow> string" where
  "strip_commas out in_string pending [] = out"
| "strip_commas out in_string pending (c # cs) =
     (if in_string then
        (if c = CHR 0x5C then (case cs of [] \<Rightarrow> out @ [c] | d # ds \<Rightarrow> strip_commas (out @ [c, d]) True pending ds)
         else strip_commas (out @ [c]) (c \<noteq> CHR 0x22) pending cs)
      else if c = CHR 0x22 then strip_commas (out @ [c]) True None cs
      else if c = CHR '','' then strip_commas (out @ [c]) False (Some (length out)) cs
      else if c = CHR '']'' \<or> c = CHR ''}'' then
        strip_commas ((case pending of None \<Rightarrow> out | Some i \<Rightarrow> take i out @ drop (i + 1) out) @ [c]) False None cs
      else strip_commas (out @ [c]) False (if is_space c then pending else None) cs)"

definition strip_trailing_commas :: "string \<Rightarrow> string" where
  "strip_trailing_commas s = strip_commas [] False None s"

definition strip_json_comments :: "string \<Rightarrow> string" where
  "strip_json_comments s = strip_trailing_commas (strip_comments False s)"

section \<open>What they are meant to do\<close>

text \<open>A text with comments, as pieces: text with neither quote nor slash, strings, and comments. A string body is
  made of plain characters and escapes.\<close>

datatype jsonc_piece = Plain string | Quoted string | Line_Comment string | Block_Comment string

fun string_body :: "string \<Rightarrow> bool" where
  "string_body [] = True"
| "string_body (c # cs) =
     (if c = CHR 0x5C then (case cs of [] \<Rightarrow> False | d # ds \<Rightarrow> string_body ds) else c \<noteq> CHR 0x22 \<and> string_body cs)"

fun piece_ok :: "jsonc_piece \<Rightarrow> bool" where
  "piece_ok (Plain s) = (CHR 0x22 \<notin> set s \<and> CHR ''/'' \<notin> set s)"
| "piece_ok (Quoted s) = string_body s"
| "piece_ok (Line_Comment s) = (CHR ''\<newline>'' \<notin> set s)"
| "piece_ok (Block_Comment s) = (\<not> contains_str (s @ ''*'') ''*/'')"

fun piece_text :: "jsonc_piece \<Rightarrow> string" where
  "piece_text (Plain s) = s"
| "piece_text (Quoted s) = [CHR 0x22] @ s @ [CHR 0x22]"
| "piece_text (Line_Comment s) = ''//'' @ s @ ''\<newline>''"
| "piece_text (Block_Comment s) = ''/*'' @ s @ ''*/''"

fun piece_kept :: "jsonc_piece \<Rightarrow> string" where
  "piece_kept (Plain s) = s"
| "piece_kept (Quoted s) = [CHR 0x22] @ s @ [CHR 0x22]"
| "piece_kept (Line_Comment s) = ''\<newline>''"
| "piece_kept (Block_Comment s) = filter (\<lambda>c. c = CHR ''\<newline>'') s"

text \<open>A trailing comma is one outside a string that a closing bracket follows, white space aside.\<close>

definition closes :: "string \<Rightarrow> bool" where
  "closes s = (case dropWhile is_space s of [] \<Rightarrow> False | c # _ \<Rightarrow> c = CHR '']'' \<or> c = CHR ''}'')"

fun without_trailing :: "bool \<Rightarrow> string \<Rightarrow> string" where
  "without_trailing in_string [] = []"
| "without_trailing True (c # cs) =
     (if c = CHR 0x5C then (case cs of [] \<Rightarrow> [c] | d # ds \<Rightarrow> c # d # without_trailing True ds)
      else c # without_trailing (c \<noteq> CHR 0x22) cs)"
| "without_trailing False (c # cs) =
     (if c = CHR 0x22 then c # without_trailing True cs
      else if c = CHR '','' \<and> closes cs then without_trailing False cs
      else c # without_trailing False cs)"

section \<open>The comma pass is the lookahead\<close>

lemma closes_simps:
  "closes [] = False"
  "is_space c \<Longrightarrow> closes (c # cs) = closes cs"
  "\<not> is_space c \<Longrightarrow> closes (c # cs) = (c = CHR '']'' \<or> c = CHR ''}'')"
  by (simp_all add: closes_def)

lemma no_space: "\<not> is_space (CHR 0x22)" "\<not> is_space (CHR '','')" "\<not> is_space (CHR '']'')" "\<not> is_space (CHR ''}'')"
  by (simp_all add: is_space_def byte_def)

text \<open>A pending comma is removed exactly when what follows closes.\<close>

definition settled_output :: "string \<Rightarrow> nat option \<Rightarrow> string \<Rightarrow> string" where
  "settled_output out pending cs =
     (case pending of Some i \<Rightarrow> if closes cs then take i out @ drop (i + 1) out else out | None \<Rightarrow> out)"

lemma strip_commas_lookahead:
  "(in_string \<longrightarrow> pending = None) \<Longrightarrow> (\<forall>i. pending = Some i \<longrightarrow> i < length out) \<Longrightarrow>
   strip_commas out in_string pending cs =
     (if in_string then out else settled_output out pending cs) @ without_trailing in_string cs"
proof (induction out in_string pending cs rule: strip_commas.induct)
  case (1 out in_string pending)
  then show ?case by (auto simp: settled_output_def closes_simps split: option.splits)
next
  case (2 out in_string pending c cs)
  show ?case
  proof (cases in_string)
    case True
    then show ?thesis using 2
      by (auto simp: settled_output_def split: list.splits)
  next
    case False
    consider "c = CHR 0x22" | "c = CHR '',''" | "c = CHR '']'' \<or> c = CHR ''}''"
      | "c \<notin> {CHR 0x22, CHR '','', CHR '']'', CHR ''}''}" by blast
    then show ?thesis
    proof cases
      case 1
      then show ?thesis using False 2 no_space by (simp add: settled_output_def closes_simps split: option.splits)
    next
      case 2
      then show ?thesis using False "2.IH"(4) "2.prems" no_space
        by (auto simp: settled_output_def closes_simps split: option.splits)
    next
      case 3
      then show ?thesis using False "2.IH"(5) "2.prems" no_space
        by (auto simp: settled_output_def closes_simps split: option.splits)
    next
      case 4
      then show ?thesis using False "2.IH"(6) "2.prems"
        by (auto simp: settled_output_def closes_simps split: option.splits)
    qed
  qed
qed

section \<open>The comment pass\<close>

lemma strip_plain: "CHR 0x22 \<notin> set s \<Longrightarrow> CHR ''/'' \<notin> set s \<Longrightarrow> strip_comments False (s @ t) = s @ strip_comments False t"
  by (induction s) auto

lemma strip_string: "string_body s \<Longrightarrow> strip_comments True (s @ CHR 0x22 # t) = s @ CHR 0x22 # strip_comments False t"
proof (induction s rule: length_induct)
  case (1 s)
  show ?case
  proof (cases s)
    case (Cons c cs)
    show ?thesis
    proof (cases "c = CHR 0x5C")
      case True
      then obtain d ds where "cs = d # ds" "string_body ds" using 1(2) Cons by (auto split: list.splits)
      then show ?thesis using 1(1) Cons True by simp
    next
      case False
      then show ?thesis using 1 Cons by (auto split: if_splits)
    qed
  qed simp
qed

lemma skip_line_ends: "CHR ''\<newline>'' \<notin> set s \<Longrightarrow> skip_line (s @ CHR ''\<newline>'' # t) = (''\<newline>'', t)"
  by (induction s) auto

lemma block_step: "\<not> contains_str (p # c # s) ''*/'' \<Longrightarrow> \<not> (p = CHR ''*'' \<and> c = CHR ''/'') \<and> \<not> contains_str (c # s) ''*/''"
  by (auto simp: starts_with_def)

lemma skip_block_ends:
  "\<not> contains_str (p # s @ ''*'') ''*/'' \<Longrightarrow> skip_block p (s @ ''*/'' @ t) = (filter (\<lambda>c. c = CHR ''\<newline>'') s, t)"
proof (induction s arbitrary: p)
  case (Cons c s)
  have "\<not> (p = CHR ''*'' \<and> c = CHR ''/'')" "\<not> contains_str (c # s @ ''*'') ''*/''"
    using block_step [of p c "s @ ''*''"] Cons.prems by auto
  then show ?case using Cons.IH [of c] by auto
qed simp

lemma strip_piece: "piece_ok p \<Longrightarrow> strip_comments False (piece_text p @ t) = piece_kept p @ strip_comments False t"
proof (cases p)
  case (Plain s)
  moreover assume "piece_ok p"
  ultimately show ?thesis by (simp add: strip_plain)
next
  case (Quoted s)
  moreover assume "piece_ok p"
  ultimately show ?thesis using strip_string [of s t] by simp
next
  case (Line_Comment s)
  moreover assume "piece_ok p"
  ultimately have "skip_line (CHR ''/'' # s @ CHR ''\<newline>'' # t) = (''\<newline>'', t)"
    using skip_line_ends [of "CHR ''/'' # s" t] by simp
  with Line_Comment show ?thesis by (simp add: starts_with_def)
next
  case (Block_Comment s)
  moreover assume "piece_ok p"
  ultimately have "\<not> contains_str (CHR 0x00 # s @ ''*'') ''*/''" by (simp add: starts_with_def)
  then have "skip_block (CHR 0x00) (s @ ''*/'' @ t) = (filter (\<lambda>c. c = CHR ''\<newline>'') s, t)" by (rule skip_block_ends)
  with Block_Comment show ?thesis by (simp add: starts_with_def)
qed

section \<open>The properties\<close>

text \<open>C18. Rewriting a commented configuration keeps exactly its JSON: a text made of plain parts, strings and
  comments becomes the same text with every comment replaced by its newlines and without the commas that a
  closing bracket follows outside a string. Comment marks, commas and brackets inside strings are text.\<close>

theorem comments_and_commas_only:
  assumes "list_all piece_ok ps"
  shows "strip_json_comments (concat (map piece_text ps)) = without_trailing False (concat (map piece_kept ps))"
proof -
  have "strip_comments False (concat (map piece_text ps)) = concat (map piece_kept ps)"
    using assms by (induction ps) (auto simp: strip_piece)
  then show ?thesis
    using strip_commas_lookahead [of False None "[]"]
    by (simp add: strip_json_comments_def strip_trailing_commas_def settled_output_def)
qed

theorem comments_and_commas_only_witness:
  "strip_json_comments (concat (map piece_text
      [Plain ''{'', Quoted ''a,]//'', Plain '': [1 ,'', Line_Comment '' last, '', Plain ''],'', Block_Comment ''/ * \<newline>'', Plain ''}''])) =
    ''{'' @ [CHR 0x22] @ ''a,]//'' @ [CHR 0x22] @ '': [1 \<newline>]\<newline>}''"
proof -
  have "list_all piece_ok
      [Plain ''{'', Quoted ''a,]//'', Plain '': [1 ,'', Line_Comment '' last, '', Plain ''],'', Block_Comment ''/ * \<newline>'', Plain ''}'']"
    by code_simp
  note comments_and_commas_only [OF this]
  also have "without_trailing False (concat (map piece_kept
      [Plain ''{'', Quoted ''a,]//'', Plain '': [1 ,'', Line_Comment '' last, '', Plain ''],'', Block_Comment ''/ * \<newline>'', Plain ''}''])) =
    ''{'' @ [CHR 0x22] @ ''a,]//'' @ [CHR 0x22] @ '': [1 \<newline>]\<newline>}''"
    by code_simp
  finally show ?thesis .
qed

lemma newlines_skip_line: "filter (\<lambda>c. c = CHR ''\<newline>'') (fst (skip_line s) @ snd (skip_line s)) = filter (\<lambda>c. c = CHR ''\<newline>'') s"
  by (induction s) auto

lemma newlines_skip_block:
  "filter (\<lambda>c. c = CHR ''\<newline>'') (fst (skip_block p s) @ snd (skip_block p s)) = filter (\<lambda>c. c = CHR ''\<newline>'') s"
  by (induction p s rule: skip_block.induct) (auto simp: split_beta Let_def)

abbreviation newline_chars :: "string \<Rightarrow> string" where
  "newline_chars \<equiv> filter (\<lambda>c. c = CHR ''\<newline>'')"

lemma newlines_comments: "newline_chars (strip_comments b s) = newline_chars s"
proof (induction b s rule: strip_comments.induct)
  case (2 c cs)
  show ?case
  proof (cases "c = CHR 0x5C")
    case True
    then show ?thesis using "2.IH"(1) by (cases cs) simp_all
  next
    case False
    then have "strip_comments True (c # cs) = c # strip_comments (c \<noteq> CHR 0x22) cs" by simp
    then show ?thesis using "2.IH"(2) [OF False] by (simp only: filter.simps)
  qed
next
  case (3 c cs)
  consider "c = CHR 0x22" | "c = CHR ''/''" "starts_with cs ''/''" | "c = CHR ''/''" "starts_with cs ''*''"
    | "c \<noteq> CHR 0x22" "\<not> (c = CHR ''/'' \<and> starts_with cs ''/'')" "\<not> (c = CHR ''/'' \<and> starts_with cs ''*'')" by blast
  then show ?case
  proof cases
    case 1
    then show ?thesis using "3.IH"(1) by simp
  next
    case 2
    then have strip: "strip_comments False (c # cs) = fst (skip_line cs) @ strip_comments False (snd (skip_line cs))"
      by (simp add: split_beta Let_def)
    have "newline_chars (strip_comments False (snd (skip_line cs))) = newline_chars (snd (skip_line cs))"
      using "3.IH"(2) [of "skip_line cs" "fst (skip_line cs)" "snd (skip_line cs)"] 2 by simp
    then have "newline_chars (strip_comments False (c # cs)) = newline_chars (fst (skip_line cs) @ snd (skip_line cs))"
      unfolding strip by simp
    also have "\<dots> = newline_chars (c # cs)" unfolding newlines_skip_line using 2 by simp
    finally show ?thesis .
  next
    case 3
    let ?b = "skip_block (CHR 0x00) (tl cs)"
    have other: "\<not> starts_with cs ''/''" using 3 by (auto simp: starts_with_def)
    then have strip: "strip_comments False (c # cs) = fst ?b @ strip_comments False (snd ?b)"
      using 3 by (simp add: split_beta Let_def)
    have "newline_chars (strip_comments False (snd ?b)) = newline_chars (snd ?b)"
      using "3.IH"(3) [of ?b "fst ?b" "snd ?b"] 3 other by simp
    then have "newline_chars (strip_comments False (c # cs)) = newline_chars (fst ?b @ snd ?b)"
      unfolding strip by simp
    also have "\<dots> = newline_chars (tl cs)" by (rule newlines_skip_block)
    also have "\<dots> = newline_chars (c # cs)" using 3 by (cases cs) (auto simp: starts_with_def)
    finally show ?thesis .
  next
    case 4
    then have step: "strip_comments False (c # cs) = c # strip_comments False cs" by auto
    show ?thesis unfolding step using "3.IH"(4) 4 by auto
  qed
qed simp

lemma newlines_trailing: "newline_chars (without_trailing b s) = newline_chars s"
proof (induction b s rule: without_trailing.induct)
  case (2 c cs)
  show ?case
  proof (cases "c = CHR 0x5C")
    case True
    then show ?thesis using "2.IH"(1) by (cases cs) simp_all
  next
    case False
    then have "without_trailing True (c # cs) = c # without_trailing (c \<noteq> CHR 0x22) cs" by simp
    then show ?thesis using "2.IH"(2) [OF False] by (simp only: filter.simps)
  qed
next
  case (3 c cs)
  then show ?case by (cases "c = CHR 0x22"; cases "c = CHR '','' \<and> closes cs") auto
qed simp

text \<open>A parse error points at the line the user wrote: the rewritten text has as many newlines as the
  text, whatever the text is, comments and strings left open included.\<close>

theorem line_count_kept:
  "filter (\<lambda>c. c = CHR ''\<newline>'') (strip_json_comments s) = filter (\<lambda>c. c = CHR ''\<newline>'') s"
  using strip_commas_lookahead [of False None "[]" "strip_comments False s"]
  by (simp add: strip_json_comments_def strip_trailing_commas_def settled_output_def newlines_trailing newlines_comments)

end
