(* ===== verification/Ts_Config.thy ===== *)
theory Ts_Config
  imports Package_Exports Jsonc
begin

text \<open>
  Path aliases of a \<open>tsconfig.json\<close> (\<open>resolver.rs\<close>): the chain of configurations a project extends, the order of
  alias patterns and the resolution of a specifier through \<open>paths\<close> and \<open>baseUrl\<close>.

  The file system and the JSON parser are parameters; JSON values are those of \<open>Package_Exports\<close>, an object being
  the list of its members in the order of the parser's map.
\<close>

section \<open>The model of a configuration\<close>

record tsconfig_paths =
  tc_config_dir :: string
  tc_base_url :: "string option"
  tc_paths :: "(string \<times> string list) list"
  tc_path_bases :: "string list"
  tc_config_files :: "component list set"
  tc_project_root :: string

datatype tsconfig_problem =
    Cyclic_Extends string
  | Cannot_Read string
  | Cannot_Parse string string
  | Cannot_Resolve string string

record tsconfig_world =
  tw_files :: asset_files
  tw_is_dir :: "string \<Rightarrow> bool"
  tw_read :: "string \<Rightarrow> string option"
  tw_json :: "string \<Rightarrow> string + package_json"

definition parse_jsonc :: "tsconfig_world \<Rightarrow> string \<Rightarrow> string + package_json" where
  "parse_jsonc w content = tw_json w (strip_json_comments content)"

text \<open>\<open>Value::get\<close>, \<open>as_str\<close> and \<open>as_array\<close>.\<close>

definition json_get :: "package_json \<Rightarrow> string \<Rightarrow> package_json option" where
  "json_get v k = (case v of JObject m \<Rightarrow> map_of m k | _ \<Rightarrow> None)"

definition json_str :: "package_json \<Rightarrow> string option" where
  "json_str v = (case v of JString s \<Rightarrow> Some s | _ \<Rightarrow> None)"

definition json_items :: "package_json \<Rightarrow> package_json list" where
  "json_items v = (case v of JArray vs \<Rightarrow> vs | _ \<Rightarrow> [])"

definition empty_tsconfig :: "string \<Rightarrow> tsconfig_paths" where
  "empty_tsconfig project_root =
     \<lparr>tc_config_dir = project_root, tc_base_url = None, tc_paths = [], tc_path_bases = [], tc_config_files = {},
      tc_project_root = project_root\<rparr>"

section \<open>The chain of configurations\<close>

definition config_file_candidate :: "tsconfig_world \<Rightarrow> string \<Rightarrow> string option" where
  "config_file_candidate w p =
     List.find (is_file (tw_files w)) [p, replace_extension p ''json'', join_raw p ''tsconfig.json'']"

definition package_config :: "tsconfig_world \<Rightarrow> string \<Rightarrow> string option" where
  "package_config w package =
     option_or (config_file_candidate w package)
       (if tw_is_dir w package then
          (case Option.bind (tw_read w (join_raw package ''package.json'')) (\<lambda>s. case tw_json w s of Inl _ \<Rightarrow> None | Inr v \<Rightarrow> Some v) of
             None \<Rightarrow> None
           | Some v \<Rightarrow>
               config_file_candidate w (join_raw package
                 (case Option.bind (json_get v ''tsconfig'') json_str of Some e \<Rightarrow> e | None \<Rightarrow> ''tsconfig.json'')))
        else None)"

definition resolve_extends_config :: "tsconfig_world \<Rightarrow> string \<Rightarrow> string \<Rightarrow> string option" where
  "resolve_extends_config w specifier config_dir =
     (if starts_with specifier ''/'' \<or> starts_with specifier ''.'' then config_file_candidate w (join_raw config_dir specifier)
      else find_map (\<lambda>dir. package_config w (join_raw (join_raw dir ''node_modules'') specifier)) (path_ancestors config_dir))"

definition declared_paths :: "package_json \<Rightarrow> string \<Rightarrow> tsconfig_paths \<Rightarrow> tsconfig_paths" where
  "declared_paths options config_dir c =
     (case json_get options ''paths'' of
        Some (JObject m) \<Rightarrow>
          c\<lparr>tc_paths := map (\<lambda>(pat, ts). (pat, List.map_filter json_str (json_items ts))) m,
            tc_path_bases := replicate (length m) (case tc_base_url c of Some b \<Rightarrow> b | None \<Rightarrow> config_dir)\<rparr>
      | _ \<Rightarrow> c)"

definition declared_base :: "package_json \<Rightarrow> string \<Rightarrow> tsconfig_paths \<Rightarrow> tsconfig_paths" where
  "declared_base options config_dir c =
     (case Option.bind (json_get options ''baseUrl'') json_str of
        Some b \<Rightarrow> c\<lparr>tc_base_url := Some (join_raw config_dir b)\<rparr>
      | None \<Rightarrow> c)"

text \<open>What a configuration adds to the one it extends.\<close>

definition declare_config :: "package_json \<Rightarrow> string \<Rightarrow> string \<Rightarrow> string \<Rightarrow> tsconfig_paths \<Rightarrow> tsconfig_paths" where
  "declare_config v config_path config_dir project_root parent =
     (let c = (case json_get v ''compilerOptions'' of
                 None \<Rightarrow> parent
               | Some options \<Rightarrow> declared_paths options config_dir (declared_base options config_dir parent)) in
      c\<lparr>tc_config_dir := config_dir, tc_project_root := project_root,
        tc_config_files := insert (path_components config_path) (tc_config_files c)\<rparr>)"

definition cycle_key :: "tsconfig_world \<Rightarrow> string \<Rightarrow> component list" where
  "cycle_key w p = path_components (normalized_canonical_path (tw_files w) p)"

definition config_dir_of :: "string \<Rightarrow> string \<Rightarrow> string" where
  "config_dir_of config_path project_root = (case parent_path config_path of Some d \<Rightarrow> d | None \<Rightarrow> project_root)"

text \<open>The set of files being visited is the same after a call as before it, so it is only passed down. \<open>None\<close> is a
  chain that does not end.\<close>

partial_function (option) load_config_chain ::
  "tsconfig_world \<Rightarrow> string \<Rightarrow> string \<Rightarrow> component list set \<Rightarrow> (tsconfig_paths \<times> tsconfig_problem option) option" where
  "load_config_chain w config_path project_root visiting =
     (if cycle_key w config_path \<in> visiting then Some (empty_tsconfig project_root, Some (Cyclic_Extends config_path))
      else
        (case tw_read w config_path of
           None \<Rightarrow> Some (empty_tsconfig project_root, Some (Cannot_Read config_path))
         | Some content \<Rightarrow>
             (case parse_jsonc w content of
                Inl message \<Rightarrow> Some (empty_tsconfig project_root, Some (Cannot_Parse config_path message))
              | Inr v \<Rightarrow>
                  (let config_dir = config_dir_of config_path project_root;
                       extended = Option.bind (json_get v ''extends'') json_str in
                   Option.bind
                     (case extended of
                        None \<Rightarrow> Some (empty_tsconfig project_root, None)
                      | Some specifier \<Rightarrow>
                          (case resolve_extends_config w specifier config_dir of
                             None \<Rightarrow> Some (empty_tsconfig project_root, Some (Cannot_Resolve config_path specifier))
                           | Some parent \<Rightarrow>
                               load_config_chain w parent project_root (insert (cycle_key w config_path) visiting)))
                     (\<lambda>(parent, problem).
                        Some (declare_config v config_path config_dir project_root parent, problem))))))"

declare load_config_chain.simps [code]

definition default_tsconfig :: tsconfig_paths where
  "default_tsconfig = empty_tsconfig []"

definition usable_config :: "tsconfig_paths \<times> tsconfig_problem option \<Rightarrow> bool" where
  "usable_config r = (tc_paths (fst r) \<noteq> [] \<or> tc_base_url (fst r) \<noteq> None \<or> snd r = None)"

fun load_first :: "tsconfig_world \<Rightarrow> string \<Rightarrow> tsconfig_problem option \<Rightarrow> string list \<Rightarrow> (tsconfig_paths \<times> tsconfig_problem option) option" where
  "load_first w project_root problem [] = Some (default_tsconfig, problem)"
| "load_first w project_root problem (p # ps) =
     (if \<not> is_file (tw_files w) p then load_first w project_root problem ps
      else Option.bind (load_config_chain w p project_root {})
             (\<lambda>r. if usable_config r then Some r else load_first w project_root (snd r) ps))"

definition load_reporting :: "tsconfig_world \<Rightarrow> string \<Rightarrow> (tsconfig_paths \<times> tsconfig_problem option) option" where
  "load_reporting w project_root =
     load_first w project_root None [join_raw project_root ''tsconfig.json'', join_raw project_root ''jsconfig.json'']"

section \<open>Aliases\<close>

definition star_index :: "string \<Rightarrow> nat option" where
  "star_index pat = (if CHR ''*'' \<in> set pat then Some (length (takeWhile (\<lambda>c. c \<noteq> CHR ''*'') pat)) else None)"

text \<open>The rank of a pattern: an exact one first, then the longest text before the star, then after it.\<close>

definition alias_rank :: "string \<Rightarrow> nat \<times> nat \<times> nat \<times> nat" where
  "alias_rank pat =
     (case star_index pat of
        None \<Rightarrow> (1, length pat, 0, length pat)
      | Some i \<Rightarrow> (0, i, length pat - (i + 1), length pat))"

text \<open>\<open>alias_pattern_order\<close> as a key: the greatest rank first, then the text of the pattern.\<close>

definition alias_pattern_order :: "string \<Rightarrow> (int \<times> int \<times> int \<times> int) \<times> string" where
  "alias_pattern_order pat =
     (let (e, i, s, n) = alias_rank pat in ((- int e, - int i, - int s, - int n), pat))"

definition strip_suffix :: "string \<Rightarrow> string \<Rightarrow> string option" where
  "strip_suffix s t = (if ends_with s t then Some (take (length s - length t) s) else None)"

definition match_alias_pattern :: "string \<Rightarrow> string \<Rightarrow> string option" where
  "match_alias_pattern pat specifier =
     (case split_once (CHR ''*'') pat of
        None \<Rightarrow> if pat = specifier then Some [] else None
      | Some (before, after) \<Rightarrow>
          (if CHR ''*'' \<in> set after then None
           else Option.bind (strip_prefix specifier before) (\<lambda>r. strip_suffix r after)))"

definition replace_star :: "string \<Rightarrow> string \<Rightarrow> string" where
  "replace_star target star =
     (case split_once (CHR ''*'') target of None \<Rightarrow> target | Some (before, after) \<Rightarrow> before @ star @ after)"

definition is_reserved_alias_specifier :: "string \<Rightarrow> bool" where
  "is_reserved_alias_specifier s =
     (s \<in> {''react'', ''react-dom'', ''ruvyxa''} \<or> starts_with s ''react/'' \<or> starts_with s ''react-dom/'' \<or>
      starts_with s ''ruvyxa/'' \<or> starts_with s ''@ruvyxa/'')"

definition path_is_inside :: "asset_files \<Rightarrow> string \<Rightarrow> string \<Rightarrow> bool" where
  "path_is_inside fs p project_root =
     (project_root = [] \<or> path_starts_with (normalized_canonical_path fs p) (normalized_canonical_path fs project_root))"

definition alias_candidate :: "asset_files \<Rightarrow> tsconfig_paths \<Rightarrow> string \<Rightarrow> string option" where
  "alias_candidate fs c joined =
     Option.bind (resolve_file_candidate fs joined)
       (\<lambda>resolved. if path_is_inside fs resolved (tc_project_root c) then Some resolved else None)"

text \<open>The declarations in the order they are tried, each with the directory its targets start from.\<close>

definition alias_entries :: "tsconfig_paths \<Rightarrow> (string \<times> string list \<times> string) list" where
  "alias_entries c =
     sort_key (\<lambda>(pat, _). alias_pattern_order pat)
       (map (\<lambda>i. (fst (tc_paths c ! i), snd (tc_paths c ! i),
                  if i < length (tc_path_bases c) then tc_path_bases c ! i else tc_config_dir c))
         [0..<length (tc_paths c)])"

definition alias_answer :: "asset_files \<Rightarrow> tsconfig_paths \<Rightarrow> string \<Rightarrow> string \<times> string list \<times> string \<Rightarrow> string option" where
  "alias_answer fs c specifier = (\<lambda>(pat, targets, base).
     (case match_alias_pattern pat specifier of
        None \<Rightarrow> None
      | Some star \<Rightarrow> find_map (\<lambda>target. alias_candidate fs c (join_raw base (replace_star target star))) targets))"

definition resolve_alias :: "asset_files \<Rightarrow> tsconfig_paths \<Rightarrow> string \<Rightarrow> string option" where
  "resolve_alias fs c specifier =
     (if is_reserved_alias_specifier specifier then None
      else option_or (find_map (alias_answer fs c specifier) (alias_entries c))
             (if \<not> starts_with specifier ''.'' \<and> \<not> starts_with specifier ''/''
              then (case tc_base_url c of None \<Rightarrow> None | Some b \<Rightarrow> alias_candidate fs c (join_raw b specifier))
              else None))"

definition glob_target :: "string \<Rightarrow> string \<times> string list \<times> string \<Rightarrow> string option" where
  "glob_target pat = (\<lambda>(alias_pat, targets, base).
     (case (match_alias_pattern alias_pat pat, targets) of
        (Some star, target # _) \<Rightarrow> Some (join_raw base (replace_star target star))
      | _ \<Rightarrow> None))"

definition resolve_glob_pattern :: "tsconfig_paths \<Rightarrow> string \<Rightarrow> string option" where
  "resolve_glob_pattern c pat =
     (if is_reserved_alias_specifier pat then None
      else option_or (find_map (glob_target pat) (alias_entries c)) (map_option (\<lambda>b. join_raw b pat) (tc_base_url c)))"

section \<open>Loading ends\<close>

lemma find_is_file: "List.find P xs = Some x \<Longrightarrow> P x"
  by (auto simp: find_Some_iff)

lemma candidate_is_file: "config_file_candidate w p = Some q \<Longrightarrow> is_file (tw_files w) q"
  unfolding config_file_candidate_def by (rule find_is_file)

lemma package_config_is_file: "package_config w p = Some q \<Longrightarrow> is_file (tw_files w) q"
  by (auto simp: package_config_def option_or_def candidate_is_file split: option.splits if_splits)

lemma extended_is_file: "resolve_extends_config w s dir = Some q \<Longrightarrow> is_file (tw_files w) q"
  by (auto simp: resolve_extends_config_def candidate_is_file package_config_is_file dest!: find_map_within split: if_splits)

lemma chain_ends:
  assumes "finite (cycle_key w ` {p. is_file (tw_files w) p})"
  shows "is_file (tw_files w) p \<Longrightarrow> \<exists>r. load_config_chain w p project visiting = Some r"
proof (induction "card (cycle_key w ` {p. is_file (tw_files w) p} - visiting)" arbitrary: p visiting rule: less_induct)
  case less
  let ?K = "cycle_key w ` {p. is_file (tw_files w) p}"
  show ?case
  proof (cases "cycle_key w p \<in> visiting")
    case True
    then show ?thesis by (subst load_config_chain.simps) simp
  next
    case False
    have "cycle_key w p \<in> ?K" using less.prems by blast
    then have "card (?K - insert (cycle_key w p) visiting) < card (?K - visiting)"
      using False assms by (intro psubset_card_mono) auto
    then have extended: "\<exists>r. load_config_chain w q project (insert (cycle_key w p) visiting) = Some r"
      if "is_file (tw_files w) q" for q
      using less.hyps that by blast
    have "\<exists>r. load_config_chain w q project (insert (cycle_key w p) visiting) = Some r"
      if "resolve_extends_config w s dir = Some q" for s dir q
      using extended extended_is_file that by blast
    then show ?thesis
      by (subst load_config_chain.simps) (fastforce simp: Let_def split: option.split sum.split)
  qed
qed

lemma load_first_ends:
  assumes "finite (cycle_key w ` {p. is_file (tw_files w) p})"
  shows "\<exists>r. load_first w project problem ps = Some r"
proof (induction ps arbitrary: problem)
  case (Cons p ps)
  then show ?case using chain_ends [OF assms, of p project "{}"]
    by (cases "is_file (tw_files w) p") auto
qed simp

section \<open>What an alias answers\<close>

lemma alias_candidate_Some:
  "alias_candidate fs c joined = Some p \<Longrightarrow>
   path_is_inside fs p (tc_project_root c) \<and> (\<exists>q. is_file fs q \<and> p = normalized_canonical_path fs q)"
  by (auto simp: alias_candidate_def resolve_file_candidate_def find_Some_iff split: bind_splits if_splits)

lemma alias_answer_Some:
  "alias_answer fs c specifier e = Some p \<Longrightarrow>
   path_is_inside fs p (tc_project_root c) \<and> (\<exists>q. is_file fs q \<and> p = normalized_canonical_path fs q)"
  by (auto simp: alias_answer_def dest!: find_map_within alias_candidate_Some split: option.splits prod.splits)

lemma order_of_rank: "alias_rank a < alias_rank b \<Longrightarrow> alias_pattern_order b < alias_pattern_order a"
  by (auto simp: alias_pattern_order_def split: prod.splits)

lemma find_map_sorted:
  assumes "x \<in> set xs" "f x = Some p" and best: "\<And>y. y \<in> set xs \<Longrightarrow> f y \<noteq> None \<Longrightarrow> y = x \<or> g x < g y"
  shows "find_map f (sort_key g xs) = Some p"
proof -
  obtain q where q: "find_map f (sort_key g xs) = Some q"
    using assms(1,2) by (cases "find_map f (sort_key g xs)") auto
  then obtain as y bs where split: "sort_key g xs = as @ y # bs" "f y = Some q" "\<forall>a\<in>set as. f a = None"
    using find_map_Some_split by metis
  have "y \<in> set xs" by (metis split(1) in_set_conv_decomp set_sort)
  then have "y = x \<or> g x < g y" using best split(2) by simp
  moreover have "\<not> g x < g y"
  proof -
    have "x \<in> set as \<or> x \<in> set (y # bs)" using assms(1) split(1) by (metis set_append set_sort Un_iff)
    then have "x \<in> set (y # bs)" using split(3) assms(2) by auto
    moreover have "sorted (map g (as @ y # bs))" using sorted_sort_key [of g xs] split(1) by simp
    ultimately show ?thesis by (auto simp: sorted_append)
  qed
  ultimately show ?thesis using q split(2) assms(2) by simp
qed

section \<open>The properties\<close>

text \<open>C15. Loading a project's configuration ends, whatever its files extend: a chain that comes back to a file is
  answered, by any spelling of its path. The files that exist need only have finitely many canonical paths.\<close>

theorem config_chain_ends:
  assumes "finite (cycle_key w ` {p. is_file (tw_files w) p})"
  shows "\<exists>config problem. load_reporting w project = Some (config, problem)"
  unfolding load_reporting_def by (metis load_first_ends [OF assms] surj_pair)

text \<open>Nothing but a file of the project comes out of an alias or of \<open>baseUrl\<close>: an answer is the canonical path
  of an existing file inside the project, and the framework's own names are never aliased.\<close>

theorem alias_stays_inside:
  assumes "resolve_alias fs c specifier = Some p"
  shows "\<not> is_reserved_alias_specifier specifier \<and> path_is_inside fs p (tc_project_root c) \<and>
    (\<exists>q. is_file fs q \<and> p = normalized_canonical_path fs q)"
  using assms alias_answer_Some alias_candidate_Some
  by (auto simp: resolve_alias_def option_or_def split: if_splits option.splits dest!: find_map_within)


text \<open>A project whose configuration extends another by the name that is given, and the other declares an alias.\<close>

definition extending_world :: "string \<Rightarrow> tsconfig_world" where
  "extending_world specifier =
     \<lparr>tw_files = \<lparr>is_file = (\<lambda>p. p \<in> {''/app/tsconfig.json'', ''/app/./tsconfig.json'', ''/app/./tsconfig.base.json'', ''/app/src/db.ts''}),
        path_exists = (\<lambda>_. True),
        canonicalize = (\<lambda>p. Some (if p = ''/app/./tsconfig.json'' then ''/app/tsconfig.json'' else p))\<rparr>,
      tw_is_dir = (\<lambda>_. False),
      tw_read = (\<lambda>p. Some (if p = ''/app/./tsconfig.base.json'' then ''b'' else ''a'')),
      tw_json = (\<lambda>s. Inr (if s = ''a'' then JObject [(''extends'', JString specifier)]
         else JObject [(''compilerOptions'', JObject [(''paths'', JObject [(''@/*'', JArray [JString ''./src/*''])])])]))\<rparr>"

theorem alias_stays_inside_witness:
  "path_is_inside (tw_files (extending_world [])) ''/app/src/db.ts'' ''/app''"
proof -
  let ?c = "(empty_tsconfig ''/app'')\<lparr>tc_paths := [(''@/*'', [''src/*''])], tc_path_bases := [''/app'']\<rparr>"
  have "resolve_alias (tw_files (extending_world [])) ?c ''@/db'' = Some ''/app/src/db.ts''" by code_simp
  from alias_stays_inside [OF this] show ?thesis by (simp add: empty_tsconfig_def)
qed


theorem config_chain_ends_witness:
  "\<exists>config problem. load_reporting (extending_world ''./tsconfig.json'') ''/app'' = Some (config, problem)"
proof (rule config_chain_ends)
  have "{p. is_file (tw_files (extending_world ''./tsconfig.json'')) p} \<subseteq>
      {''/app/tsconfig.json'', ''/app/./tsconfig.json'', ''/app/./tsconfig.base.json'', ''/app/src/db.ts''}"
    by (auto simp: extending_world_def)
  then show "finite (cycle_key (extending_world ''./tsconfig.json'') ` {p. is_file (tw_files (extending_world ''./tsconfig.json'')) p})"
    by (intro finite_imageI) (rule finite_subset, auto)
qed

text \<open>A configuration is extended under the wrong name when its own has a dot: the extension is replaced
  where it should be appended, \<open>./tsconfig.base\<close> is looked up as \<open>tsconfig.json\<close>, and the project's own file is
  reported as a cycle while the aliases of the file that was meant are lost.\<close>

theorem dotted_extends_is_a_cycle:
  "(case load_reporting (extending_world ''./tsconfig.base'') ''/app'' of
      Some (c, problem) \<Rightarrow> tc_paths c = [] \<and> problem = Some (Cyclic_Extends ''/app/./tsconfig.json'')
    | None \<Rightarrow> False) \<and>
   (case load_reporting (extending_world ''./tsconfig.base.json'') ''/app'' of
      Some (c, problem) \<Rightarrow> tc_paths c = [(''@/*'', [''./src/*''])] \<and> problem = None
    | None \<Rightarrow> False)"
  by (intro conjI) code_simp+

end
