(* ===== verification/Import_Resolution.thy ===== *)
theory Import_Resolution
  imports Ts_Config
begin

text \<open>
  The dependencies of one module (\<open>collect_deps_uncached\<close> and \<open>collect_deps_cached\<close> of \<open>resolver.rs\<close>): every import
  specifier of the source is resolved by a build hook, relative to the importer, through the importing package's
  private imports, through the project's aliases, by the package's own name or in \<open>node_modules\<close>; imports that
  would work on one machine only are refused.

  The scanner, the build hooks and the hash of a source are parameters, the file system is that of
  \<open>Package_Exports\<close>. The resolution cache and the dependency cache are state.
\<close>

section \<open>Which specifiers are resolved\<close>

definition jsx_is_enabled :: "string \<Rightarrow> bool \<Rightarrow> bool" where
  "jsx_is_enabled extension source_looks_like_jsx =
     (let e = map to_ascii_lowercase (trim_start_matches ''.'' extension) in
      if e \<in> {''tsx'', ''jsx''} then True else if e \<in> {''ts'', ''mts'', ''cts''} then False else source_looks_like_jsx)"

definition is_css_module_path :: "string \<Rightarrow> bool" where
  "is_css_module_path p =
     (case path_name p of
        None \<Rightarrow> False
      | Some name \<Rightarrow>
          (let n = map to_ascii_lowercase name in
           ends_with n ''.module.css'' \<or> ends_with n ''.module.scss'' \<or> ends_with n ''.module.sass''))"

definition is_css_module_specifier :: "string \<Rightarrow> bool" where
  "is_css_module_specifier s = is_css_module_path (takeWhile (\<lambda>c. c \<noteq> CHR ''?'' \<and> c \<noteq> CHR ''#'') s)"

definition JSX_RUNTIME_SPECIFIER :: string where "JSX_RUNTIME_SPECIFIER = ''react/jsx-runtime''"

record scanned_module =
  sm_specifiers :: "string list"
  sm_has_jsx :: bool

definition seeded_specifiers :: "scanned_module \<Rightarrow> string \<Rightarrow> bool \<Rightarrow> string list" where
  "seeded_specifiers m extension jsx_automatic =
     (if jsx_automatic \<and> sm_has_jsx m \<and> jsx_is_enabled extension (sm_has_jsx m) \<and>
         JSX_RUNTIME_SPECIFIER \<notin> set (sm_specifiers m)
      then sm_specifiers m @ [JSX_RUNTIME_SPECIFIER] else sm_specifiers m)"

section \<open>One specifier\<close>

datatype bundle_error =
    Hook_Error string
  | Io_Error string
  | Wrong_Case string string string string
  | Project_Root_Shadow string string string
  | Unresolved_Import string string

text \<open>What does not change while a graph is resolved.\<close>

record import_env =
  ie_world :: package_world
  ie_config :: tsconfig_paths
  ie_root :: string
  ie_scan :: "string \<Rightarrow> scanned_module"
  ie_hash :: "string \<Rightarrow> string"
  ie_hook :: "bundle_target \<Rightarrow> string \<Rightarrow> string \<Rightarrow> string + string option"

type_synonym resolution_cache = "string \<times> string \<rightharpoonup> string option"

definition resolved_path :: "package_resolution \<Rightarrow> string option" where
  "resolved_path r = (case r of Resolved p \<Rightarrow> Some p | _ \<Rightarrow> None)"

definition resolve_bare ::
  "import_env \<Rightarrow> string \<Rightarrow> bundle_target \<Rightarrow> string \<Rightarrow> bundle_error + string option" where
  "resolve_bare env base_dir t s =
     (case resolve_alias (pw_files (ie_world env)) (ie_config env) s of
        Some p \<Rightarrow> Inr (Some p)
      | None \<Rightarrow>
          (if self_reference_applies (ie_world env) base_dir (ie_root env) s
           then Inr (resolved_path (resolve_self_reference (ie_world env) base_dir (ie_root env) s t))
           else
             (case resolved_path (resolve_node_modules_specifier (ie_world env) base_dir (ie_root env) s t) of
                Some p \<Rightarrow> Inr (Some p)
              | None \<Rightarrow>
                  (case resolve_project_specifier (pw_files (ie_world env)) (ie_root env) s of
                     None \<Rightarrow> Inr None
                   | Some shadow \<Rightarrow>
                       if is_project_local shadow (ie_root env) then Inl (Project_Root_Shadow s base_dir shadow)
                       else Inr None))))"

definition resolve_relative :: "import_env \<Rightarrow> string \<Rightarrow> resolution_cache \<Rightarrow> string \<Rightarrow> string option \<times> resolution_cache" where
  "resolve_relative env base_dir cache s =
     (case cache (base_dir, s) of
        Some cached \<Rightarrow> (cached, cache)
      | None \<Rightarrow>
          (let result = resolve_specifier (pw_files (ie_world env)) base_dir s in
           (result, cache((base_dir, s) \<mapsto> result))))"

definition resolve_dependency ::
  "import_env \<Rightarrow> string \<Rightarrow> bundle_target \<Rightarrow> resolution_cache \<Rightarrow> string \<Rightarrow> (bundle_error + string option) \<times> resolution_cache" where
  "resolve_dependency env base_dir t cache s =
     (case ie_hook env t base_dir s of
        Inl message \<Rightarrow> (Inl (Hook_Error message), cache)
      | Inr (Some p) \<Rightarrow> (Inr (Some p), cache)
      | Inr None \<Rightarrow>
          (if starts_with s ''.'' then (let (r, cache') = resolve_relative env base_dir cache s in (Inr r, cache'))
           else if starts_with s ''#'' then
             (Inr (option_or (resolve_alias (pw_files (ie_world env)) (ie_config env) s)
                (resolved_path (resolve_package_imports_specifier (ie_world env) base_dir (ie_root env) s t))), cache)
           else if starts_with s ''/'' then
             (Inr (resolve_project_specifier (pw_files (ie_world env)) (ie_root env) s), cache)
           else (resolve_bare env base_dir t s, cache)))"

section \<open>All specifiers of a module\<close>

record resolved_dependencies =
  rd_paths :: "string list"
  rd_aliases :: "string \<rightharpoonup> string"

definition no_dependencies :: resolved_dependencies where
  "no_dependencies = \<lparr>rd_paths = [], rd_aliases = Map.empty\<rparr>"

definition skipped_asset :: "string \<Rightarrow> bool" where
  "skipped_asset s = (is_non_js_asset_specifier s \<and> \<not> is_css_module_specifier s)"

text \<open>What becomes of a resolved specifier.\<close>

definition record_dependency ::
  "import_env \<Rightarrow> string \<Rightarrow> bundle_target \<Rightarrow> string \<Rightarrow> string option \<Rightarrow> resolved_dependencies \<Rightarrow> bundle_error + resolved_dependencies" where
  "record_dependency env base_dir t s resolved deps =
     (case resolved of
        None \<Rightarrow> if \<not> starts_with s ''.'' then Inr deps else Inl (Unresolved_Import s base_dir)
      | Some p \<Rightarrow>
          (case (if starts_with s ''.'' then import_case_mismatch (join_raw base_dir s) p else None) of
             Some (requested, found) \<Rightarrow> Inl (Wrong_Case s base_dir requested found)
           | None \<Rightarrow>
               Inr (if is_project_local p (ie_root env) \<or> t = Client_Target
                    then deps\<lparr>rd_aliases := (rd_aliases deps)(s \<mapsto> p), rd_paths := rd_paths deps @ [p]\<rparr>
                    else deps)))"

fun collect_specifiers ::
  "import_env \<Rightarrow> string \<Rightarrow> bundle_target \<Rightarrow> resolution_cache \<Rightarrow> resolved_dependencies \<Rightarrow> string list \<Rightarrow>
   (bundle_error + resolved_dependencies) \<times> resolution_cache" where
  "collect_specifiers env base_dir t cache deps [] = (Inr deps, cache)"
| "collect_specifiers env base_dir t cache deps (s # ss) =
     (if skipped_asset s then collect_specifiers env base_dir t cache deps ss
      else
        (case resolve_dependency env base_dir t cache s of
           (Inl e, cache') \<Rightarrow> (Inl e, cache')
         | (Inr resolved, cache') \<Rightarrow>
             (case record_dependency env base_dir t s resolved deps of
                Inl e \<Rightarrow> (Inl e, cache')
              | Inr deps' \<Rightarrow> collect_specifiers env base_dir t cache' deps' ss)))"

definition collect_deps_uncached ::
  "import_env \<Rightarrow> string \<Rightarrow> string \<Rightarrow> string \<Rightarrow> bundle_target \<Rightarrow> bool \<Rightarrow> resolution_cache \<Rightarrow>
   (bundle_error + resolved_dependencies) \<times> resolution_cache" where
  "collect_deps_uncached env source extension base_dir t jsx_automatic cache =
     collect_specifiers env base_dir t cache no_dependencies
       (seeded_specifiers (ie_scan env source) extension jsx_automatic)"

section \<open>The dependency cache\<close>

record dependency_cache_key =
  dk_base_dir :: string
  dk_source_hash :: string
  dk_target :: bundle_target
  dk_jsx_automatic :: bool
  dk_jsx_allowed_by_extension :: bool

record graph_cache =
  gc_resolutions :: resolution_cache
  gc_dependencies :: "dependency_cache_key \<rightharpoonup> resolved_dependencies"

definition empty_graph_cache :: graph_cache where
  "empty_graph_cache = \<lparr>gc_resolutions = Map.empty, gc_dependencies = Map.empty\<rparr>"

definition dependency_key :: "import_env \<Rightarrow> string \<Rightarrow> string \<Rightarrow> string \<Rightarrow> bundle_target \<Rightarrow> bool \<Rightarrow> dependency_cache_key" where
  "dependency_key env source extension base_dir t jsx_automatic =
     \<lparr>dk_base_dir = base_dir, dk_source_hash = ie_hash env source, dk_target = t, dk_jsx_automatic = jsx_automatic,
      dk_jsx_allowed_by_extension = jsx_is_enabled extension True\<rparr>"

text \<open>\<open>hosts\<close> is whether any hook host is attached; with one, the cache is not used.\<close>

definition collect_deps_cached ::
  "import_env \<Rightarrow> bool \<Rightarrow> string \<Rightarrow> string \<Rightarrow> string \<Rightarrow> bundle_target \<Rightarrow> bool \<Rightarrow> graph_cache \<Rightarrow>
   (bundle_error + resolved_dependencies) \<times> graph_cache" where
  "collect_deps_cached env hosts source extension base_dir t jsx_automatic g =
     (let key = dependency_key env source extension base_dir t jsx_automatic;
          collect = (\<lambda>_. collect_deps_uncached env source extension base_dir t jsx_automatic (gc_resolutions g)) in
      if hosts then (let (r, c) = collect () in (r, g\<lparr>gc_resolutions := c\<rparr>))
      else
        (case gc_dependencies g key of
           Some cached \<Rightarrow> (Inr cached, g)
         | None \<Rightarrow>
             (case collect () of
                (Inl e, c) \<Rightarrow> (Inl e, g\<lparr>gc_resolutions := c\<rparr>)
              | (Inr deps, c) \<Rightarrow>
                  (Inr deps, g\<lparr>gc_resolutions := c, gc_dependencies := (gc_dependencies g)(key \<mapsto> deps)\<rparr>))))"

section \<open>The caches are invisible\<close>

definition resolutions_true :: "import_env \<Rightarrow> resolution_cache \<Rightarrow> bool" where
  "resolutions_true env cache \<longleftrightarrow>
     (\<forall>base_dir s r. cache (base_dir, s) = Some r \<longrightarrow> r = resolve_specifier (pw_files (ie_world env)) base_dir s)"

lemma resolve_relative_true:
  "resolutions_true env cache \<Longrightarrow>
   fst (resolve_relative env base_dir cache s) = resolve_specifier (pw_files (ie_world env)) base_dir s \<and>
   resolutions_true env (snd (resolve_relative env base_dir cache s))"
  by (auto simp: resolve_relative_def resolutions_true_def Let_def split: option.split)

lemma resolve_dependency_true:
  assumes "resolutions_true env cache"
  shows "fst (resolve_dependency env base_dir t cache s) = fst (resolve_dependency env base_dir t Map.empty s)"
    and "resolutions_true env (snd (resolve_dependency env base_dir t cache s))"
  using resolve_relative_true [OF assms, of base_dir s] resolve_relative_true [of env Map.empty base_dir s] assms
  by (auto simp: resolve_dependency_def resolutions_true_def split_beta Let_def split: sum.split option.split)

text \<open>The reference: each specifier on its own, without a cache.\<close>

fun collect_plain ::
  "import_env \<Rightarrow> string \<Rightarrow> bundle_target \<Rightarrow> resolved_dependencies \<Rightarrow> string list \<Rightarrow> bundle_error + resolved_dependencies" where
  "collect_plain env base_dir t deps [] = Inr deps"
| "collect_plain env base_dir t deps (s # ss) =
     (if skipped_asset s then collect_plain env base_dir t deps ss
      else rbind (fst (resolve_dependency env base_dir t Map.empty s)) (\<lambda>resolved.
           rbind (record_dependency env base_dir t s resolved deps) (\<lambda>deps'.
           collect_plain env base_dir t deps' ss)))"

lemma collect_specifiers_plain:
  "resolutions_true env cache \<Longrightarrow>
   fst (collect_specifiers env base_dir t cache deps ss) = collect_plain env base_dir t deps ss \<and>
   resolutions_true env (snd (collect_specifiers env base_dir t cache deps ss))"
proof (induction ss arbitrary: cache deps)
  case (Cons s ss)
  note step = resolve_dependency_true [OF Cons.prems, of base_dir t s]
  obtain r cache' where e: "resolve_dependency env base_dir t cache s = (r, cache')"
    by (cases "resolve_dependency env base_dir t cache s") auto
  then have plain: "fst (resolve_dependency env base_dir t Map.empty s) = r" "resolutions_true env cache'"
    using step by auto
  show ?case
  proof (cases "skipped_asset s")
    case True
    then show ?thesis using Cons by simp
  next
    case False
    then show ?thesis using e plain Cons.IH [OF plain(2)]
      by (cases r) (auto split: sum.split)
  qed
qed simp

definition plain_dependencies :: "import_env \<Rightarrow> string \<times> string \<times> string \<times> bundle_target \<times> bool \<Rightarrow> bundle_error + resolved_dependencies" where
  "plain_dependencies env = (\<lambda>(source, extension, base_dir, t, jsx_automatic).
     collect_plain env base_dir t no_dependencies (seeded_specifiers (ie_scan env source) extension jsx_automatic))"

lemma jsx_by_key: "jsx_is_enabled e True = jsx_is_enabled e' True \<Longrightarrow> b \<and> jsx_is_enabled e b \<longleftrightarrow> b \<and> jsx_is_enabled e' b"
  by (cases b) simp_all

lemma key_determines:
  assumes "inj (ie_hash env)"
    and "dependency_key env source extension base_dir t auto' = dependency_key env source2 extension2 base_dir2 t2 auto2"
  shows "plain_dependencies env (source, extension, base_dir, t, auto') = plain_dependencies env (source2, extension2, base_dir2, t2, auto2)"
proof -
  have same: "source2 = source" "base_dir2 = base_dir" "t2 = t" "auto2 = auto'"
      "jsx_is_enabled extension True = jsx_is_enabled extension2 True"
    using assms by (auto simp: dependency_key_def inj_eq)
  have "seeded_specifiers m extension auto' = seeded_specifiers m extension2 auto'" for m
    using jsx_by_key [OF same(5), of "sm_has_jsx m"] by (auto simp: seeded_specifiers_def)
  then show ?thesis by (simp add: plain_dependencies_def same)
qed

definition graph_cache_true :: "import_env \<Rightarrow> graph_cache \<Rightarrow> bool" where
  "graph_cache_true env g \<longleftrightarrow> resolutions_true env (gc_resolutions g) \<and>
     (\<forall>source extension base_dir t auto' deps.
        gc_dependencies g (dependency_key env source extension base_dir t auto') = Some deps \<longrightarrow>
        plain_dependencies env (source, extension, base_dir, t, auto') = Inr deps)"

lemma collect_cached_true:
  assumes "inj (ie_hash env)" "graph_cache_true env g"
    and "collect_deps_cached env hosts source extension base_dir t auto' g = (r, g')"
  shows "r = plain_dependencies env (source, extension, base_dir, t, auto') \<and> graph_cache_true env g'"
proof -
  let ?c = "collect_deps_uncached env source extension base_dir t auto' (gc_resolutions g)"
  let ?key = "dependency_key env source extension base_dir t auto'"
  have c: "fst ?c = plain_dependencies env (source, extension, base_dir, t, auto')" "resolutions_true env (snd ?c)"
    using collect_specifiers_plain assms(2)
    by (auto simp: collect_deps_uncached_def plain_dependencies_def graph_cache_true_def)
  consider deps where "\<not> hosts" "gc_dependencies g ?key = Some deps" "r = Inr deps" "g' = g"
    | deps where "\<not> hosts" "fst ?c = Inr deps" "r = Inr deps"
        "g' = g\<lparr>gc_resolutions := snd ?c, gc_dependencies := (gc_dependencies g)(?key \<mapsto> deps)\<rparr>"
    | "r = fst ?c" "g' = g\<lparr>gc_resolutions := snd ?c\<rparr>"
    using assms(3) by (cases ?c; cases "fst ?c") (auto simp: collect_deps_cached_def Let_def split: if_splits option.splits)
  then show ?thesis
  proof cases
    case (2 deps)
    have "plain_dependencies env (s2, e2, b2, t2, a2) = Inr deps"
      if "dependency_key env s2 e2 b2 t2 a2 = ?key" for s2 e2 b2 t2 a2
      using key_determines [OF assms(1) that] c(1) 2(2) by simp
    then show ?thesis using 2 c assms(2) by (auto simp: graph_cache_true_def split: if_splits)
  qed (use assms(2) c in \<open>auto simp: graph_cache_true_def\<close>)
qed

text \<open>A run over modules that share the caches.\<close>

fun module_answers ::
  "import_env \<Rightarrow> bool \<Rightarrow> graph_cache \<Rightarrow> (string \<times> string \<times> string \<times> bundle_target \<times> bool) list \<Rightarrow>
   (bundle_error + resolved_dependencies) list" where
  "module_answers env hosts g [] = []"
| "module_answers env hosts g ((source, extension, base_dir, t, auto') # ms) =
     (let (r, g') = collect_deps_cached env hosts source extension base_dir t auto' g in r # module_answers env hosts g' ms)"

lemma module_answers_true:
  assumes "inj (ie_hash env)"
  shows "graph_cache_true env g \<Longrightarrow> module_answers env hosts g ms = map (plain_dependencies env) ms"
proof (induction ms arbitrary: g)
  case (Cons m ms)
  obtain source extension base_dir t auto' where m: "m = (source, extension, base_dir, t, auto')" by (cases m)
  obtain r g' where e: "collect_deps_cached env hosts source extension base_dir t auto' g = (r, g')"
    by (cases "collect_deps_cached env hosts source extension base_dir t auto' g") auto
  then show ?case using collect_cached_true [OF assms Cons.prems e] Cons.IH [of g'] by (simp add: m)
qed simp

section \<open>Nothing is lost\<close>

definition accounted :: "import_env \<Rightarrow> string \<Rightarrow> bundle_target \<Rightarrow> resolved_dependencies \<Rightarrow> string \<Rightarrow> bool" where
  "accounted env base_dir t deps s \<longleftrightarrow>
     (case fst (resolve_dependency env base_dir t Map.empty s) of
        Inl _ \<Rightarrow> False
      | Inr None \<Rightarrow> \<not> starts_with s ''.''
      | Inr (Some p) \<Rightarrow>
          (starts_with s ''.'' \<longrightarrow> import_case_mismatch (join_raw base_dir s) p = None) \<and>
          (is_project_local p (ie_root env) \<or> t = Client_Target \<longrightarrow> rd_aliases deps s = Some p \<and> p \<in> set (rd_paths deps)))"

definition dependencies_ok :: "import_env \<Rightarrow> string \<Rightarrow> bundle_target \<Rightarrow> resolved_dependencies \<Rightarrow> bool" where
  "dependencies_ok env base_dir t deps \<longleftrightarrow>
     (\<forall>p\<in>set (rd_paths deps). is_project_local p (ie_root env) \<or> t = Client_Target) \<and>
     (\<forall>s p. rd_aliases deps s = Some p \<longrightarrow>
        fst (resolve_dependency env base_dir t Map.empty s) = Inr (Some p) \<and> p \<in> set (rd_paths deps))"

lemma record_dependency_ok:
  assumes "dependencies_ok env base_dir t deps" "fst (resolve_dependency env base_dir t Map.empty s) = Inr resolved"
    and "record_dependency env base_dir t s resolved deps = Inr deps'"
  shows "dependencies_ok env base_dir t deps' \<and> accounted env base_dir t deps' s \<and>
    (\<forall>s'. accounted env base_dir t deps s' \<longrightarrow> accounted env base_dir t deps' s')"
  using assms
  by (auto simp: record_dependency_def dependencies_ok_def accounted_def
      split: option.splits if_splits sum.splits prod.splits)

lemma collect_plain_ok:
  "dependencies_ok env base_dir t deps \<Longrightarrow> collect_plain env base_dir t deps ss = Inr deps' \<Longrightarrow>
   dependencies_ok env base_dir t deps' \<and>
   (\<forall>s\<in>set ss. \<not> skipped_asset s \<longrightarrow> accounted env base_dir t deps' s) \<and>
   (\<forall>s'. accounted env base_dir t deps s' \<longrightarrow> accounted env base_dir t deps' s')"
proof (induction ss arbitrary: deps)
  case (Cons s ss)
  show ?case
  proof (cases "skipped_asset s")
    case True
    then show ?thesis using Cons by simp
  next
    case False
    then obtain resolved deps2 where step: "fst (resolve_dependency env base_dir t Map.empty s) = Inr resolved"
        "record_dependency env base_dir t s resolved deps = Inr deps2" "collect_plain env base_dir t deps2 ss = Inr deps'"
      using Cons.prems(2) by (auto simp: rbind_Inr_iff)
    show ?thesis
      using record_dependency_ok [OF Cons.prems(1) step(1,2)] Cons.IH [of deps2] step(3) by simp
  qed
qed simp

section \<open>The properties\<close>

text \<open>C16. The caches of the module graph are invisible while the files stay as they are: any modules, resolved one
  after another with the shared resolutions and the shared dependencies, with or without hook hosts, get the
  answer of resolving each alone, errors included. In particular two modules that share a cache key have the
  same dependencies, whatever their extensions.\<close>

theorem graph_caches_transparent:
  assumes "inj (ie_hash env)"
  shows "module_answers env hosts empty_graph_cache ms = map (plain_dependencies env) ms"
  by (rule module_answers_true [OF assms])
    (simp add: graph_cache_true_def resolutions_true_def empty_graph_cache_def)


text \<open>A page of the shop that imports a file beside it, a private module, a package, a stylesheet and a package
  that is not installed.\<close>

definition shop_imports :: import_env where
  "shop_imports =
     \<lparr>ie_world = shop_world\<lparr>pw_files :=
        \<lparr>is_file = (\<lambda>p. p \<in> {''/shop/node_modules/ui/dist/tab.js'', ''/shop/./db.js''}), path_exists = (\<lambda>_. True),
         canonicalize = (\<lambda>p. Some (if p = ''/shop/./db.js'' then ''/shop/db.js'' else p))\<rparr>\<rparr>,
      ie_config = empty_tsconfig ''/shop'', ie_root = ''/shop'',
      ie_scan = (\<lambda>_. \<lparr>sm_specifiers = [''./db'', ''#db'', ''ui/tab'', ''./page.css'', ''react''], sm_has_jsx = False\<rparr>),
      ie_hash = (\<lambda>s. s), ie_hook = (\<lambda>_ _ _. Inr None)\<rparr>"

theorem graph_caches_transparent_witness:
  "module_answers shop_imports False empty_graph_cache
     [(''x'', ''ts'', ''/shop'', Client_Target, True), (''x'', ''tsx'', ''/shop'', Client_Target, True)] =
   map (plain_dependencies shop_imports)
     [(''x'', ''ts'', ''/shop'', Client_Target, True), (''x'', ''tsx'', ''/shop'', Client_Target, True)] \<and>
   map_option rd_paths (case plain_dependencies shop_imports (''x'', ''ts'', ''/shop'', Client_Target, True) of
       Inl _ \<Rightarrow> None | Inr deps \<Rightarrow> Some deps) =
     Some [''/shop/db.js'', ''/shop/db.js'', ''/shop/node_modules/ui/dist/tab.js'']"
proof
  have "inj (ie_hash shop_imports)" by (simp add: shop_imports_def)
  then show "module_answers shop_imports False empty_graph_cache
     [(''x'', ''ts'', ''/shop'', Client_Target, True), (''x'', ''tsx'', ''/shop'', Client_Target, True)] =
   map (plain_dependencies shop_imports)
     [(''x'', ''ts'', ''/shop'', Client_Target, True), (''x'', ''tsx'', ''/shop'', Client_Target, True)]"
    by (rule graph_caches_transparent)
  show "map_option rd_paths (case plain_dependencies shop_imports (''x'', ''ts'', ''/shop'', Client_Target, True) of
       Inl _ \<Rightarrow> None | Inr deps \<Rightarrow> Some deps) =
     Some [''/shop/db.js'', ''/shop/db.js'', ''/shop/node_modules/ui/dist/tab.js'']"
    by code_simp
qed


end
