(* ===== verification/Import_Graph.thy ===== *)
theory Import_Graph
  imports Import_Resolution Worklist
begin

text \<open>
  The module graph of a bundle (\<open>resolve_graph_with_incremental\<close> of \<open>resolver.rs\<close>): from a generated entry, the
  frontier of newly found modules is resolved in parallel, its results are collected in order, and their new
  dependencies are the next frontier.

  One interleaving of a frontier is written, in the order of its modules, with the shared caches threaded; that
  the order cannot matter is a lemma. Loading, reading, folding, glob expansion, content compilation and the
  persisted dependencies are parameters. Paths are canonical texts and compared as such.
\<close>

section \<open>The walk\<close>

text \<open>\<open>filter(|dep| visited_set.insert(dep))\<close>.\<close>

fun take_new :: "string set \<Rightarrow> string list \<Rightarrow> string list \<times> string set" where
  "take_new V [] = ([], V)"
| "take_new V (p # ps) =
     (if p \<in> V then take_new V ps else (let (new, V') = take_new (insert p V) ps in (p # new, V')))"

fun resolve_frontier :: "('s \<Rightarrow> string \<Rightarrow> ('e + 'm) \<times> 's) \<Rightarrow> 's \<Rightarrow> string list \<Rightarrow> ('e + 'm) list \<times> 's" where
  "resolve_frontier resolve s [] = ([], s)"
| "resolve_frontier resolve s (p # ps) =
     (let (r, s') = resolve s p; (rs, s'') = resolve_frontier resolve s' ps in (r # rs, s''))"

fun collect_frontier ::
  "('m \<Rightarrow> string list) \<Rightarrow> string set \<Rightarrow> 'm list \<Rightarrow> string list \<Rightarrow> ('e + 'm) list \<Rightarrow> 'e + string set \<times> 'm list \<times> string list" where
  "collect_frontier deps V order next [] = Inr (V, order, next)"
| "collect_frontier deps V order next (r # rs) =
     (case r of
        Inl e \<Rightarrow> Inl e
      | Inr m \<Rightarrow> (let (new, V') = take_new V (deps m) in collect_frontier deps V' (order @ [m]) (next @ new) rs))"

text \<open>The loop over frontiers; \<open>None\<close> is a walk that does not end.\<close>

partial_function (option) walk_layers ::
  "('s \<Rightarrow> string \<Rightarrow> ('e + 'm) \<times> 's) \<Rightarrow> ('m \<Rightarrow> string list) \<Rightarrow> 's \<Rightarrow> string set \<Rightarrow> 'm list \<Rightarrow> string list \<Rightarrow>
   ('e + 'm list) option" where
  "walk_layers resolve deps s V order frontier =
     (if frontier = [] then Some (Inr order)
      else
        (case resolve_frontier resolve s frontier of
           (results, s') \<Rightarrow>
             (case collect_frontier deps V order [] results of
                Inl e \<Rightarrow> Some (Inl e)
              | Inr (V', order', next) \<Rightarrow> walk_layers resolve deps s' V' order' next)))"

declare walk_layers.simps [code]

section \<open>One module\<close>

record resolved_module =
  rm_path :: string
  rm_source :: string
  rm_compiled_content :: "string option"
  rm_load_source_map :: "string option"
  rm_deps :: "string list"
  rm_aliases :: "string \<rightharpoonup> string"
  rm_watch_paths :: "string list"
  rm_glob_matches :: "string list"
  rm_is_external :: bool

record loaded_code =
  lc_code :: string
  lc_map :: "string option"

record glob_expansion =
  ge_source :: string
  ge_watch_roots :: "string list"
  ge_matches :: "string list"

record graph_env =
  g_imports :: import_env
  g_hosts :: bool
  g_load :: "string \<Rightarrow> bundle_error + loaded_code option"
  g_read :: "string \<Rightarrow> bundle_error + string"
  g_fold_node_env :: "string \<Rightarrow> string"
  g_expand_glob :: "string \<Rightarrow> string \<Rightarrow> bundle_error + glob_expansion"
  g_host_content :: "string \<Rightarrow> string \<Rightarrow> bundle_error + string option"
  g_native_content :: "string \<Rightarrow> string \<Rightarrow> bundle_error + string"
  g_persisted :: "string \<Rightarrow> string \<Rightarrow> resolved_dependencies option"

definition in_node_modules :: "string \<Rightarrow> bool" where
  "in_node_modules p = (Normal ''node_modules'' \<in> set (path_components p))"

definition is_external_module :: "bundle_target \<Rightarrow> string \<Rightarrow> bool" where
  "is_external_module t p = (t \<in> {Ssr_Target, Edge_Target} \<and> in_node_modules p)"

definition is_json_module :: "string \<Rightarrow> bool" where
  "is_json_module p = (map_option (map to_ascii_lowercase) (name_extension p) = Some ''json'')"

definition is_content_module :: "string \<Rightarrow> bool" where
  "is_content_module p = (name_extension p \<in> {Some ''md'', Some ''mdx''})"

definition resolve_base :: "graph_env \<Rightarrow> string \<Rightarrow> string" where
  "resolve_base env p = (case parent_path p of Some d \<Rightarrow> d | None \<Rightarrow> ie_root (g_imports env))"

definition module_text :: "graph_env \<Rightarrow> string \<Rightarrow> bundle_error + string \<times> string option" where
  "module_text env p =
     rbind (g_load env p) (\<lambda>loaded.
       (case loaded of
          Some out \<Rightarrow> Inr (lc_code out, lc_map out)
        | None \<Rightarrow> rbind (g_read env p) (\<lambda>s. Inr (s, None))))"

definition expanded_source :: "graph_env \<Rightarrow> bundle_target \<Rightarrow> string \<Rightarrow> string \<Rightarrow> bundle_error + glob_expansion" where
  "expanded_source env t p raw =
     (let src = (if \<not> is_json_module p \<and> t = Client_Target \<and> in_node_modules p then g_fold_node_env env raw else raw) in
      if is_json_module p \<or> is_content_module p \<or> is_external_module t p
      then Inr \<lparr>ge_source = src, ge_watch_roots = [], ge_matches = []\<rparr>
      else g_expand_glob env src (resolve_base env p))"

definition compiled_content_of :: "graph_env \<Rightarrow> string \<Rightarrow> string \<Rightarrow> bundle_error + string option" where
  "compiled_content_of env p src =
     (if is_content_module p then
        rbind (g_host_content env src p) (\<lambda>hosted.
          (case hosted of
             Some code \<Rightarrow> Inr (Some code)
           | None \<Rightarrow> rbind (g_native_content env src p) (\<lambda>code. Inr (Some code))))
      else Inr None)"

text \<open>What is known of a module before its dependencies: the text that was read, its source map, the expansion and
  the compiled content.\<close>

definition prepare_module ::
  "graph_env \<Rightarrow> bundle_target \<Rightarrow> string \<Rightarrow> bundle_error + (string \<times> string option) \<times> glob_expansion \<times> string option" where
  "prepare_module env t p =
     rbind (module_text env p) (\<lambda>raw.
     rbind (expanded_source env t p (fst raw)) (\<lambda>expansion.
     rbind (compiled_content_of env p (ge_source expansion)) (\<lambda>content.
     Inr (raw, expansion, content))))"

definition reusable_dependencies :: "graph_env \<Rightarrow> bundle_target \<Rightarrow> string \<Rightarrow> string \<Rightarrow> glob_expansion \<Rightarrow> resolved_dependencies option" where
  "reusable_dependencies env t p raw expansion =
     (if ge_watch_roots expansion = [] \<and> t = Client_Target \<and> \<not> g_hosts env then g_persisted env p raw else None)"

definition module_extension :: "string \<Rightarrow> string" where
  "module_extension p = (case name_extension p of Some e \<Rightarrow> e | None \<Rightarrow> [])"

definition resolve_module ::
  "graph_env \<Rightarrow> bundle_target \<Rightarrow> bool \<Rightarrow> graph_cache \<Rightarrow> string \<Rightarrow> (bundle_error + resolved_module) \<times> graph_cache" where
  "resolve_module env t jsx_automatic g p =
     (case prepare_module env t p of
        Inl e \<Rightarrow> (Inl e, g)
      | Inr (raw, expansion, content) \<Rightarrow>
          (let (deps, g') =
             (if is_external_module t p \<or> is_json_module p then (Inr no_dependencies, g)
              else
                (case reusable_dependencies env t p (fst raw) expansion of
                   Some reused \<Rightarrow> (Inr reused, g)
                 | None \<Rightarrow>
                     collect_deps_cached (g_imports env) (g_hosts env)
                       (case content of Some c \<Rightarrow> c | None \<Rightarrow> ge_source expansion)
                       (module_extension p) (resolve_base env p) t jsx_automatic g)) in
           (rbind deps (\<lambda>d.
              Inr \<lparr>rm_path = p, rm_source = ge_source expansion, rm_compiled_content = content,
                   rm_load_source_map = snd raw, rm_deps = rd_paths d, rm_aliases = rd_aliases d,
                   rm_watch_paths = ge_watch_roots expansion, rm_glob_matches = ge_matches expansion,
                   rm_is_external = is_external_module t p\<rparr>), g')))"

definition entry_module :: "string \<Rightarrow> string \<Rightarrow> resolved_dependencies \<Rightarrow> resolved_module" where
  "entry_module entry_source entry_label d =
     \<lparr>rm_path = entry_label, rm_source = entry_source, rm_compiled_content = None, rm_load_source_map = None,
      rm_deps = rd_paths d, rm_aliases = rd_aliases d, rm_watch_paths = [], rm_glob_matches = [], rm_is_external = False\<rparr>"

definition resolve_graph ::
  "graph_env \<Rightarrow> bundle_target \<Rightarrow> bool \<Rightarrow> graph_cache \<Rightarrow> string \<Rightarrow> string \<Rightarrow> (bundle_error + resolved_module list) option" where
  "resolve_graph env t jsx_automatic g entry_source entry_label =
     (case collect_deps_cached (g_imports env) (g_hosts env) entry_source ''tsx'' (ie_root (g_imports env)) t
             jsx_automatic g of
        (Inl e, _) \<Rightarrow> Some (Inl e)
      | (Inr d, g') \<Rightarrow>
          (case take_new {entry_label} (rd_paths d) of
             (frontier, V) \<Rightarrow>
               walk_layers (resolve_module env t jsx_automatic) rm_deps g' V [entry_module entry_source entry_label d] frontier))"

section \<open>The interface of a module step\<close>

text \<open>What a queue would do: one module at a time, no cache.\<close>

partial_function (option) walk_queue ::
  "(string \<Rightarrow> 'e + 'm) \<Rightarrow> ('m \<Rightarrow> string list) \<Rightarrow> string set \<Rightarrow> 'm list \<Rightarrow> string list \<Rightarrow> ('e + 'm list) option" where
  "walk_queue step deps V order queue =
     (case queue of
        [] \<Rightarrow> Some (Inr order)
      | p # q \<Rightarrow>
          (case step p of
             Inl e \<Rightarrow> Some (Inl e)
           | Inr m \<Rightarrow>
               (case take_new V (deps m) of
                  (new, V') \<Rightarrow> walk_queue step deps V' (order @ [m]) (q @ new))))"

declare walk_queue.simps [code]

lemma queue_layer:
  "walk_queue step deps V order (frontier @ next) =
     (case collect_frontier deps V order next (map step frontier) of
        Inl e \<Rightarrow> Some (Inl e)
      | Inr (V', order', next') \<Rightarrow> walk_queue step deps V' order' next')"
proof (induction frontier arbitrary: V order "next")
  case (Cons p ps)
  show ?case
  proof (cases "step p")
    case (Inl e)
    then show ?thesis by (subst walk_queue.simps) simp
  next
    case (Inr m)
    obtain new V' where new: "take_new V (deps m) = (new, V')" by (cases "take_new V (deps m)") auto
    have "walk_queue step deps V order (p # ps @ next) = walk_queue step deps V' (order @ [m]) (ps @ next @ new)"
      using Inr new by (subst walk_queue.simps) simp
    then show ?thesis using Cons.IH [of V' "order @ [m]" "next @ new"] Inr new by simp
  qed
qed simp

lemma take_new_props:
  "take_new V ps = (new, V') \<Longrightarrow>
   V' = V \<union> set ps \<and> set new = set ps - V \<and> distinct new"
proof (induction ps arbitrary: V new V')
  case (Cons p ps)
  show ?case
  proof (cases "p \<in> V")
    case True
    then show ?thesis using Cons.IH [of V new V'] Cons.prems by auto
  next
    case False
    obtain new2 V2 where rest: "take_new (insert p V) ps = (new2, V2)" by (cases "take_new (insert p V) ps") auto
    then have "new = p # new2" "V' = V2" using Cons.prems False by auto
    then show ?thesis using Cons.IH [OF rest] False by auto
  qed
qed simp

locale module_step =
  fixes resolve :: "'s \<Rightarrow> string \<Rightarrow> ('e + 'm) \<times> 's"
    and step :: "string \<Rightarrow> 'e + 'm"
    and deps :: "'m \<Rightarrow> string list"
    and ok :: "'s \<Rightarrow> bool"
  assumes resolve_step: "ok s \<Longrightarrow> fst (resolve s p) = step p"
    and resolve_ok: "ok s \<Longrightarrow> ok (snd (resolve s p))"
begin

lemma frontier_steps: "ok s \<Longrightarrow> fst (resolve_frontier resolve s ps) = map step ps \<and> ok (snd (resolve_frontier resolve s ps))"
proof (induction ps arbitrary: s)
  case (Cons p ps)
  obtain r s' where e: "resolve s p = (r, s')" by (cases "resolve s p") auto
  then have "r = step p" "ok s'" using resolve_step [OF Cons.prems, of p] resolve_ok [OF Cons.prems, of p] by auto
  then show ?case using Cons.IH [of s'] e by (auto simp: Let_def split_beta)
qed simp

definition succ :: "string \<Rightarrow> string list" where
  "succ p = (case step p of Inl _ \<Rightarrow> [] | Inr m \<Rightarrow> deps m)"

lemma collected_within:
  assumes "\<And>a b. a \<in> R \<Longrightarrow> b \<in> set (succ a) \<Longrightarrow> b \<in> R"
  shows "set ps \<subseteq> R \<Longrightarrow> collect_frontier deps V order nxt (map step ps) = Inr (V', order', nxt') \<Longrightarrow>
    V \<subseteq> R \<Longrightarrow> set nxt \<subseteq> V \<Longrightarrow> V \<subseteq> V' \<and> V' \<subseteq> R \<and> set nxt' \<subseteq> V' \<and> (V' = V \<longrightarrow> nxt' = nxt)"
proof (induction ps arbitrary: V order nxt)
  case (Cons p ps)
  then obtain m where m: "step p = Inr m" by (cases "step p") auto
  obtain new V2 where new: "take_new V (deps m) = (new, V2)" by (cases "take_new V (deps m)") auto
  have "set (deps m) \<subseteq> R" using assms [of p] Cons.prems(1) m by (auto simp: succ_def)
  then have V2: "V2 \<subseteq> R" "V \<subseteq> V2" "set new \<subseteq> V2" "V2 = V \<longrightarrow> set new = {}"
    using take_new_props [OF new] Cons.prems(3) by auto
  have found: "set (nxt @ new) \<subseteq> V2" using Cons.prems(4) V2 by (metis order_trans set_append Un_least)
  have "collect_frontier deps V2 (order @ [m]) (nxt @ new) (map step ps) = Inr (V', order', nxt')"
    using Cons.prems(2) m new by simp
  from Cons.IH [OF _ this V2(1) found] Cons.prems(1)
  have later: "V2 \<subseteq> V' \<and> V' \<subseteq> R \<and> set nxt' \<subseteq> V' \<and> (V' = V2 \<longrightarrow> nxt' = nxt @ new)" by simp
  moreover have "nxt' = nxt" if "V' = V"
  proof -
    have "V' = V2" "new = []" using that later V2(2,4) by auto
    then show ?thesis using later by simp
  qed
  ultimately show ?case using V2(2) by blast
qed simp

text \<open>Over finitely many modules the layers end, and they end as the queue does.\<close>

lemma layers_are_queue:
  assumes "finite R" "\<And>a b. a \<in> R \<Longrightarrow> b \<in> set (succ a) \<Longrightarrow> b \<in> R"
  shows "V \<subseteq> R \<Longrightarrow> set frontier \<subseteq> V \<Longrightarrow> ok s \<Longrightarrow>
    \<exists>r. walk_layers resolve deps s V order frontier = Some r \<and> walk_queue step deps V order frontier = Some r"
proof (induction "(card (R - V), length frontier)" arbitrary: V frontier s order
    rule: wf_induct_rule [OF wf_lex_prod [OF wf_less wf_less]])
  case 1
  note IH = "1.hyps" and prems = "1.prems"
  show ?case
  proof (cases "frontier = []")
    case True
    then show ?thesis by (auto simp: walk_layers.simps [where frontier = "[]"] walk_queue.simps [where queue = "[]"])
  next
    case False
    obtain results s' where f: "resolve_frontier resolve s frontier = (results, s')"
      by (cases "resolve_frontier resolve s frontier") auto
    then have results: "results = map step frontier" "ok s'" using frontier_steps [OF prems(3), of frontier] by auto
    have queue: "walk_queue step deps V order frontier =
        (case collect_frontier deps V order [] results of
           Inl e \<Rightarrow> Some (Inl e)
         | Inr (V', order', next') \<Rightarrow> walk_queue step deps V' order' next')"
      using queue_layer [of step deps V order frontier "[]"] results(1) by simp
    have layers: "walk_layers resolve deps s V order frontier =
        (case collect_frontier deps V order [] results of
           Inl e \<Rightarrow> Some (Inl e)
         | Inr (V', order', next') \<Rightarrow> walk_layers resolve deps s' V' order' next')"
      using False f by (subst walk_layers.simps) simp
    show ?thesis
    proof (cases "collect_frontier deps V order [] results")
      case (Inl e)
      then show ?thesis using queue layers by simp
    next
      case (Inr c)
      obtain V' order' nxt where c: "c = (V', order', nxt)" by (cases c)
      have V': "V \<subseteq> V'" "V' \<subseteq> R" "set nxt \<subseteq> V'" "V' = V \<longrightarrow> nxt = []"
      proof -
        have "set frontier \<subseteq> R" using prems(1,2) by (rule order_trans [rotated])
        moreover have "collect_frontier deps V order [] (map step frontier) = Inr (V', order', nxt)"
          using Inr c results(1) by simp
        ultimately have "V \<subseteq> V' \<and> V' \<subseteq> R \<and> set nxt \<subseteq> V' \<and> (V' = V \<longrightarrow> nxt = [])"
          using prems(1) by (intro collected_within [OF assms(2)]) simp_all
        then show "V \<subseteq> V'" "V' \<subseteq> R" "set nxt \<subseteq> V'" "V' = V \<longrightarrow> nxt = []" by blast+
      qed
      have "card (R - V') < card (R - V) \<or> V' = V \<and> nxt = []"
      proof (cases "V' = V")
        case False
        then have "R - V' \<subset> R - V" using V'(1,2) by blast
        then show ?thesis using psubset_card_mono [of "R - V" "R - V'"] assms(1) by simp
      qed (use V'(4) in simp)
      then have "\<exists>r. walk_layers resolve deps s' V' order' nxt = Some r \<and> walk_queue step deps V' order' nxt = Some r"
      proof (elim disjE)
        assume smaller: "card (R - V') < card (R - V)"
        show ?thesis by (rule IH [OF _ V'(2,3) results(2)]) (simp add: smaller)
      next
        assume final: "V' = V \<and> nxt = []"
        show ?thesis by (rule IH [OF _ V'(2,3) results(2)]) (simp add: final False)
      qed
      then show ?thesis using queue layers Inr c by simp
    qed
  qed
qed

end

section \<open>What the queue returns\<close>

definition step_closed :: "(string \<Rightarrow> 'e + 'm) \<Rightarrow> ('m \<Rightarrow> string list) \<Rightarrow> string set \<Rightarrow> bool" where
  "step_closed step deps R \<longleftrightarrow> (\<forall>p\<in>R. \<forall>m. step p = Inr m \<longrightarrow> set (deps m) \<subseteq> R)"

definition queue_inv ::
  "(string \<Rightarrow> 'e + 'm) \<Rightarrow> ('m \<Rightarrow> string list) \<Rightarrow> ('m \<Rightarrow> string) \<Rightarrow> 'm \<Rightarrow> string set \<Rightarrow> string set \<Rightarrow> 'm list \<Rightarrow> string list \<Rightarrow> bool" where
  "queue_inv step deps path first R V order queue \<longleftrightarrow>
     distinct (map path order @ queue) \<and> V = set (map path order @ queue) \<and> V \<subseteq> R \<and> first \<in> set order \<and>
     (\<forall>m\<in>set order. set (deps m) \<subseteq> V \<and> (m = first \<or> step (path m) = Inr m))"

lemma queue_inv_step:
  assumes "queue_inv step deps path first R V order (p # q)" "step p = Inr m" "path m = p"
    and "take_new V (deps m) = (new, V')" "step_closed step deps R"
  shows "queue_inv step deps path first R V' (order @ [m]) (q @ new)"
proof -
  have new: "V' = V \<union> set (deps m)" "set new = set (deps m) - V" "distinct new" using take_new_props [OF assms(4)] by auto
  have "p \<in> R" using assms(1) by (auto simp: queue_inv_def)
  then have "set (deps m) \<subseteq> R" using assms(2,5) by (auto simp: step_closed_def)
  then show ?thesis using assms(1-3) new by (auto simp: queue_inv_def)
qed

lemma queue_result:
  assumes "walk_queue step deps V order queue = Some r" "queue_inv step deps path first R V order queue"
    and "step_closed step deps R" "\<And>p m. step p = Inr m \<Longrightarrow> path m = p"
  shows "case r of Inl e \<Rightarrow> \<exists>p\<in>R. step p = Inl e | Inr ms \<Rightarrow> \<exists>V'. queue_inv step deps path first R V' ms []"
proof -
  let ?Q = "\<lambda>r. case r of Inl e \<Rightarrow> \<exists>p\<in>R. step p = Inl e | Inr ms \<Rightarrow> \<exists>V'. queue_inv step deps path first R V' ms []"
  have "step = step \<longrightarrow> deps = deps \<longrightarrow> queue_inv step deps path first R V order queue \<longrightarrow> ?Q r"
  proof (rule walk_queue.raw_induct [where P = "\<lambda>s d V order queue r. s = step \<longrightarrow> d = deps \<longrightarrow>
      queue_inv step deps path first R V order queue \<longrightarrow> ?Q r", OF _ assms(1)])
    fix walk s d V order queue r
    assume IH: "\<And>s d V order queue r. walk s d V order queue = Some r \<Longrightarrow> s = step \<longrightarrow> d = deps \<longrightarrow>
        queue_inv step deps path first R V order queue \<longrightarrow> ?Q r"
      and body: "(case queue of [] \<Rightarrow> Some (Inr order)
        | p # q \<Rightarrow> (case s p of Inl e \<Rightarrow> Some (Inl e)
            | Inr m \<Rightarrow> (case take_new V (d m) of (new, V') \<Rightarrow> walk s d V' (order @ [m]) (q @ new)))) = Some r"
    show "s = step \<longrightarrow> d = deps \<longrightarrow> queue_inv step deps path first R V order queue \<longrightarrow> ?Q r"
    proof (intro impI)
      assume sd: "s = step" "d = deps" and inv: "queue_inv step deps path first R V order queue"
      show "?Q r"
      proof (cases queue)
        case Nil
        then show ?thesis using body inv by auto
      next
        case (Cons p q)
        show ?thesis
        proof (cases "step p")
          case (Inl e)
          then have "r = Inl e" using body Cons sd by simp
          moreover have "p \<in> R" using inv Cons by (auto simp: queue_inv_def)
          ultimately show ?thesis using Inl by auto
        next
          case (Inr m)
          obtain new V' where new: "take_new V (deps m) = (new, V')" by (cases "take_new V (deps m)") auto
          have "walk step deps V' (order @ [m]) (q @ new) = Some r" using body Cons sd Inr new by simp
          moreover have "queue_inv step deps path first R V order (p # q)" using inv Cons by simp
          note queue_inv_step [OF this Inr assms(4) [OF Inr] new assms(3)]
          ultimately show ?thesis using IH by blast
        qed
      qed
    qed
  qed
  with assms(2) show ?thesis by simp
qed

section \<open>Modules without caches\<close>

definition plain_module :: "graph_env \<Rightarrow> bundle_target \<Rightarrow> bool \<Rightarrow> string \<Rightarrow> bundle_error + resolved_module" where
  "plain_module env t jsx_automatic p =
     rbind (prepare_module env t p) (\<lambda>(raw, expansion, content).
     rbind (if is_external_module t p \<or> is_json_module p then Inr no_dependencies
            else
              (case reusable_dependencies env t p (fst raw) expansion of
                 Some reused \<Rightarrow> Inr reused
               | None \<Rightarrow>
                   plain_dependencies (g_imports env)
                     ((case content of Some c \<Rightarrow> c | None \<Rightarrow> ge_source expansion), module_extension p, resolve_base env p, t,
                      jsx_automatic)))
       (\<lambda>d. Inr \<lparr>rm_path = p, rm_source = ge_source expansion, rm_compiled_content = content,
                 rm_load_source_map = snd raw, rm_deps = rd_paths d, rm_aliases = rd_aliases d,
                 rm_watch_paths = ge_watch_roots expansion, rm_glob_matches = ge_matches expansion,
                 rm_is_external = is_external_module t p\<rparr>))"

lemma plain_module_path: "plain_module env t auto' p = Inr m \<Longrightarrow> rm_path m = p"
  by (auto simp: plain_module_def rbind_Inr_iff split: prod.splits)

lemma resolve_module_plain:
  assumes "inj (ie_hash (g_imports env))" "graph_cache_true (g_imports env) g"
  shows "fst (resolve_module env t auto' g p) = plain_module env t auto' p"
    and "graph_cache_true (g_imports env) (snd (resolve_module env t auto' g p))"
proof -
  have "fst (resolve_module env t auto' g p) = plain_module env t auto' p \<and>
      graph_cache_true (g_imports env) (snd (resolve_module env t auto' g p))"
  proof (cases "prepare_module env t p")
    case (Inl e)
    then show ?thesis using assms(2) by (simp add: resolve_module_def plain_module_def)
  next
    case (Inr x)
    obtain raw expansion content where x: "x = (raw, expansion, content)" by (cases x)
    let ?src = "case content of Some c \<Rightarrow> c | None \<Rightarrow> ge_source expansion"
    obtain r g' where c: "collect_deps_cached (g_imports env) (g_hosts env) ?src (module_extension p) (resolve_base env p) t auto' g = (r, g')"
      by (cases "collect_deps_cached (g_imports env) (g_hosts env) ?src (module_extension p) (resolve_base env p) t auto' g") auto
    note plain = collect_cached_true [OF assms c]
    show ?thesis
      using Inr x c plain assms(2)
      by (simp add: resolve_module_def plain_module_def Let_def split: option.split)
  qed
  then show "fst (resolve_module env t auto' g p) = plain_module env t auto' p"
    "graph_cache_true (g_imports env) (snd (resolve_module env t auto' g p))" by auto
qed

text \<open>The step of the code keeps the laws of the interface as long as hashing is injective; the walk is over the
  caches that tell the truth.\<close>

definition true_caches :: "graph_env \<Rightarrow> graph_cache \<Rightarrow> bool" where
  "true_caches env g \<longleftrightarrow> inj (ie_hash (g_imports env)) \<and> graph_cache_true (g_imports env) g"

interpretation bundle_step: module_step "resolve_module env t auto'" "plain_module env t auto'" rm_deps "true_caches env"
  for env t auto'
  by unfold_locales (auto simp: true_caches_def resolve_module_plain)

definition graph_succ :: "graph_env \<Rightarrow> bundle_target \<Rightarrow> bool \<Rightarrow> string \<Rightarrow> string list \<Rightarrow> string \<Rightarrow> string list" where
  "graph_succ env t auto' entry_label entry_deps p =
     (if p = entry_label then entry_deps
      else (case plain_module env t auto' p of Inl _ \<Rightarrow> [] | Inr m \<Rightarrow> rm_deps m))"

text \<open>The walk of the queue, from the same entry.\<close>

definition graph_by_queue ::
  "graph_env \<Rightarrow> bundle_target \<Rightarrow> bool \<Rightarrow> string \<Rightarrow> string \<Rightarrow> resolved_dependencies \<Rightarrow> (bundle_error + resolved_module list) option" where
  "graph_by_queue env t auto' entry_source entry_label d =
     (case take_new {entry_label} (rd_paths d) of
        (queue, V) \<Rightarrow> walk_queue (plain_module env t auto') rm_deps V [entry_module entry_source entry_label d] queue)"

lemma reach_start:
  assumes "take_new {label} ps = (queue, V)"
  shows "V = insert label (set ps)" "set queue \<subseteq> V" "distinct (label # queue)" "V = set (label # queue)"
  using take_new_props [OF assms] by auto

lemma graph_walked:
  fixes env t auto' entry_source entry_label d
  defines "R \<equiv> reach (graph_succ env t auto' entry_label (rd_paths d)) entry_label"
  assumes virtual: "plain_module env t auto' entry_label = Inl e" and "finite R" and "true_caches env g"
    and new: "take_new {entry_label} (rd_paths d) = (queue, V)"
  shows "\<exists>r. walk_layers (resolve_module env t auto') rm_deps g V [entry_module entry_source entry_label d] queue = Some r \<and>
      graph_by_queue env t auto' entry_source entry_label d = Some r \<and>
      (case r of
         Inl e \<Rightarrow> \<exists>p\<in>R. plain_module env t auto' p = Inl e
       | Inr ms \<Rightarrow> distinct (map rm_path ms) \<and> set (map rm_path ms) = R \<and>
           (\<forall>m\<in>set ms. m = entry_module entry_source entry_label d \<or> plain_module env t auto' (rm_path m) = Inr m))"
proof -
  let ?entry = "entry_module entry_source entry_label d"
  let ?succ = "graph_succ env t auto' entry_label (rd_paths d)"
  have entry: "rm_path ?entry = entry_label" "rm_deps ?entry = rd_paths d" by (simp_all add: entry_module_def)
  have label: "entry_label \<in> R" by (simp add: R_def)
  have closed: "b \<in> R" if "a \<in> R" "b \<in> set (?succ a)" for a b
    using that reach_step unfolding R_def by metis
  have "set (rd_paths d) \<subseteq> R" using closed [OF label] by (auto simp: graph_succ_def)
  then have V: "V \<subseteq> R" "set queue \<subseteq> V" using reach_start [OF new] label by auto
  have step: "step_closed (plain_module env t auto') rm_deps R"
    unfolding step_closed_def
  proof (intro ballI allI impI)
    fix p m
    assume p: "p \<in> R" "plain_module env t auto' p = Inr m"
    then have "p \<noteq> entry_label" using virtual by auto
    then show "set (rm_deps m) \<subseteq> R" using closed [OF p(1)] p(2) by (auto simp: graph_succ_def)
  qed
  have within: "b \<in> R" if "a \<in> R" "b \<in> set (bundle_step.succ env t auto' a)" for a b
  proof (cases "plain_module env t auto' a")
    case (Inl x)
    then show ?thesis using that(2) by (simp add: bundle_step.succ_def)
  next
    case (Inr m)
    then have "b \<in> set (rm_deps m)" using that(2) by (simp add: bundle_step.succ_def)
    then show ?thesis using step Inr that(1) unfolding step_closed_def by blast
  qed
  have "\<exists>r. walk_layers (resolve_module env t auto') rm_deps g V [?entry] queue = Some r \<and>
      walk_queue (plain_module env t auto') rm_deps V [?entry] queue = Some r"
    by (rule bundle_step.layers_are_queue [OF \<open>finite R\<close> _ V assms(4)]) (rule within)
  then obtain r where r: "walk_layers (resolve_module env t auto') rm_deps g V [?entry] queue = Some r"
      "walk_queue (plain_module env t auto') rm_deps V [?entry] queue = Some r" by blast
  have start: "queue_inv (plain_module env t auto') rm_deps rm_path ?entry R V [?entry] queue"
    using reach_start [OF new] V entry by (auto simp: queue_inv_def)
  have result: "case r of Inl e \<Rightarrow> \<exists>p\<in>R. plain_module env t auto' p = Inl e
      | Inr ms \<Rightarrow> \<exists>V'. queue_inv (plain_module env t auto') rm_deps rm_path ?entry R V' ms []"
    by (rule queue_result [OF r(2) start step]) (rule plain_module_path)
  have "case r of Inl e \<Rightarrow> \<exists>p\<in>R. plain_module env t auto' p = Inl e
      | Inr ms \<Rightarrow> distinct (map rm_path ms) \<and> set (map rm_path ms) = R \<and>
           (\<forall>m\<in>set ms. m = ?entry \<or> plain_module env t auto' (rm_path m) = Inr m)"
  proof (cases r)
    case (Inl e)
    then show ?thesis using result by simp
  next
    case (Inr ms)
    then obtain V' where inv: "queue_inv (plain_module env t auto') rm_deps rm_path ?entry R V' ms []"
      using result by auto
    then have ms: "distinct (map rm_path ms)" "V' = set (map rm_path ms)" "V' \<subseteq> R" "?entry \<in> set ms"
        "\<forall>m\<in>set ms. set (rm_deps m) \<subseteq> V' \<and> (m = ?entry \<or> plain_module env t auto' (rm_path m) = Inr m)"
      by (auto simp: queue_inv_def)
    have "R \<subseteq> V'"
      unfolding R_def
    proof (rule reach_least)
      show "entry_label \<in> V'" using ms(2,4) entry(1) by (metis image_eqI image_set)
      fix a b
      assume a: "a \<in> V'" and b: "b \<in> set (?succ a)"
      show "b \<in> V'"
      proof (cases "a = entry_label")
        case True
        have "set (rm_deps ?entry) \<subseteq> V'" using ms(4,5) by blast
        then show ?thesis using b True entry(2) by (auto simp: graph_succ_def)
      next
        case False
        obtain m where m: "m \<in> set ms" "rm_path m = a" using a ms(2) by auto
        then have "plain_module env t auto' a = Inr m" using ms(5) False entry(1) by auto
        then show ?thesis using b m(1) ms(5) False by (auto simp: graph_succ_def)
      qed
    qed
    with ms Inr show ?thesis by auto
  qed
  with r show ?thesis using new by (auto simp: graph_by_queue_def)
qed

section \<open>The properties\<close>

text \<open>C11. A bundle's module graph is resolved in breadth-first order, however many threads resolve a frontier and
  whatever they share: with finitely many reachable modules the walk ends, returns exactly what one queue without
  caches returns, lists each module that can be reached from the entry once, with the dependencies it has alone,
  and its error is one of a reachable module, the first the queue meets.\<close>

theorem module_graph_breadth_first:
  assumes "inj (ie_hash (g_imports env))"
    and "plain_dependencies (g_imports env) (entry_source, ''tsx'', ie_root (g_imports env), t, auto') = Inr d"
    and "plain_module env t auto' entry_label = Inl e"
    and "finite (reach (graph_succ env t auto' entry_label (rd_paths d)) entry_label)"
  shows "\<exists>r. resolve_graph env t auto' empty_graph_cache entry_source entry_label = Some r \<and>
      graph_by_queue env t auto' entry_source entry_label d = Some r \<and>
      (case r of
         Inl e \<Rightarrow> \<exists>p\<in>reach (graph_succ env t auto' entry_label (rd_paths d)) entry_label. plain_module env t auto' p = Inl e
       | Inr ms \<Rightarrow> distinct (map rm_path ms) \<and>
           set (map rm_path ms) = reach (graph_succ env t auto' entry_label (rd_paths d)) entry_label \<and>
           (\<forall>m\<in>set ms. m = entry_module entry_source entry_label d \<or> plain_module env t auto' (rm_path m) = Inr m))"
proof -
  let ?root = "ie_root (g_imports env)"
  obtain r g where c: "collect_deps_cached (g_imports env) (g_hosts env) entry_source ''tsx'' ?root t auto' empty_graph_cache = (r, g)"
    by (cases "collect_deps_cached (g_imports env) (g_hosts env) entry_source ''tsx'' ?root t auto' empty_graph_cache") auto
  have "graph_cache_true (g_imports env) empty_graph_cache"
    by (simp add: graph_cache_true_def resolutions_true_def empty_graph_cache_def)
  note entry = collect_cached_true [OF assms(1) this c]
  obtain queue V where new: "take_new {entry_label} (rd_paths d) = (queue, V)"
    by (cases "take_new {entry_label} (rd_paths d)") auto
  have "true_caches env g" using entry assms(1) by (simp add: true_caches_def)
  from graph_walked [OF assms(3,4) this new, of entry_source] show ?thesis
    using c entry assms(2) new by (auto simp: resolve_graph_def)
qed

text \<open>The shop again: the entry imports two modules, one of which imports the other.\<close>

definition shop_graph :: graph_env where
  "shop_graph =
     \<lparr>g_imports = shop_imports
        \<lparr>ie_world := shop_world\<lparr>pw_files :=
           \<lparr>is_file = (\<lambda>p. p \<in> {''/shop/./db.js'', ''/shop/./sum.js''}), path_exists = (\<lambda>_. True),
            canonicalize = (\<lambda>p. Some (if p = ''/shop/./db.js'' then ''/shop/db.js''
                                    else if p = ''/shop/./sum.js'' then ''/shop/sum.js'' else p))\<rparr>\<rparr>,
         ie_scan := (\<lambda>src. \<lparr>sm_specifiers = (if src = ''entry'' then [''./db'', ''./sum''] else if src = ''db'' then [''./sum''] else []),
                          sm_has_jsx = False\<rparr>)\<rparr>,
      g_hosts = False, g_load = (\<lambda>_. Inr None),
      g_read = (\<lambda>p. if p = ''/shop/db.js'' then Inr ''db'' else if p = ''/shop/sum.js'' then Inr ''sum'' else Inl (Io_Error p)),
      g_fold_node_env = (\<lambda>s. s), g_expand_glob = (\<lambda>s _. Inr \<lparr>ge_source = s, ge_watch_roots = [], ge_matches = []\<rparr>),
      g_host_content = (\<lambda>_ _. Inr None), g_native_content = (\<lambda>s _. Inr s), g_persisted = (\<lambda>_ _. None)\<rparr>"

lemma shop_graph_succ:
  "graph_succ shop_graph Client_Target False ''page'' [''/shop/db.js'', ''/shop/sum.js''] ''/shop/db.js'' = [''/shop/sum.js'']"
  "graph_succ shop_graph Client_Target False ''page'' [''/shop/db.js'', ''/shop/sum.js''] ''/shop/sum.js'' = []"
  by code_simp+

theorem module_graph_breadth_first_witness:
  "\<exists>ms. resolve_graph shop_graph Client_Target False empty_graph_cache ''entry'' ''page'' = Some (Inr ms) \<and>
     map rm_path ms = [''page'', ''/shop/db.js'', ''/shop/sum.js'']"
proof -
  let ?deps = "[''/shop/db.js'', ''/shop/sum.js'']"
  let ?succ = "graph_succ shop_graph Client_Target False ''page'' ?deps"
  have "(case plain_dependencies (g_imports shop_graph)
           (''entry'', ''tsx'', ie_root (g_imports shop_graph), Client_Target, False) of Inr d \<Rightarrow> rd_paths d | Inl _ \<Rightarrow> []) = ?deps"
    by code_simp
  then obtain d where d: "plain_dependencies (g_imports shop_graph)
      (''entry'', ''tsx'', ie_root (g_imports shop_graph), Client_Target, False) = Inr d" "rd_paths d = ?deps"
    by (auto split: sum.splits)
  have "case plain_module shop_graph Client_Target False ''page'' of Inl e \<Rightarrow> e = Io_Error ''page'' | Inr m \<Rightarrow> False"
    by code_simp
  then have entry: "plain_module shop_graph Client_Target False ''page'' = Inl (Io_Error ''page'')"
    by (auto split: sum.splits)
  have "reach ?succ ''page'' \<subseteq> {''page'', ''/shop/db.js'', ''/shop/sum.js''}"
    by (rule reach_least) (auto simp: shop_graph_succ graph_succ_def [of _ _ _ _ _ "''page''"])
  then have finite: "finite (reach (graph_succ shop_graph Client_Target False ''page'' (rd_paths d)) ''page'')"
    unfolding d(2) by (rule finite_subset) simp
  have "inj (ie_hash (g_imports shop_graph))" by (simp add: shop_graph_def shop_imports_def)
  from module_graph_breadth_first [OF this d(1) entry finite]
  obtain r where r: "resolve_graph shop_graph Client_Target False empty_graph_cache ''entry'' ''page'' = Some r" by blast
  have "map_option (\<lambda>r. case r of Inr ms \<Rightarrow> map rm_path ms | Inl _ \<Rightarrow> [])
      (resolve_graph shop_graph Client_Target False empty_graph_cache ''entry'' ''page'') =
    Some [''page'', ''/shop/db.js'', ''/shop/sum.js'']"
    by code_simp
  with r show ?thesis by (auto split: sum.splits)
qed

end
