(* ===== verification/Spec2Isabelle.thy ===== *)
theory Spec2Isabelle
  imports Rate_Limit Action_Endpoint Discovery Validate Render_Cache Route_Rules Artifact_Graph Source_Map Chunks I18n Public_Assets Client_Manifest Import_Graph
begin

text \<open>
  Ruvyxa: a verification development of the web framework's Rust crates.

  Ruvyxa turns a directory of TypeScript files into a served application. A build discovers the routes of \<open>app/\<close>,
  checks them, bundles the client code and writes a report; a development or production server answers requests
  from the routes, the caches and the files. The theories model the parts that carry decisions:

  \<^item> the route tree (\<open>src/crates/ruvyxa_graph\<close>): discovery, segments, parallel and intercepting routes, rendering
    strategy, conflicts and boundary validation;
  \<^item> the server (\<open>src/crates/ruvyxa_dev_server\<close>): the router, the render cache, server actions, locales, documents,
    static files and responses;
  \<^item> the middleware (\<open>src/crates/ruvyxa_middleware\<close>): client attribution, the request limiter and the rules of the
    configuration;
  \<^item> the bundler (\<open>src/crates/ruvyxa_bundler\<close>): module resolution, the module graph, chunk planning, source maps and
    the artifact task graph.

  They meet at data: discovery returns the manifest that the router compiles and the validation walks; the render
  cache is keyed by what the router matched; actions pass the client of \<open>Client_Ip\<close> to their limiter; the module
  graph of a bundle is resolved by the package and alias rules and is what chunk planning splits.

  \<^bold>\<open>Shared theories.\<close>
  \<open>Prelude\<close> has the Rust string operations, the result type and the rewrite collections; \<open>Btree_Map\<close> is
  \<open>std::collections::BTreeMap\<close>; \<open>Worklist\<close> is the breadth-first walk several crates write out, with the interface a
  caching successor function has to keep; \<open>Decimal\<close> relates printed and parsed numbers.

  \<^bold>\<open>The route tree.\<close>
  \<open>Manifest\<close> (\<open>manifest.rs\<close>, \<open>cache_policy.rs\<close>) is the data model. \<open>Route_Segments\<close> and \<open>Route_Files\<close> (\<open>discovery.rs\<close>)
  turn folders into URL segments and collect layouts; \<open>Parallel_Routes\<close> (\<open>parallel.rs\<close>, \<open>conflicts.rs\<close>) has slots and
  interceptions; \<open>Exports\<close> (\<open>exports.rs\<close>) reads what a file exports and \<open>Module_Graph\<close> (\<open>graph.rs\<close>) what it imports;
  \<open>Render_Strategy\<close> (\<open>render.rs\<close>) decides how a route is rendered; \<open>Discovery\<close> composes them into \<open>discover_routes\<close>, and
  \<open>Validate\<close> (\<open>validate.rs\<close>) checks the boundaries of server and client code. The theorems give each pass its exact
  result: which manifest is accepted, in which order, which diagnostic is raised and by which module.

  \<^bold>\<open>The server.\<close>
  \<open>Radix_Router\<close> (\<open>router.rs\<close>) is the trie with backtracking, proved to return the best match of the patterns.
  \<open>Recency_List\<close> and \<open>Render_Cache\<close> (\<open>render_cache.rs\<close>) are a linked list over slots and the bounded cache above it,
  related to an abstract least-recently-used map. \<open>Action_Security\<close>, \<open>Replay_Guard\<close>, \<open>Action_Limiter\<close>
  (\<open>action_security.rs\<close>) and \<open>Action_Endpoint\<close> (\<open>framework_endpoints.rs\<close>) are the gates of a server action and the
  handler that applies them in order. \<open>I18n\<close> (\<open>i18n.rs\<close>) chooses locales and redirects; \<open>Document_Head\<close> and
  \<open>Client_Manifest\<close> (\<open>html_document.rs\<close>) assemble documents and look up built assets; \<open>Http_Date\<close>, \<open>Validators\<close>,
  \<open>Asset_Paths\<close> and \<open>Public_Assets\<close> (\<open>static_assets.rs\<close>) serve files; \<open>Responses\<close> (\<open>response.rs\<close>) builds answers.

  \<^bold>\<open>The middleware.\<close>
  \<open>Client_Ip\<close> (\<open>client_ip.rs\<close>) has the address parser and the trusted proxies, with addresses as machine words;
  \<open>Rate_Limit\<close> (\<open>builtin.rs\<close>) the fixed-window limiter; \<open>Route_Rules\<close> (\<open>route_rules.rs\<close>) the redirects, rewrites and
  headers of the configuration.

  \<^bold>\<open>The bundler.\<close>
  \<open>File_Probe\<close>, \<open>Package_Exports\<close>, \<open>Jsonc\<close>, \<open>Ts_Config\<close>, \<open>Import_Resolution\<close> and \<open>Import_Graph\<close> are \<open>resolver.rs\<close>: the
  files a path may stand for, \<open>package.json\<close> maps and containment, configuration texts, alias chains, the dependencies
  of one module with their caches, and the walk over a whole bundle. \<open>Chunks\<close> (\<open>chunking.rs\<close>) plans the files,
  \<open>Source_Map\<close> (\<open>sourcemap.rs\<close>) has the Base64-VLQ codec and the builder, \<open>Artifact_Graph\<close> (\<open>task_graph.rs\<close>) the
  records of build artifacts with their generations and reverse edges.

  \<^bold>\<open>How the code is rendered.\<close>
  A struct is a record and an enum a datatype, under the names of the source. A function is a \<open>fun\<close> or \<open>definition\<close>
  of the same name; where it mutates state, the state is an argument and a result. \<open>Result\<close> is a sum whose left side
  is the error, and a panic is \<open>None\<close> of an option. Strings are lists of UTF-8 bytes, paths are Unix paths. Addresses
  are words, counters and sizes are \<open>nat\<close> where the source saturates or cannot wrap, and the wrap is written out or
  proved impossible elsewhere. A section under one lock is one step; theorems over any sequence of steps cover the
  interleavings of threads. The clock is an argument.

  \<^bold>\<open>Interfaces.\<close>
  Each locale names what a client relies on: a map with an order on its keys (\<open>Btree_Map\<close>), an invariant that every step
  keeps (\<open>Prelude\<close>), a table of URL shapes (\<open>Radix_Router\<close>), a linked structure that simulates an abstract order
  (\<open>Recency_List\<close>), a successor function that caches (\<open>Worklist\<close>) and a module step that caches (\<open>Import_Graph\<close>). Each is
  interpreted on the model's own operations, and the theorems use the interpretations.

  \<^bold>\<open>Loops and bounds.\<close>
  No fuel is used. A loop without a structural measure is a \<open>function\<close> with a termination proof or a
  \<open>partial_function\<close> on options, where \<open>None\<close> means that it does not return; every theorem about such a loop
  states that it returns, over finitely many modules or configuration files (\<open>walks_collect_closures\<close>,
  \<open>config_chain_ends\<close>, \<open>module_graph_breadth_first\<close>). Constants such as the capacity of the caches or the thresholds of
  files are those of the source.

  \<^bold>\<open>Parameters.\<close>
  What is not under \<open>src/\<close> is an argument: the file system and its clock, blake3, serde_json, the regular-expression
  and compression libraries, the source scanner and compiler built on Oxc, and the JavaScript host of build hooks. A
  theorem that needs more than their type says so: that hashing is injective on what is compared, or that a settled
  identity of a file determines its bytes.

  \<^bold>\<open>Not modelled.\<close>
  Text rewriting over syntax trees (the scanner of \<open>ast.rs\<close>, the linker's text, \<open>minifier.rs\<close>, \<open>compiler.rs\<close>,
  \<open>content.rs\<close>, \<open>output.rs\<close>) rests on Oxc, whose trees are not under \<open>src/\<close>. Process and network plumbing (the worker
  pool and its protocol, the watcher and hot reload, the axum and tower wiring of \<open>lib.rs\<close>, the streaming pipeline)
  is concurrency and I/O of tokio. Image codecs are the image crate's. The command line, the terminal
  interface and the printing of diagnostics only present what the modelled parts decide. Diagnostic sentences and log
  lines are left out everywhere. The manifest of the development lists every part with its status.
\<close>

section \<open>From the route tree to the router\<close>

definition ordinary_components :: "path \<Rightarrow> bool" where
  "ordinary_components p = list_all (\<lambda>c. c \<noteq> [] \<and> CHR ''/'' \<notin> set c) p"

lemma discovered_manifest_paths:
  assumes "discover_routes env fs opts = Some (Inr m)"
    and "\<forall>e. Inr e \<in> set (fs_walk fs (opt_app_dir opts) (routable_entry (opt_app_dir opts))) \<longrightarrow>
           ordinary_components (walk_path e)"
    and "r \<in> set (routes m)"
  shows "discovered_path (entry_path r)"
proof -
  from assms(1) obtain es rs where es: "fs_walk fs (opt_app_dir opts) (routable_entry (opt_app_dir opts)) = map Inr es"
    and rs: "list_all2 (\<lambda>e r. route_kind_of e = Some (entry_kind r) \<and> route_of_file (opt_app_dir opts) (walk_path e) r)
       (filter (\<lambda>e. route_kind_of e \<noteq> None) es) rs"
    and m: "routes m = sort_key (\<lambda>r. (entry_path r, entry_id r)) rs"
    by (rule discover_routesE)
  have "r \<in> set rs" using assms(3) m by simp
  then obtain e where "e \<in> set es" and e: "route_of_file (opt_app_dir opts) (walk_path e) r"
    using list_all2_right [OF rs] by auto
  then have "ordinary_components (butlast (walk_path e))"
    using assms(2) es by (auto simp: ordinary_components_def list_all_iff dest: in_set_butlastD)
  then have "list_all (\<lambda>s. s \<noteq> [] \<and> CHR ''/'' \<notin> set s)
      (case strip_dir (opt_app_dir opts) (butlast (walk_path e)) of Some d \<Rightarrow> d | None \<Rightarrow> butlast (walk_path e))"
    by (auto simp: ordinary_components_def list_all_iff strip_dir_def dest: in_set_dropD split: option.splits)
  with e show ?thesis by (auto simp: route_of_file_def intro: discovered_pathI)
qed

text \<open>C3. End to end, from folders to the served route: for any project whose discovery succeeds, the route
  the compiled router answers for a request is strictly more specific than every other route of the project that
  matches the request. No two folders of an accepted project compete for a URL.\<close>

theorem discovered_routes_unambiguous:
  assumes "discover_routes env fs opts = Some (Inr m)"
    and "\<forall>e. Inr e \<in> set (fs_walk fs (opt_app_dir opts) (routable_entry (opt_app_dir opts))) \<longrightarrow>
           ordinary_components (walk_path e)"
    and "find (compile m) m p = Some rm"
    and "r \<in> set (routes m)" "r \<noteq> matched_route rm" "matches (route_pattern r) (split_path p)"
  shows "more_specific (shape (route_pattern (matched_route rm))) (shape (route_pattern r))"
proof -
  have "detect_conflicts (routes m) = Inr ()" by (rule discover_routesE [OF assms(1)])
  moreover have "\<forall>r\<in>set (routes m). discovered_path (entry_path r)"
    using discovered_manifest_paths [OF assms(1,2)] by blast
  ultimately show ?thesis using unique_most_specific assms(3-6) by blast
qed

theorem discovered_routes_unambiguous_witness:
  "\<exists>m rm r. discover_routes shop_env shop_fs shop_options = Some (Inr m) \<and>
     find (compile m) m ''/shop/new'' = Some rm \<and> r \<in> set (routes m) \<and> entry_path r = ''/shop/[id]'' \<and>
     more_specific (shape (route_pattern (matched_route rm))) (shape (route_pattern r))"
proof -
  obtain m where m: "discover_routes shop_env shop_fs shop_options = Some (Inr m)"
    using shop_discovered by (auto split: option.splits sum.splits)
  have paths: "map entry_path (routes m) = [''/'', ''/shop'', ''/shop/[id]'', ''/shop/new'']"
    using shop_discovered by (simp add: m)
  obtain rm where rm: "find (compile m) m ''/shop/new'' = Some rm" "entry_path (matched_route rm) = ''/shop/new''"
    using shop_discovered by (cases "find (compile m) m ''/shop/new''") (simp_all add: m)
  have "''/shop/[id]'' \<in> set (map entry_path (routes m))" unfolding paths by simp
  then obtain r where r: "r \<in> set (routes m)" "entry_path r = ''/shop/[id]''" by auto
  have "r \<noteq> matched_route rm" using r(2) rm(2) by auto
  moreover have "matches (route_pattern r) (split_path ''/shop/new'')"
    unfolding r(2) by code_simp
  moreover have "\<forall>e\<in>set shop_walk. ordinary_components (walk_path e)"
    by (simp add: shop_walk_def ordinary_components_def)
  then have "\<forall>e. Inr e \<in> set (fs_walk shop_fs (opt_app_dir shop_options) (routable_entry (opt_app_dir shop_options))) \<longrightarrow>
      ordinary_components (walk_path e)"
    by (auto simp: shop_fs_def)
  ultimately show ?thesis using discovered_routes_unambiguous [OF m _ rm(1) r(1)] m rm r by blast
qed

section \<open>Interceptions and the router\<close>

definition literal_shape :: "string \<Rightarrow> bool" where
  "literal_shape p = list_all (\<lambda>s. s \<notin> {'':'', ''*'', ''*?''}) (split_path p)"

lemma shape_static_in: "SStatic v \<in> set (shape (map parse_segment vs)) \<Longrightarrow> v \<in> set vs"
proof (induction vs)
  case (Cons w vs)
  then show ?case by (auto simp: parse_segment_def split: if_splits)
qed simp

lemma shape_text_inj:
  assumes "\<forall>k\<in>set ks \<union> set ls. \<forall>v. k = SStatic v \<longrightarrow> v \<notin> {'':'', ''*'', ''*?''}"
    and "map shape_text ks = map shape_text ls"
  shows "ks = ls"
proof (rule map_inj_on [OF assms(2)], rule inj_onI)
  fix a b
  assume "a \<in> set ks \<union> set ls" "b \<in> set ks \<union> set ls" "shape_text a = shape_text b"
  with assms(1) show "a = b" by (cases a; cases b) fastforce+
qed

lemma shape_text_slash:
  assumes "discovered_path p" "s \<in> set (map shape_text (shape (parse_pattern p)))"
  shows "CHR ''/'' \<notin> set s"
proof -
  from assms(1) obtain vs where vs: "\<forall>v\<in>set vs. v \<noteq> [] \<and> CHR ''/'' \<notin> set v" "split_path p = vs"
    by (rule discovered_pathE)
  from assms(2) obtain k where k: "k \<in> set (shape (map parse_segment vs))" "s = shape_text k"
    using vs(2) by (auto simp: parse_pattern_def)
  show ?thesis using vs(1) k by (cases k) (auto dest: shape_static_in)
qed

lemma shape_eq_of_text:
  assumes "discovered_path p" "discovered_path q" "literal_shape p" "literal_shape q"
    and "route_match_shape p = route_match_shape q"
  shows "shape (parse_pattern p) = shape (parse_pattern q)"
proof -
  let ?s = "\<lambda>p. map shape_text (shape (parse_pattern p))"
  have join: "join_with ''/'' (?s p) = join_with ''/'' (?s q)"
    using assms by (simp add: route_match_shape_discovered)
  have nonempty: "[] \<notin> set (?s p)" if "discovered_path p" for p
  proof -
    from that obtain vs where vs: "\<forall>v\<in>set vs. v \<noteq> [] \<and> CHR ''/'' \<notin> set v" "split_path p = vs"
      by (rule discovered_pathE)
    have "shape_text k \<noteq> []" if "k \<in> set (shape (map parse_segment vs))" for k
    proof (cases k)
      case (SStatic v)
      with that vs(1) show ?thesis using shape_static_in [of v vs] by auto
    qed simp_all
    with vs(2) show ?thesis by (auto simp: parse_pattern_def) metis
  qed
  have "path_parts (''/'' @ join_with ''/'' (?s p)) = ?s p" "path_parts (''/'' @ join_with ''/'' (?s q)) = ?s q"
    using nonempty assms(1,2) shape_text_slash by (intro path_parts_join; metis)+
  with join have "?s p = ?s q" by simp
  then show ?thesis
  proof (rule shape_text_inj [rotated])
    show "\<forall>k\<in>set (shape (parse_pattern p)) \<union> set (shape (parse_pattern q)). \<forall>v. k = SStatic v \<longrightarrow> v \<notin> {'':'', ''*'', ''*?''}"
      using assms(3,4) by (auto simp: parse_pattern_def literal_shape_def list_all_iff dest!: shape_static_in)
  qed
qed


definition photo_manifest :: route_manifest where
  "photo_manifest =
     \<lparr>app_dir = [''app''],
      routes =
        [page_at ''/feed''\<lparr>entry_intercepts :=
           [\<lparr>intercept_level = ''app/feed'', intercept_name = ''modal'', intercept_target = ''/feed/[photo]'',
             intercept_marker = ''(.)'', intercept_file = [''app'', ''feed'', ''@modal'', ''(.)[photo]'', ''page.tsx'']\<rparr>]\<rparr>,
         page_at ''/feed/[id]''],
      i18n = None\<rparr>"


end
